(* ===== verification/Prelude.thy ===== *)
theory Prelude
  imports
    "HOL-Library.Word"
    "HOL-Library.List_Lexorder"
    "HOL-Library.Char_ord"
    "HOL-Library.Product_Lexorder"
begin

text \<open>
  What every component of the development shares: the machine types, the result type that
  Rust's \<open>?\<close> operator threads through the code, the kinds of I/O error the code tells apart,
  the big-endian length header and its inverse, and the collections of rewrite rules the
  component proofs use.
\<close>

section \<open>Machine types\<close>

type_synonym byte = "8 word"
type_synonym bytes = "byte list"
type_synonym u32 = "32 word"
type_synonym u64 = "64 word"
type_synonym i64 = "64 word"
type_synonym usize = "64 word"
type_synonym f64 = "64 word" \<comment> \<open>the bit pattern; what arithmetic there is on floats is a parameter\<close>

section \<open>Collections of facts\<close>

named_theorems result_simps \<open>inversion of results built with \<open>and_then\<close>\<close>
named_theorems json_simps \<open>lookups in JSON objects\<close>
named_theorems io_simps \<open>readers, writers and frames\<close>

section \<open>Results\<close>

text \<open>
  \<open>Result<A, E>\<close> is \<open>'e + 'a\<close> with \<open>Inl\<close> for \<open>Err\<close>. \<open>and_then r f\<close> is Rust's \<open>f(r?)\<close>:
  an error returns early.
\<close>

fun and_then :: "'e + 'a \<Rightarrow> ('a \<Rightarrow> 'e + 'b) \<Rightarrow> 'e + 'b" where
  "and_then (Inl e) f = Inl e"
| "and_then (Inr a) f = f a"

lemma and_then_Inr [result_simps]:
  "and_then r f = Inr b \<longleftrightarrow> (\<exists>a. r = Inr a \<and> f a = Inr b)"
  by (cases r) auto

lemma and_then_Inl [result_simps]:
  "and_then r f = Inl e \<longleftrightarrow> r = Inl e \<or> (\<exists>a. r = Inr a \<and> f a = Inl e)"
  by (cases r) auto

text \<open>The error kinds of \<open>std::io::ErrorKind\<close> that the code names or can meet.\<close>

datatype io_kind =
    UnexpectedEof | InvalidData | WouldBlock | Interrupted | WriteZero
  | PermissionDenied | NotFound | BrokenPipe | OtherKind

datatype io_error = IoError (error_kind: io_kind) (error_text: string)

section \<open>The four-byte big-endian length\<close>

text \<open>\<open>u32::to_be_bytes\<close> and \<open>u32::from_be_bytes\<close>, on exactly four bytes.\<close>

definition to_be_bytes :: "u32 \<Rightarrow> bytes" where
  "to_be_bytes w = [ucast (drop_bit 24 w), ucast (drop_bit 16 w), ucast (drop_bit 8 w), ucast w]"

fun from_be_bytes :: "bytes \<Rightarrow> u32" where
  "from_be_bytes [a, b, c, d] =
     push_bit 24 (ucast a) + push_bit 16 (ucast b) + push_bit 8 (ucast c) + ucast d"
| "from_be_bytes _ = 0"

lemma length_to_be_bytes [simp]: "length (to_be_bytes w) = 4"
  by (simp add: to_be_bytes_def)

lemma from_be_bytes_nat:
  "unat (from_be_bytes [a, b, c, d]) =
     unat a * 16777216 + unat b * 65536 + unat c * 256 + unat d"
proof -
  have "unat a < 256" "unat b < 256" "unat c < 256" "unat d < 256"
    using unsigned_less [of a] unsigned_less [of b] unsigned_less [of c] unsigned_less [of d]
    by simp_all
  then show ?thesis
    by (simp add: unat_word_ariths push_bit_eq_mult unsigned_ucast_eq take_bit_eq_mod)
qed

lemma base256_digits:
  fixes n :: nat
  shows "n div 16777216 * 16777216 + n div 65536 mod 256 * 65536 + n div 256 mod 256 * 256
    + n mod 256 = n"
proof -
  have 1: "n div 65536 = n div 256 div 256" and 2: "n div 16777216 = n div 256 div 256 div 256"
    by (simp_all add: div_mult2_eq [symmetric])
  show ?thesis
    unfolding 1 2
    using div_mult_mod_eq [of n 256] div_mult_mod_eq [of "n div 256" 256]
      div_mult_mod_eq [of "n div 256 div 256" 256]
    by linarith
qed

lemma from_to_be_bytes [simp]: "from_be_bytes (to_be_bytes w) = w"
proof -
  have "unat w < 4294967296"
    using unsigned_less [of w] by simp
  then have "unat (from_be_bytes (to_be_bytes w)) = unat w"
    unfolding to_be_bytes_def from_be_bytes_nat
    using base256_digits [of "unat w"]
    by (simp add: unsigned_ucast_eq take_bit_eq_mod drop_bit_eq_div unat_div_distrib)
  then show ?thesis by (simp add: word_unat_eq_iff)
qed

lemma unat_of_nat_u32: "n < 4294967296 \<Longrightarrow> unat (of_nat n :: u32) = n"
  by (simp add: unat_of_nat take_bit_eq_mod)

lemma unat_u64_less: "unat (x :: u64) < 18446744073709551616"
  using unsigned_less [of x] by simp

section \<open>Lists\<close>

lemma take_min_length [simp]: "take (min n (length xs)) xs = take n xs"
  by (simp add: min_def)

lemma drop_length_take: "drop (length (take n xs)) xs = drop n xs"
  by (simp add: min_def)

lemma take_append_drop_length: "take n (drop k xs) @ drop (k + length (take n (drop k xs))) xs = drop k xs"
proof -
  have "drop (k + length (take n (drop k xs))) xs = drop n (drop k xs)"
    by (metis add.commute drop_drop drop_length_take)
  then show ?thesis by (simp only: append_take_drop_id)
qed

lemma concat_map_snoc [simp]: "concat (map f (xs @ [x])) = concat (map f xs) @ f x"
  by simp

end
