(* ===== verification/Json.thy ===== *)
theory Json
  imports Prelude
begin

text \<open>
  The data model of \<open>serde_json::Value\<close> as the sources match on it (\<open>src/guest.rs\<close> names every
  variant), the accessors they call on it, and the objects their \<open>json!\<close> literals build. The
  parser and the printer of serde_json are not modelled: they are the two fields of the
  parameter record \<open>serde\<close>, and theorems that need a law of theirs state it as a hypothesis.
\<close>

section \<open>Values\<close>

text \<open>
  A number is a non-negative integer in 64 bits, a negative integer in 64 bits, or a float;
  an object is serde_json's default map, a \<open>BTreeMap\<close>: an association list in key order.
  A Rust \<open>String\<close> is its UTF-8 bytes, one \<open>char\<close> of HOL each, so \<open>length\<close> is \<open>str::len\<close>.
\<close>

datatype number = PosInt u64 | NegInt i64 | Float f64

datatype json =
    Null
  | Bool bool
  | Number number
  | String string
  | Array "json list"
  | Object "(string \<times> json) list"

type_synonym fields = "(string \<times> json) list"

section \<open>Accessors\<close>

fun as_str :: "json \<Rightarrow> string option" where
  "as_str (String s) = Some s"
| "as_str _ = None"

fun as_i64 :: "json \<Rightarrow> i64 option" where
  "as_i64 (Number (PosInt n)) = (if n \<le> 9223372036854775807 then Some n else None)"
| "as_i64 (Number (NegInt i)) = Some i"
| "as_i64 _ = None"

fun as_u64 :: "json \<Rightarrow> u64 option" where
  "as_u64 (Number (PosInt n)) = Some n"
| "as_u64 _ = None"

fun is_boolean :: "json \<Rightarrow> bool" where
  "is_boolean (Bool _) = True"
| "is_boolean _ = False"

fun as_object :: "json \<Rightarrow> fields option" where
  "as_object (Object kvs) = Some kvs"
| "as_object _ = None"

text \<open>\<open>value["key"]\<close>: the member, or \<open>null\<close> for a missing key and for a value that is no object.\<close>

fun member :: "json \<Rightarrow> string \<Rightarrow> json" where
  "member (Object kvs) k = (case map_of kvs k of Some v \<Rightarrow> v | None \<Rightarrow> Null)"
| "member _ k = Null"

section \<open>Building objects\<close>

text \<open>\<open>BTreeMap::insert\<close>: keys stay in order and a second insert replaces the first.\<close>

fun obj_insert :: "string \<Rightarrow> json \<Rightarrow> fields \<Rightarrow> fields" where
  "obj_insert k v [] = [(k, v)]"
| "obj_insert k v ((k', v') # r) =
     (if k < k' then (k, v) # (k', v') # r
      else if k = k' then (k, v) # r
      else (k', v') # obj_insert k v r)"

definition object :: "fields \<Rightarrow> json" where
  "object kvs = Object (foldl (\<lambda>m (k, v). obj_insert k v m) [] kvs)"

lemma map_of_obj_insert [simp, json_simps]: "map_of (obj_insert k v m) = (map_of m)(k \<mapsto> v)"
  by (induction m rule: obj_insert.induct) (auto simp: fun_eq_iff)

lemma map_of_foldl_obj_insert:
  "map_of (foldl (\<lambda>m (k, v). obj_insert k v m) m kvs) = map_of m ++ map_of (rev kvs)"
  by (induction kvs arbitrary: m) (auto simp: map_add_def fun_eq_iff split: option.splits)

lemma member_object [json_simps]:
  "member (object kvs) k = (case map_of (rev kvs) k of Some v \<Rightarrow> v | None \<Rightarrow> Null)"
  by (simp add: object_def map_of_foldl_obj_insert)

lemma set_keys_obj_insert [simp]: "fst ` set (obj_insert k v m) = insert k (fst ` set m)"
  by (induction m rule: obj_insert.induct) auto

section \<open>Well-formed values\<close>

text \<open>The invariant of the map: keys strictly ascending, in every object of the value.\<close>

definition ordered :: "fields \<Rightarrow> bool" where
  "ordered kvs \<longleftrightarrow> sorted_wrt (<) (map fst kvs)"

fun json_wf :: "json \<Rightarrow> bool" where
  "json_wf (Array vs) = list_all json_wf vs"
| "json_wf (Object kvs) = (ordered kvs \<and> list_all (\<lambda>(_, v). json_wf v) kvs)"
| "json_wf _ = True"

lemma obj_insert_ordered: "ordered m \<Longrightarrow> ordered (obj_insert k v m)"
proof (induction k v m rule: obj_insert.induct)
  case (2 k v k' v' r)
  have "set (map fst (obj_insert k v r)) = insert k (fst ` set r)"
    by simp
  with 2 show ?case
    by (auto simp: ordered_def)
qed (simp add: ordered_def)

lemma obj_insert_wf:
  "list_all (\<lambda>(_, v). json_wf v) m \<Longrightarrow> json_wf v \<Longrightarrow>
     list_all (\<lambda>(_, v). json_wf v) (obj_insert k v m)"
  by (induction k v m rule: obj_insert.induct) auto

lemma object_wf: "list_all (\<lambda>(_, v). json_wf v) kvs \<Longrightarrow> json_wf (object kvs)"
proof -
  have "ordered m \<Longrightarrow> list_all (\<lambda>(_, v). json_wf v) m \<Longrightarrow> list_all (\<lambda>(_, v). json_wf v) kvs \<Longrightarrow>
      json_wf (Object (foldl (\<lambda>m (k, v). obj_insert k v m) m kvs))" for m
    by (induction kvs arbitrary: m) (auto simp: obj_insert_ordered obj_insert_wf)
  from this [of "[]"] show "list_all (\<lambda>(_, v). json_wf v) kvs \<Longrightarrow> json_wf (object kvs)"
    by (simp add: object_def ordered_def)
qed

section \<open>The parser and printer of serde_json\<close>

text \<open>
  \<open>to_vec\<close> and \<open>from_slice\<close> are the crate's; what the code can see of a failure is its category
  (converting it to an I/O error turns end of input into \<open>UnexpectedEof\<close> and the rest into
  \<open>InvalidData\<close>) and its text.
\<close>

datatype json_error = SyntaxError string | DataError string | EofError string

record serde =
  to_vec :: "json \<Rightarrow> json_error + bytes"
  from_slice :: "bytes \<Rightarrow> json_error + json"

fun io_of_json_error :: "json_error \<Rightarrow> io_error" where
  "io_of_json_error (EofError t) = IoError UnexpectedEof t"
| "io_of_json_error (SyntaxError t) = IoError InvalidData t"
| "io_of_json_error (DataError t) = IoError InvalidData t"

end
