(* ===== verification/Protocol.thy ===== *)
theory Protocol
  imports Json
begin

text \<open>
  \<open>src/protocol.rs\<close>: the resource limits, the request with its serde attributes, admission
  (\<open>Request::validate\<close>), and the blocking frame reader and writer.
\<close>

section \<open>Constants, limits and requests\<close>

definition PROTOCOL :: string where "PROTOCOL = ''ruby-local-v1''"
definition PROFILE :: string where "PROFILE = ''opencompany-code-v1''"
definition MAX_FRAME :: nat where "MAX_FRAME = 8 * 1024 * 1024"

lemma MAX_FRAME_eq: "MAX_FRAME = 8388608"
  by (simp add: MAX_FRAME_def)

record limits =
  memory_bytes :: usize
  instructions :: u64
  wall_ms :: u64
  cpu_ms :: u64
  source_bytes :: usize
  result_bytes :: usize
  calls :: usize
  log_bytes :: usize

definition cpu_budget :: u64 where "cpu_budget = 1000"

definition default_limits :: limits where
  "default_limits =
     \<lparr>memory_bytes = 32 * 1024 * 1024, instructions = 10000000, wall_ms = 5000,
      cpu_ms = cpu_budget, source_bytes = 256 * 1024, result_bytes = 1024 * 1024,
      calls = 50, log_bytes = 64 * 1024\<rparr>"

record request =
  protocol :: string
  profile :: string
  execution_id :: string
  source :: string
  filename :: string
  validate_only :: bool
  globals :: json
  catalog :: "string list"
  req_limits :: limits

definition default_filename :: string where "default_filename = ''opencompany-code.rb''"
definition empty_object :: json where "empty_object = object []"

section \<open>Serialization\<close>

text \<open>
  What \<open>#[derive(Serialize)]\<close> writes for the two structs: every field under its name.
\<close>

definition int_value :: "u64 \<Rightarrow> json" where
  "int_value n = Number (PosInt n)"

definition limits_value :: "limits \<Rightarrow> json" where
  "limits_value l = object
     [(''memory_bytes'', int_value (memory_bytes l)), (''instructions'', int_value (instructions l)),
      (''wall_ms'', int_value (wall_ms l)), (''cpu_ms'', int_value (cpu_ms l)),
      (''source_bytes'', int_value (source_bytes l)), (''result_bytes'', int_value (result_bytes l)),
      (''calls'', int_value (calls l)), (''log_bytes'', int_value (log_bytes l))]"

definition request_value :: "request \<Rightarrow> json" where
  "request_value r = object
     [(''protocol'', String (protocol r)), (''profile'', String (profile r)),
      (''execution_id'', String (execution_id r)), (''source'', String (source r)),
      (''filename'', String (filename r)), (''validate_only'', Bool (validate_only r)),
      (''globals'', globals r), (''catalog'', Array (map String (catalog r))),
      (''limits'', limits_value (req_limits r))]"

section \<open>Deserialization\<close>

text \<open>
  What \<open>#[derive(Deserialize)]\<close> with \<open>deny_unknown_fields\<close> reads: an object with known keys only,
  or an array of the fields in declaration order. A field with a \<open>default\<close> attribute may be
  missing, every other field is required, and a value of the wrong type is an error. The text
  of the error is serde's and is not modelled.
\<close>

fun as_string_field :: "json \<Rightarrow> string option" where
  "as_string_field (String s) = Some s"
| "as_string_field _ = None"

fun as_bool_field :: "json \<Rightarrow> bool option" where
  "as_bool_field (Bool b) = Some b"
| "as_bool_field _ = None"

fun as_strings_field :: "json \<Rightarrow> string list option" where
  "as_strings_field (Array vs) = those (map as_string_field vs)"
| "as_strings_field _ = None"

definition required :: "(json \<Rightarrow> 'a option) \<Rightarrow> json option \<Rightarrow> 'a option" where
  "required f v = Option.bind v f"

definition defaulted :: "(json \<Rightarrow> 'a option) \<Rightarrow> 'a \<Rightarrow> json option \<Rightarrow> 'a option" where
  "defaulted f d v = (case v of None \<Rightarrow> Some d | Some w \<Rightarrow> f w)"

definition struct_fields :: "string list \<Rightarrow> json \<Rightarrow> (string \<Rightarrow> json option) option" where
  "struct_fields names v =
     (case v of
        Object kvs \<Rightarrow> if list_all (\<lambda>(k, _). k \<in> set names) kvs then Some (map_of kvs) else None
      | Array vs \<Rightarrow> if length vs \<le> length names then Some (map_of (zip names vs)) else None
      | _ \<Rightarrow> None)"

definition limits_from_value :: "json \<Rightarrow> limits option" where
  "limits_from_value v =
     Option.bind (struct_fields [''memory_bytes'', ''instructions'', ''wall_ms'', ''cpu_ms'',
       ''source_bytes'', ''result_bytes'', ''calls'', ''log_bytes''] v) (\<lambda>get.
     Option.bind (required as_u64 (get ''memory_bytes'')) (\<lambda>mem.
     Option.bind (required as_u64 (get ''instructions'')) (\<lambda>ins.
     Option.bind (required as_u64 (get ''wall_ms'')) (\<lambda>wall.
     Option.bind (defaulted as_u64 cpu_budget (get ''cpu_ms'')) (\<lambda>cpu.
     Option.bind (required as_u64 (get ''source_bytes'')) (\<lambda>src.
     Option.bind (required as_u64 (get ''result_bytes'')) (\<lambda>res.
     Option.bind (required as_u64 (get ''calls'')) (\<lambda>cls.
     Option.bind (required as_u64 (get ''log_bytes'')) (\<lambda>logs.
       Some \<lparr>memory_bytes = mem, instructions = ins, wall_ms = wall, cpu_ms = cpu,
         source_bytes = src, result_bytes = res, calls = cls, log_bytes = logs\<rparr>)))))))))"

definition request_from_value :: "json \<Rightarrow> request option" where
  "request_from_value v =
     Option.bind (struct_fields [''protocol'', ''profile'', ''execution_id'', ''source'',
       ''filename'', ''validate_only'', ''globals'', ''catalog'', ''limits''] v) (\<lambda>get.
     Option.bind (required as_string_field (get ''protocol'')) (\<lambda>prot.
     Option.bind (required as_string_field (get ''profile'')) (\<lambda>prof.
     Option.bind (required as_string_field (get ''execution_id'')) (\<lambda>eid.
     Option.bind (required as_string_field (get ''source'')) (\<lambda>src.
     Option.bind (defaulted as_string_field default_filename (get ''filename'')) (\<lambda>file.
     Option.bind (defaulted as_bool_field False (get ''validate_only'')) (\<lambda>vonly.
     Option.bind (defaulted Some empty_object (get ''globals'')) (\<lambda>globs.
     Option.bind (defaulted as_strings_field [] (get ''catalog'')) (\<lambda>cat.
     Option.bind (defaulted limits_from_value default_limits (get ''limits'')) (\<lambda>lims.
       Some \<lparr>protocol = prot, profile = prof, execution_id = eid, source = src,
         filename = file, validate_only = vonly, globals = globs, catalog = cat,
         req_limits = lims\<rparr>))))))))))"

section \<open>Admission\<close>

datatype request_error =
    UnsupportedProtocol
  | InvalidIdentity
  | ExceedsCeilings
  | InvalidSource
  | InvalidFilename
  | InvalidGlobals
  | InvalidCatalog

fun request_error_text :: "request_error \<Rightarrow> string" where
  "request_error_text UnsupportedProtocol = ''Unsupported protocol/profile''"
| "request_error_text InvalidIdentity = ''Invalid execution identity''"
| "request_error_text ExceedsCeilings = ''Resource profile exceeds engine ceilings''"
| "request_error_text InvalidSource = ''Invalid or oversized source''"
| "request_error_text InvalidFilename =
     ''Source name must be a short logical filename, not a filesystem path''"
| "request_error_text InvalidGlobals = ''Only the data-only ctx input is supported''"
| "request_error_text InvalidCatalog = ''Invalid capability catalog''"

definition is_ascii_alphanumeric :: "char \<Rightarrow> bool" where
  "is_ascii_alphanumeric c \<longleftrightarrow>
     (CHR ''0'' \<le> c \<and> c \<le> CHR ''9'') \<or> (CHR ''A'' \<le> c \<and> c \<le> CHR ''Z'') \<or>
     (CHR ''a'' \<le> c \<and> c \<le> CHR ''z'')"

definition name_byte :: "char \<Rightarrow> bool" where
  "name_byte c \<longleftrightarrow> is_ascii_alphanumeric c \<or> c \<in> set ''-_.''"

definition within_ceilings :: "limits \<Rightarrow> bool" where
  "within_ceilings l \<longleftrightarrow> \<not>
     (\<not> (1024 * 1024 \<le> memory_bytes l \<and> memory_bytes l \<le> 128 * 1024 * 1024)
      \<or> instructions l = 0
      \<or> instructions l > 100000000
      \<or> \<not> (1 \<le> wall_ms l \<and> wall_ms l \<le> 300000)
      \<or> \<not> (1 \<le> cpu_ms l \<and> cpu_ms l \<le> 30000)
      \<or> source_bytes l = 0
      \<or> source_bytes l > 1024 * 1024
      \<or> result_bytes l = 0
      \<or> result_bytes l > 4 * 1024 * 1024
      \<or> calls l > 100
      \<or> log_bytes l > 1024 * 1024)"

definition globals_ok :: "json \<Rightarrow> bool" where
  "globals_ok g \<longleftrightarrow>
     (case as_object g of None \<Rightarrow> False | Some kvs \<Rightarrow> list_all (\<lambda>(k, _). k = ''ctx'') kvs)"

definition path_ok :: "string \<Rightarrow> bool" where
  "path_ok p \<longleftrightarrow> \<not> (length p > 256 \<or> p = [] \<or> \<not> list_all name_byte p)"

definition validate :: "request \<Rightarrow> request_error + unit" where
  "validate r =
     (let l = req_limits r in
      if protocol r \<noteq> PROTOCOL \<or> profile r \<noteq> PROFILE then Inl UnsupportedProtocol
      else if execution_id r = [] \<or> length (execution_id r) > 128 then Inl InvalidIdentity
      else if \<not> within_ceilings l then Inl ExceedsCeilings
      else if length (source r) > unat (source_bytes l) \<or> CHR 0x00 \<in> set (source r)
        then Inl InvalidSource
      else if length (filename r) > 128 \<or> \<not> list_all name_byte (filename r)
        then Inl InvalidFilename
      else if \<not> globals_ok (globals r) then Inl InvalidGlobals
      else if length (catalog r) > 50000 \<or> \<not> list_all path_ok (catalog r)
        then Inl InvalidCatalog
      else Inr ())"


section \<open>Facts\<close>

lemma default_limits_within [simp]: "within_ceilings default_limits"
  by (simp add: within_ceilings_def default_limits_def cpu_budget_def)

lemma struct_fields_object:
  assumes "list_all (\<lambda>(k, _). k \<in> set names) kvs"
  shows "struct_fields names (object kvs) = Some (map_of (foldl (\<lambda>m (k, v). obj_insert k v m) [] kvs))"
proof -
  have step: "list_all (\<lambda>(k, _). k \<in> set names) (obj_insert k v m)"
    if "k \<in> set names" "list_all (\<lambda>(k, _). k \<in> set names) m" for k v m
    using that by (induction k v m rule: obj_insert.induct) auto
  have "list_all (\<lambda>(k, _). k \<in> set names) (foldl (\<lambda>m (k, v). obj_insert k v m) m kvs)"
    if "list_all (\<lambda>(k, _). k \<in> set names) m" for m
    using assms that by (induction kvs arbitrary: m) (auto simp: step)
  then show ?thesis by (simp add: struct_fields_def object_def)
qed

lemma those_map_string [simp]: "those (map (as_string_field \<circ> String) ss) = Some ss"
  by (induction ss) auto

lemma limits_round_trip: "limits_from_value (limits_value l) = Some l"
  by (cases l)
    (simp add: limits_from_value_def limits_value_def struct_fields_object map_of_foldl_obj_insert
      required_def defaulted_def int_value_def)

lemma validate_Inr:
  "validate r = Inr u \<longleftrightarrow> protocol r = PROTOCOL \<and> profile r = PROFILE
     \<and> execution_id r \<noteq> [] \<and> length (execution_id r) \<le> 128 \<and> within_ceilings (req_limits r)
     \<and> length (source r) \<le> unat (source_bytes (req_limits r)) \<and> CHR 0x00 \<notin> set (source r)
     \<and> length (filename r) \<le> 128 \<and> list_all name_byte (filename r) \<and> globals_ok (globals r)
     \<and> length (catalog r) \<le> 50000 \<and> list_all path_ok (catalog r)"
  by (auto simp: validate_def Let_def)

lemma name_byte_safe: "name_byte c \<Longrightarrow> c \<noteq> CHR 0x00 \<and> c \<noteq> CHR ''/'' \<and> c \<noteq> CHR 0x5C"
  by (auto simp: name_byte_def is_ascii_alphanumeric_def)

lemma request_from_request_value: "request_from_value (request_value r) = Some r"
  by (cases r)
    (simp add: request_from_value_def request_value_def struct_fields_object
      map_of_foldl_obj_insert required_def defaulted_def limits_round_trip)

section \<open>Properties\<close>

text \<open>
  C34: the guest admits what the supervisor admitted. The request the supervisor serializes is
  read back field by field by the guest, so its second \<open>validate\<close> gives the same answer.
\<close>
theorem request_round_trip: "request_from_value (request_value r) = Some r"
  by (rule request_from_request_value)


definition minimal_request :: request where
  "minimal_request =
     \<lparr>protocol = PROTOCOL, profile = PROFILE, execution_id = ''r'', source = [],
      filename = default_filename, validate_only = False, globals = empty_object,
      catalog = [''a.b''], req_limits = default_limits\<rparr>"


text \<open>
  The four fields without a default are enough. A request that gives only protocol, profile,
  execution id and source is read with the documented defaults for the rest, and its limits are
  within the ceilings.
\<close>
theorem defaults_complete_request:
  "request_from_value (object [(''protocol'', String p), (''profile'', String q),
      (''execution_id'', String x), (''source'', String src)]) =
    Some \<lparr>protocol = p, profile = q, execution_id = x, source = src,
      filename = ''opencompany-code.rb'', validate_only = False, globals = Object [], catalog = [],
      req_limits = default_limits\<rparr> \<and> within_ceilings default_limits"
  by (simp add: request_from_value_def struct_fields_object map_of_foldl_obj_insert required_def
      defaulted_def default_filename_def empty_object_def object_def [of "[]"])

text \<open>
  Unknown input is refused. An object with a key that is no field of a request is no request,
  whatever else it holds.
\<close>
theorem unknown_field_refused:
  assumes "k \<notin> {''protocol'', ''profile'', ''execution_id'', ''source'', ''filename'',
      ''validate_only'', ''globals'', ''catalog'', ''limits''}"
  shows "request_from_value (Object (kvs @ (k, v) # kvs')) = None"
  using assms by (simp add: request_from_value_def struct_fields_def)

theorem unknown_field_refused_witness:
  "request_from_value (Object ([(''source'', String ''42'')] @ (''workspace_id'', Null) # [])) = None"
  by (rule unknown_field_refused) simp

end
