(* ===== verification/Framing.thy ===== *)
theory Framing
  imports Protocol
begin

text \<open>
  \<open>read_frame\<close> and \<open>write_frame\<close> of \<open>src/protocol.rs\<close> over \<open>std::io::Read\<close> and \<open>Write\<close>. A blocking
  reader is the bytes it will still deliver before end of file; a writer is the bytes it has
  taken and, where it can fail, how many more it takes and the error it then raises.
\<close>

section \<open>Blocking readers and writers\<close>

record sink =
  written :: bytes
  room :: "nat option" \<comment> \<open>\<open>None\<close>: never fails, as a \<open>Vec<u8>\<close>\<close>
  fault :: io_error

definition read_exact :: "nat \<Rightarrow> bytes \<Rightarrow> (io_error + bytes) \<times> bytes" where
  "read_exact n input =
     (if n \<le> length input then (Inr (take n input), drop n input)
      else (Inl (IoError UnexpectedEof ''failed to fill whole buffer''), []))"

definition write_all :: "bytes \<Rightarrow> sink \<Rightarrow> (io_error + unit) \<times> sink" where
  "write_all bs k =
     (case room k of
        None \<Rightarrow> (Inr (), k\<lparr>written := written k @ bs\<rparr>)
      | Some n \<Rightarrow>
          if length bs \<le> n
          then (Inr (), k\<lparr>written := written k @ bs, room := Some (n - length bs)\<rparr>)
          else (Inl (fault k), k\<lparr>written := written k @ take n bs, room := Some 0\<rparr>))"

section \<open>Frames\<close>

definition frame_limit_error :: io_error where
  "frame_limit_error = IoError InvalidData ''Frame size limit''"

fun json_error_text :: "json_error \<Rightarrow> string" where
  "json_error_text (SyntaxError t) = t"
| "json_error_text (DataError t) = t"
| "json_error_text (EofError t) = t"

definition read_frame :: "serde \<Rightarrow> bytes \<Rightarrow> (io_error + json) \<times> bytes" where
  "read_frame S input =
     (case read_exact 4 input of
        (Inl e, rest) \<Rightarrow> (Inl e, rest)
      | (Inr header, rest) \<Rightarrow>
          let size = unat (from_be_bytes header) in
          if size = 0 \<or> size > MAX_FRAME then (Inl frame_limit_error, rest)
          else (case read_exact size rest of
                  (Inl e, rest') \<Rightarrow> (Inl e, rest')
                | (Inr data, rest') \<Rightarrow>
                    (case from_slice S data of
                       Inl e \<Rightarrow> (Inl (IoError InvalidData (json_error_text e)), rest')
                     | Inr v \<Rightarrow> (Inr v, rest'))))"

definition write_frame :: "serde \<Rightarrow> json \<Rightarrow> sink \<Rightarrow> (io_error + unit) \<times> sink" where
  "write_frame S value k =
     (case to_vec S value of
        Inl e \<Rightarrow> (Inl (io_of_json_error e), k)
      | Inr data \<Rightarrow>
          if length data > MAX_FRAME then (Inl frame_limit_error, k)
          else (case write_all (to_be_bytes (of_nat (length data))) k of
                  (Inl e, k') \<Rightarrow> (Inl e, k')
                | (Inr _, k') \<Rightarrow> write_all data k'))"

text \<open>The bytes of one frame, and when a value has one.\<close>

definition frame :: "serde \<Rightarrow> json \<Rightarrow> bytes" where
  "frame S v = (case to_vec S v of
     Inl _ \<Rightarrow> [] | Inr data \<Rightarrow> to_be_bytes (of_nat (length data)) @ data)"

definition frameable :: "serde \<Rightarrow> json \<Rightarrow> bool" where
  "frameable S v \<longleftrightarrow> (case to_vec S v of Inl _ \<Rightarrow> False | Inr data \<Rightarrow> length data \<le> MAX_FRAME)"

text \<open>
  The law of serde_json that a round trip needs of one value: what is printed is not empty and
  parses back to the value.
\<close>

definition codec_ok :: "serde \<Rightarrow> json \<Rightarrow> bool" where
  "codec_ok S v \<longleftrightarrow>
     (case to_vec S v of Inl _ \<Rightarrow> False | Inr data \<Rightarrow> data \<noteq> [] \<and> from_slice S data = Inr v)"

section \<open>Facts about single frames\<close>

lemma frame_header_size:
  assumes "length data \<le> MAX_FRAME"
  shows "unat (from_be_bytes (to_be_bytes (of_nat (length data)))) = length data"
  using assms by (simp add: unat_of_nat_u32 MAX_FRAME_eq)

lemma length_frame_le [io_simps]: "frameable S v \<Longrightarrow> length (frame S v) \<le> MAX_FRAME + 4"
  by (auto simp: frameable_def frame_def split: sum.splits)

lemma length_frame_ge [io_simps]: "frameable S v \<Longrightarrow> 4 \<le> length (frame S v)"
  by (auto simp: frameable_def frame_def split: sum.splits)

lemma write_all_unbounded [io_simps]:
  "room k = None \<Longrightarrow> write_all bs k = (Inr (), k\<lparr>written := written k @ bs\<rparr>)"
  by (simp add: write_all_def)

lemma write_frame_unbounded [io_simps]:
  assumes "room k = None"
  shows "write_frame S v k =
    (if frameable S v then (Inr (), k\<lparr>written := written k @ frame S v\<rparr>)
     else (Inl (case to_vec S v of Inl e \<Rightarrow> io_of_json_error e | Inr _ \<Rightarrow> frame_limit_error), k))"
  using assms
  by (auto simp: write_frame_def frameable_def frame_def write_all_unbounded split: sum.splits)

lemma write_frame_prefix:
  "\<exists>n. written (snd (write_frame S v k)) = written k @ take n (frame S v)"
proof (cases "to_vec S v")
  case (Inl e)
  then show ?thesis by (auto simp: write_frame_def)
next
  case (Inr data)
  show ?thesis
  proof (cases "MAX_FRAME < length data")
    case True
    with Inr show ?thesis by (auto simp: write_frame_def intro: exI [of _ 0])
  next
    case False
    define h where "h = to_be_bytes (of_nat (length data))"
    have [simp]: "length h = 4" by (simp add: h_def)
    have f: "frame S v = h @ data" using Inr by (simp add: frame_def h_def)
    have w: "write_frame S v k = (case write_all h k of
        (Inl e, k') \<Rightarrow> (Inl e, k') | (Inr _, k') \<Rightarrow> write_all data k')"
      using Inr False by (simp add: write_frame_def h_def)
    show ?thesis
    proof (cases "room k")
      case None
      then show ?thesis
        by (intro exI [of _ "length (frame S v)"]) (simp add: w f write_all_def)
    next
      case (Some n)
      then show ?thesis
        by (intro exI [of _ n]) (simp add: w f write_all_def min_def)
    qed
  qed
qed

lemma read_frame_frame:
  assumes "frameable S v" "codec_ok S v"
  shows "read_frame S (frame S v @ rest) = (Inr v, rest)"
proof -
  obtain data where d: "to_vec S v = Inr data" and "data \<noteq> []" and p: "from_slice S data = Inr v"
    and len: "length data \<le> MAX_FRAME"
    using assms by (auto simp: frameable_def codec_ok_def split: sum.splits)
  define h where "h = to_be_bytes (of_nat (length data))"
  have [simp]: "length h = 4" and size: "unat (from_be_bytes h) = length data"
    using len by (simp_all add: h_def frame_header_size del: from_to_be_bytes)
  have f: "frame S v = h @ data" using d by (simp add: frame_def h_def)
  show ?thesis
    using \<open>data \<noteq> []\<close> len p by (simp add: f read_frame_def read_exact_def size)
qed

section \<open>Runs of frames\<close>

text \<open>\<open>write_frames\<close> and \<open>read_frames\<close> iterate the two operations as their callers do.\<close>

fun write_frames :: "serde \<Rightarrow> json list \<Rightarrow> sink \<Rightarrow> (io_error + unit) \<times> sink" where
  "write_frames S [] k = (Inr (), k)"
| "write_frames S (v # vs) k =
     (case write_frame S v k of (Inl e, k') \<Rightarrow> (Inl e, k') | (Inr _, k') \<Rightarrow> write_frames S vs k')"

fun read_frames :: "serde \<Rightarrow> nat \<Rightarrow> bytes \<Rightarrow> (io_error + json list) \<times> bytes" where
  "read_frames S 0 input = (Inr [], input)"
| "read_frames S (Suc n) input =
     (case read_frame S input of
        (Inl e, rest) \<Rightarrow> (Inl e, rest)
      | (Inr v, rest) \<Rightarrow>
          (case read_frames S n rest of
             (Inl e, rest') \<Rightarrow> (Inl e, rest')
           | (Inr vs, rest') \<Rightarrow> (Inr (v # vs), rest')))"

lemma write_frames_unbounded:
  assumes "room k = None" "\<forall>v \<in> set vs. frameable S v"
  shows "write_frames S vs k = (Inr (), k\<lparr>written := written k @ concat (map (frame S) vs)\<rparr>)"
  using assms by (induction vs arbitrary: k) (auto simp: io_simps)

lemma read_frames_concat:
  assumes "\<forall>v \<in> set vs. frameable S v \<and> codec_ok S v"
  shows "read_frames S (length vs) (concat (map (frame S) vs) @ rest) = (Inr vs, rest)"
  using assms by (induction vs) (auto simp: read_frame_frame)


section \<open>Properties\<close>

text \<open>
  Framing is lossless. Values written one after the other to a writer that never fails are
  read back in order, and the reader is left exactly behind the last frame. (Each value must fit a
  frame, and serde_json must parse back what it prints for it.)
\<close>
theorem frames_round_trip:
  assumes "room k = None" "written k = []"
    and "list_all (\<lambda>v. frameable S v \<and> codec_ok S v) vs"
  shows "\<exists>k'. write_frames S vs k = (Inr (), k')
    \<and> read_frames S (length vs) (written k' @ rest) = (Inr vs, rest)"
  using assms by (simp add: write_frames_unbounded read_frames_concat list_all_iff)

theorem frames_round_trip_witness:
  "let S = \<lparr>to_vec = (\<lambda>_. Inr [116]), from_slice = (\<lambda>_. Inr (Bool True))\<rparr>;
       k = \<lparr>written = [], room = None, fault = frame_limit_error\<rparr>
   in \<exists>k'. write_frames S [Bool True, Bool True] k = (Inr (), k')
     \<and> read_frames S 2 (written k' @ [7]) = (Inr [Bool True, Bool True], [7])"
  using frames_round_trip [of "\<lparr>written = [], room = None, fault = frame_limit_error\<rparr>"
      "\<lparr>to_vec = (\<lambda>_. Inr [116]), from_slice = (\<lambda>_. Inr (Bool True))\<rparr>"
      "[Bool True, Bool True]" "[7]"]
  by (simp add: frameable_def codec_ok_def MAX_FRAME_def numeral_2_eq_2)

text \<open>
  The size in a header is checked before anything is allocated or read: a header of zero or
  more than 8 MiB is an error that leaves the whole payload unread.
\<close>
theorem bad_size_rejected:
  assumes "unat len = 0 \<or> MAX_FRAME < unat len"
  shows "read_frame S (to_be_bytes len @ payload) = (Inl frame_limit_error, payload)"
  using assms by (auto simp: read_frame_def read_exact_def)

theorem bad_size_rejected_witness:
  "read_frame S (to_be_bytes 4294967295 @ [1, 2]) = (Inl frame_limit_error, [1, 2])"
  by (rule bad_size_rejected) (simp add: MAX_FRAME_def)

text \<open>
  Whatever happens, \<open>write_frame\<close> appends to the stream a prefix of the value's one frame and
  nothing else; a success has written all of it, and a frame over the limit none of it.
\<close>
theorem write_frame_writes_prefix:
  "\<exists>n. written (snd (write_frame S v k)) = written k @ take n (frame S v)
     \<and> (fst (write_frame S v k) \<noteq> Inr () \<or> length (frame S v) \<le> n)
     \<and> (frameable S v \<or> n = 0)"
proof (cases "frameable S v")
  case False
  then have "snd (write_frame S v k) = k \<and> fst (write_frame S v k) \<noteq> Inr ()"
    by (auto simp: write_frame_def frameable_def split: sum.splits)
  with False show ?thesis by (intro exI [of _ 0]) simp
next
  case True
  then obtain data where d: "to_vec S v = Inr data" "length data \<le> MAX_FRAME"
    by (auto simp: frameable_def split: sum.splits)
  then show ?thesis
  proof (cases "fst (write_frame S v k) = Inr ()")
    case True
    then have "written (snd (write_frame S v k)) = written k @ frame S v"
      using d by (auto simp: write_frame_def frame_def write_all_def split: option.splits if_splits)
    then show ?thesis using \<open>frameable S v\<close>
      by (intro exI [of _ "length (frame S v)"]) simp
  next
    case False
    then show ?thesis using \<open>frameable S v\<close> write_frame_prefix [of S v k] by blast
  qed
qed

end
