(* ===== verification/Transport.thy ===== *)
theory Transport
  imports Framing
begin

text \<open>
  \<open>src/transport.rs\<close>: the incremental \<open>Reader\<close> and \<open>Writer\<close> of the supervisor over nonblocking
  descriptors. One system call is one value of \<open>sysread\<close> or \<open>syswrite\<close>: what the kernel has
  ready (a read returns at most the count asked for, and no bytes means end of file), how much
  the pipe takes (a write never reports more than it was given), or the error.
\<close>

section \<open>System calls\<close>

datatype sysread = Ready bytes | ReadFails io_error
datatype syswrite = Takes nat | WriteFails io_error

fun takes_some :: "syswrite \<Rightarrow> bool" where
  "takes_some (Takes n) = (0 < n)"
| "takes_some (WriteFails e) = False"

lemma takes_someE: "takes_some sys \<Longrightarrow> (\<And>n. sys = Takes n \<Longrightarrow> 0 < n \<Longrightarrow> P) \<Longrightarrow> P"
  by (cases sys) auto

definition CHUNK :: nat where "CHUNK = 65536"

definition retryable :: "io_error \<Rightarrow> bool" where
  "retryable e \<longleftrightarrow> error_kind e = WouldBlock \<or> error_kind e = Interrupted"

section \<open>Reader\<close>

record reader =
  rbytes :: bytes

definition empty_reader :: reader where "empty_reader = \<lparr>rbytes = []\<rparr>"

definition size_limit_error :: io_error where
  "size_limit_error = IoError OtherKind ''Frame size limit''"

definition disconnected :: io_error where
  "disconnected = IoError UnexpectedEof ''Peer disconnected''"

definition frame_length :: "bytes \<Rightarrow> nat" where
  "frame_length bs = unat (from_be_bytes (take 4 bs))"

definition target :: "reader \<Rightarrow> io_error + nat" where
  "target r =
     (if length (rbytes r) < 4 then Inr 4
      else let size = frame_length (rbytes r) in
        if size = 0 \<or> size > MAX_FRAME then Inl size_limit_error else Inr (size + 4))"

definition want :: "reader \<Rightarrow> nat \<Rightarrow> nat" where
  "want r t = min (t - length (rbytes r)) CHUNK"

definition receive :: "serde \<Rightarrow> sysread \<Rightarrow> reader \<Rightarrow> (io_error + json option) \<times> reader" where
  "receive S sys r =
     (case target r of
        Inl e \<Rightarrow> (Inl e, r)
      | Inr t \<Rightarrow>
          (case sys of
             ReadFails e \<Rightarrow> ((if retryable e then Inr None else Inl e), r)
           | Ready bs \<Rightarrow>
               let chunk = take (want r t) bs in
               if chunk = [] then (Inl disconnected, r)
               else
                 let r' = r\<lparr>rbytes := rbytes r @ chunk\<rparr> in
                 if t > 4 \<and> length (rbytes r') = t
                 then (case from_slice S (drop 4 (rbytes r')) of
                         Inl e \<Rightarrow> (Inl (io_of_json_error e), r')
                       | Inr v \<Rightarrow> (Inr (Some v), r'\<lparr>rbytes := []\<rparr>))
                 else (Inr None, r')))"

section \<open>Writer\<close>

record writer =
  wbytes :: bytes
  woffset :: nat

definition empty_writer :: writer where "empty_writer = \<lparr>wbytes = [], woffset = 0\<rparr>"

definition pending :: "writer \<Rightarrow> bool" where
  "pending w \<longleftrightarrow> woffset w < length (wbytes w)"

definition backpressure :: io_error where
  "backpressure = IoError OtherKind ''Protocol producer exceeded backpressure''"

definition enqueue :: "serde \<Rightarrow> json \<Rightarrow> writer \<Rightarrow> (io_error + unit) \<times> writer" where
  "enqueue S v w =
     (if pending w then (Inl backpressure, w)
      else
        (case write_frame S v \<lparr>written = [], room = None, fault = backpressure\<rparr> of
           (res, k) \<Rightarrow> (res, \<lparr>wbytes = written k, woffset = 0\<rparr>)))"

text \<open>\<open>send\<close> also returns the bytes the descriptor took.\<close>

definition send :: "syswrite \<Rightarrow> writer \<Rightarrow> (io_error + unit) \<times> bytes \<times> writer" where
  "send sys w =
     (if \<not> pending w then (Inr (), [], w)
      else
        let remaining = drop (woffset w) (wbytes w); given = take CHUNK remaining in
        (case sys of
           WriteFails e \<Rightarrow> ((if retryable e then Inr () else Inl e), [], w)
         | Takes n \<Rightarrow>
             let sent = take n given in
             if sent = [] then (Inl (IoError WriteZero ''Peer stopped accepting data''), [], w)
             else (Inr (), sent, w\<lparr>woffset := woffset w + length sent\<rparr>)))"

section \<open>The writer's contract\<close>

text \<open>What is queued and not yet on the wire.\<close>

definition backlog :: "writer \<Rightarrow> bytes" where
  "backlog w = drop (woffset w) (wbytes w)"

lemma pending_backlog: "pending w \<longleftrightarrow> backlog w \<noteq> []"
  by (auto simp: pending_def backlog_def)

lemma backlog_empty_writer [simp]: "backlog empty_writer = []"
  by (simp add: backlog_def empty_writer_def)

lemma enqueue_cases [io_simps]:
  "enqueue S v w =
    (if pending w then (Inl backpressure, w)
     else if frameable S v then (Inr (), \<lparr>wbytes = frame S v, woffset = 0\<rparr>)
     else (Inl (case to_vec S v of Inl e \<Rightarrow> io_of_json_error e | Inr _ \<Rightarrow> frame_limit_error),
           \<lparr>wbytes = [], woffset = 0\<rparr>))"
  by (simp add: enqueue_def io_simps)

lemma enqueue_ok:
  assumes "enqueue S v w = (Inr (), w')"
  shows "backlog w = []" "frameable S v" "backlog w' = frame S v" "pending w'"
  using assms length_frame_ge [of S v]
  by (fastforce simp: enqueue_cases backlog_def pending_def split: if_splits)+

lemma enqueue_error:
  assumes "enqueue S v w = (Inl e, w')"
  shows "backlog w' = backlog w" "pending w \<or> \<not> frameable S v"
  using assms by (auto simp: io_simps backlog_def pending_def split: if_splits)

lemma backlog_advance:
  "take n (backlog w) @ backlog (w\<lparr>woffset := woffset w + length (take n (backlog w))\<rparr>) = backlog w"
  by (simp add: backlog_def take_append_drop_length del: length_take length_drop)

lemma send_backlog: "send sys w = (res, out, w') \<Longrightarrow> backlog w = out @ backlog w'"
  by (cases sys)
    (auto simp: send_def Let_def backlog_def [symmetric] backlog_advance simp del: length_take
      split: if_splits)

lemma send_progress:
  assumes "pending w" "0 < n"
  shows "\<exists>out w'. send (Takes n) w = (Inr (), out, w') \<and> out \<noteq> []"
  using assms by (auto simp: send_def pending_def CHUNK_def)

lemma send_error: "send sys w = (Inl e, out, w') \<Longrightarrow> out = [] \<and> w' = w"
  by (cases sys) (auto simp: send_def Let_def split: if_splits)

lemma send_idle: "\<not> pending w \<Longrightarrow> send sys w = (Inr (), [], w)"
  by (simp add: send_def)


text \<open>
  The contract the supervisor relies on: a queue of bytes that takes a whole frame only when
  it is empty and gives its bytes to the descriptor in order. \<open>drive\<close> is any client of it, a
  sequence of \<open>enqueue\<close> and \<open>send\<close> calls in any order with any outcome; it returns the bytes on
  the wire and the values accepted.
\<close>

datatype wop = Put json | Push syswrite

fun drive :: "(json \<Rightarrow> 'w \<Rightarrow> (io_error + unit) \<times> 'w) \<Rightarrow>
    (syswrite \<Rightarrow> 'w \<Rightarrow> (io_error + unit) \<times> bytes \<times> 'w) \<Rightarrow> wop list \<Rightarrow> 'w \<Rightarrow>
    bytes \<times> json list \<times> 'w" where
  "drive put push [] w = ([], [], w)"
| "drive put push (Put v # ops) w =
     (case put v w of (res, w') \<Rightarrow>
        (case drive put push ops w' of (wire, accepted, w'') \<Rightarrow>
           (wire, (case res of Inl _ \<Rightarrow> accepted | Inr _ \<Rightarrow> v # accepted), w'')))"
| "drive put push (Push sys # ops) w =
     (case push sys w of (_, out, w') \<Rightarrow>
        (case drive put push ops w' of (wire, accepted, w'') \<Rightarrow> (out @ wire, accepted, w'')))"

locale frame_writer =
  fixes put :: "json \<Rightarrow> 'w \<Rightarrow> (io_error + unit) \<times> 'w"
    and push :: "syswrite \<Rightarrow> 'w \<Rightarrow> (io_error + unit) \<times> bytes \<times> 'w"
    and waiting :: "'w \<Rightarrow> bytes"
    and bytes_of :: "json \<Rightarrow> bytes"
  assumes put_ok: "put v w = (Inr u, w') \<Longrightarrow> waiting w = [] \<and> waiting w' = bytes_of v"
    and put_error: "put v w = (Inl e, w') \<Longrightarrow> waiting w' = waiting w"
    and push_split: "push sys w = (res, out, w') \<Longrightarrow> waiting w = out @ waiting w'"
begin

lemma stream_put:
  assumes "wire @ waiting w = concat (map bytes_of log)" "put v w = (Inr u, w')"
  shows "wire @ waiting w' = concat (map bytes_of (log @ [v]))"
  using assms put_ok [OF assms(2)] by simp

lemma stream_put_error:
  assumes "wire @ waiting w = concat (map bytes_of log)" "put v w = (Inl e, w')"
  shows "wire @ waiting w' = concat (map bytes_of log)"
  using assms put_error [OF assms(2)] by simp

lemma stream_push:
  assumes "wire @ waiting w = concat (map bytes_of log)" "push sys w = (res, out, w')"
  shows "(wire @ out) @ waiting w' = concat (map bytes_of log)"
  using assms push_split [OF assms(2)] by simp

lemma drive_conserves:
  "drive put push ops w = (wire, accepted, w') \<Longrightarrow>
     waiting w @ concat (map bytes_of accepted) = wire @ waiting w'"
proof (induction ops arbitrary: w wire accepted)
  case Nil
  then show ?case by simp
next
  case (Cons x ops)
  show ?case
  proof (cases x)
    case (Put v)
    obtain res w1 where p: "put v w = (res, w1)" by force
    obtain wire1 acc1 where d: "drive put push ops w1 = (wire1, acc1, w')"
      using Cons.prems Put p by (auto split: prod.splits)
    from Cons.IH [OF d] show ?thesis
      using Cons.prems Put p d by (cases res) (auto dest: put_ok put_error)
  next
    case (Push sys)
    obtain res out w1 where p: "push sys w = (res, out, w1)" by (cases "push sys w")
    obtain wire1 acc1 where d: "drive put push ops w1 = (wire1, acc1, w')"
      using Cons.prems Push p by (auto split: prod.splits)
    from Cons.IH [OF d] show ?thesis
      using Cons.prems Push p d push_split [OF p] by auto
  qed
qed

end

interpretation tw: frame_writer "enqueue S" send backlog "frame S" for S
proof unfold_locales
  fix v w u w'
  assume "enqueue S v w = (Inr u, w')"
  then show "backlog w = [] \<and> backlog w' = frame S v"
    using enqueue_ok [of S v w w'] by simp
next
  fix v w e w'
  assume "enqueue S v w = (Inl e, w')"
  then show "backlog w' = backlog w" by (rule enqueue_error)
qed (rule send_backlog)

text \<open>\<open>drain\<close> is the loop that sends until the queue is empty, with one call per descriptor event.\<close>

fun drain :: "syswrite list \<Rightarrow> writer \<Rightarrow> (io_error + unit) \<times> bytes \<times> writer" where
  "drain [] w = (Inr (), [], w)"
| "drain (sys # rest) w =
     (case send sys w of
        (Inl e, out, w') \<Rightarrow> (Inl e, out, w')
      | (Inr _, out, w') \<Rightarrow> (case drain rest w' of (res, out', w'') \<Rightarrow> (res, out @ out', w'')))"

lemma drain_progress:
  assumes "list_all takes_some events" "length (backlog w) \<le> length events"
  shows "\<exists>w'. drain events w = (Inr (), backlog w, w') \<and> backlog w' = []"
  using assms
proof (induction events arbitrary: w)
  case Nil
  then show ?case by simp
next
  case (Cons sys rest)
  obtain n where n: "sys = Takes n" "0 < n" using Cons.prems by (auto elim: takes_someE)
  have ex: "\<exists>out w'. send sys w = (Inr (), out, w') \<and> length (backlog w') \<le> length rest"
  proof (cases "pending w")
    case True
    then obtain out w' where s: "send sys w = (Inr (), out, w')" "out \<noteq> []"
      using send_progress [OF True n(2)] n(1) by blast
    have "backlog w = out @ backlog w'" by (rule send_backlog [OF s(1)])
    then have "length (backlog w') < length (backlog w)" using s(2) by simp
    then show ?thesis using s(1) Cons.prems(2) by (auto intro!: exI [of _ out])
  next
    case False
    then show ?thesis using pending_backlog [of w] by (simp add: send_idle)
  qed
  then obtain out w' where s: "send sys w = (Inr (), out, w')"
    and l: "length (backlog w') \<le> length rest" by blast
  obtain w'' where "drain rest w' = (Inr (), backlog w', w'')" "backlog w'' = []"
    using Cons.IH [of w'] Cons.prems(1) l by auto
  then show ?case using s send_backlog [OF s] by simp
qed

section \<open>The reader's contract\<close>

definition reader_inv :: "reader \<Rightarrow> bool" where
  "reader_inv r \<longleftrightarrow> length (rbytes r) \<le> 4 \<or>
     (let size = frame_length (rbytes r) in
        0 < size \<and> size \<le> MAX_FRAME \<and> length (rbytes r) \<le> size + 4)"

text \<open>How many bytes a call takes from the descriptor.\<close>

definition consumed :: "sysread \<Rightarrow> reader \<Rightarrow> nat" where
  "consumed sys r =
     (case (target r, sys) of (Inr t, Ready bs) \<Rightarrow> length (take (want r t) bs) | _ \<Rightarrow> 0)"

lemma reader_inv_empty [simp]: "reader_inv empty_reader"
  by (simp add: reader_inv_def empty_reader_def)

lemma reader_inv_bound: "reader_inv r \<Longrightarrow> length (rbytes r) \<le> MAX_FRAME + 4"
  by (auto simp: reader_inv_def Let_def)

lemma take_consumed: "target r = Inr t \<Longrightarrow> take (consumed (Ready bs) r) bs = take (want r t) bs"
  by (simp add: consumed_def min_def)

lemma target_cases:
  assumes "target r = Inr t"
  obtains "length (rbytes r) < 4" "t = 4"
  | "4 \<le> length (rbytes r)" "0 < frame_length (rbytes r)" "frame_length (rbytes r) \<le> MAX_FRAME"
    "t = frame_length (rbytes r) + 4"
  using assms by (auto simp: target_def Let_def split: if_splits)

lemma frame_length_append: "4 \<le> length bs \<Longrightarrow> frame_length (bs @ cs) = frame_length bs"
  by (simp add: frame_length_def)

lemma receive_Ready:
  assumes "target r = Inr t"
  shows "receive S (Ready bs) r =
    (let chunk = take (consumed (Ready bs) r) bs; r' = r\<lparr>rbytes := rbytes r @ chunk\<rparr> in
     if chunk = [] then (Inl disconnected, r)
     else if t > 4 \<and> length (rbytes r') = t
     then (case from_slice S (drop 4 (rbytes r')) of
             Inl e \<Rightarrow> (Inl (io_of_json_error e), r')
           | Inr v \<Rightarrow> (Inr (Some v), empty_reader))
     else (Inr None, r'))"
  using assms
  by (cases r) (simp add: receive_def Let_def take_consumed empty_reader_def split: sum.split)

lemma receive_fails:
  "receive S (ReadFails e) r = (res, r') \<Longrightarrow> r' = r"
  "retryable e \<Longrightarrow> target r = Inr t \<Longrightarrow> receive S (ReadFails e) r = (Inr None, r)"
  by (auto simp: receive_def split: sum.splits if_splits)

lemma receive_no_target: "target r = Inl e \<Longrightarrow> receive S sys r = (Inl e, r)"
  by (simp add: receive_def)

lemma extended_inv:
  assumes "reader_inv r" "target r = Inr t"
  shows "reader_inv (r\<lparr>rbytes := rbytes r @ take (consumed (Ready bs) r) bs\<rparr>)"
proof -
  have c: "length (take (consumed (Ready bs) r) bs) \<le> t - length (rbytes r)"
    by (simp add: take_consumed [OF assms(2)] want_def)
  show ?thesis
    using assms(2)
  proof (cases rule: target_cases)
    case 1
    with c have "length (rbytes r) + length (take (consumed (Ready bs) r) bs) \<le> 4" by arith
    then show ?thesis by (simp add: reader_inv_def del: length_take)
  next
    case 2
    then have "length (rbytes r) \<le> frame_length (rbytes r) + 4"
      using assms(1) by (auto simp: reader_inv_def Let_def)
    with 2 c have "length (rbytes r) + length (take (consumed (Ready bs) r) bs)
        \<le> frame_length (rbytes r) + 4"
      by arith
    with 2 show ?thesis
      by (simp add: reader_inv_def Let_def frame_length_append del: length_take)
  qed
qed

lemma receive_inv:
  assumes "reader_inv r" "receive S sys r = (res, r')"
  shows "reader_inv r'"
proof (cases "target r")
  case (Inl e)
  then show ?thesis using assms by (simp add: receive_no_target)
next
  case (Inr t)
  show ?thesis
  proof (cases sys)
    case (Ready bs)
    then show ?thesis
      using assms extended_inv [OF assms(1) Inr, of bs]
      by (auto simp: receive_Ready [OF Inr] Let_def split: if_splits sum.splits)
  next
    case (ReadFails e)
    then show ?thesis using assms by (auto dest: receive_fails)
  qed
qed

lemma receive_more:
  assumes "receive S (Ready bs) r = (Inr None, r')"
  shows "rbytes r' = rbytes r @ take (consumed (Ready bs) r) bs"
    and "take (consumed (Ready bs) r) bs \<noteq> []"
proof -
  obtain t where t: "target r = Inr t"
    using assms by (cases "target r") (auto simp: receive_no_target)
  from assms show "rbytes r' = rbytes r @ take (consumed (Ready bs) r) bs"
    and "take (consumed (Ready bs) r) bs \<noteq> []"
    by (auto simp: receive_Ready [OF t] Let_def split: if_splits sum.splits)
qed

lemma receive_whole:
  assumes "receive S (Ready bs) r = (Inr (Some v), r')"
  shows "r' = empty_reader"
    and "read_frame S (rbytes r @ take (consumed (Ready bs) r) bs @ rest) = (Inr v, rest)"
proof -
  obtain t where t: "target r = Inr t"
    using assms by (cases "target r") (auto simp: receive_no_target)
  define all where "all = rbytes r @ take (consumed (Ready bs) r) bs"
  have c: "t > 4" "length all = t" "from_slice S (drop 4 all) = Inr v" and "r' = empty_reader"
    using assms
    by (auto simp: receive_Ready [OF t] Let_def all_def split: if_splits sum.splits)
  then show "r' = empty_reader" by simp
  from t c(1) have r: "4 \<le> length (rbytes r)" "0 < frame_length (rbytes r)"
    "frame_length (rbytes r) \<le> MAX_FRAME" "t = frame_length (rbytes r) + 4"
    by (auto elim!: target_cases)
  have "take 4 all = take 4 (rbytes r)" using r(1) by (simp add: all_def)
  then have h: "unat (from_be_bytes (take 4 all)) = frame_length (rbytes r)"
    by (simp add: frame_length_def)
  have "read_frame S (all @ rest) = (Inr v, rest)"
    using c r h by (simp add: read_frame_def read_exact_def)
  then show "read_frame S (rbytes r @ take (consumed (Ready bs) r) bs @ rest) = (Inr v, rest)"
    by (simp add: all_def)
qed

text \<open>
  \<open>pull\<close> is the polling loop around \<open>receive\<close>: entry \<open>k\<close> of the schedule is how many bytes of the
  stream the kernel has ready at that poll, none meaning that the read would block. The result
  names the value, what is left of the stream, and the reader.
\<close>

definition would_block :: io_error where
  "would_block = IoError WouldBlock ''Resource temporarily unavailable''"

definition ready_bytes :: "nat \<Rightarrow> bytes \<Rightarrow> sysread" where
  "ready_bytes k stream = (if k = 0 then ReadFails would_block else Ready (take k stream))"

fun pull :: "(sysread \<Rightarrow> 'r \<Rightarrow> (io_error + json option) \<times> 'r) \<Rightarrow> (sysread \<Rightarrow> 'r \<Rightarrow> nat) \<Rightarrow>
    nat list \<Rightarrow> bytes \<Rightarrow> 'r \<Rightarrow> (io_error + json option) \<times> bytes \<times> 'r" where
  "pull step used [] stream r = (Inr None, stream, r)"
| "pull step used (k # ks) stream r =
     (let sys = ready_bytes k stream; rest = drop (used sys r) stream in
      case step sys r of
        (Inr None, r') \<Rightarrow> pull step used ks rest r'
      | (res, r') \<Rightarrow> (res, rest, r'))"

locale frame_reader =
  fixes step :: "sysread \<Rightarrow> 'r \<Rightarrow> (io_error + json option) \<times> 'r"
    and used :: "sysread \<Rightarrow> 'r \<Rightarrow> nat"
    and held :: "'r \<Rightarrow> bytes"
    and decode :: "bytes \<Rightarrow> (io_error + json) \<times> bytes"
  assumes used_le: "used (Ready bs) r \<le> length bs"
    and used_fails: "used (ReadFails e) r = 0"
    and step_more: "step (Ready bs) r = (Inr None, r') \<Longrightarrow> held r' = held r @ take (used (Ready bs) r) bs"
    and step_whole: "step (Ready bs) r = (Inr (Some v), r') \<Longrightarrow>
      held r' = [] \<and> decode (held r @ take (used (Ready bs) r) bs @ rest) = (Inr v, rest)"
    and step_fails: "step (ReadFails e) r = (res, r') \<Longrightarrow> r' = r \<and> (\<forall>v. res \<noteq> Inr (Some v))"
begin

lemma used_prefix: "take (used (Ready (take k xs)) r) (take k xs) = take (used (Ready (take k xs)) r) xs"
proof -
  have "used (Ready (take k xs)) r \<le> k" using used_le [of "take k xs" r] by simp
  then show ?thesis by (simp add: min_absorb1)
qed

lemma pull_decodes:
  "pull step used ks stream r = (Inr (Some v), rest, r') \<Longrightarrow>
     decode (held r @ stream) = (Inr v, rest) \<and> held r' = []"
proof (induction ks arbitrary: stream r)
  case Nil
  then show ?case by simp
next
  case (Cons k ks)
  let ?sys = "ready_bytes k stream"
  obtain res r1 where s: "step ?sys r = (res, r1)" by force
  show ?case
  proof (cases "k = 0")
    case True
    then have "?sys = ReadFails would_block" by (simp add: ready_bytes_def)
    with s Cons.prems Cons.IH show ?thesis
      by (auto simp: used_fails dest!: step_fails split: sum.splits option.splits)
  next
    case False
    then have sys: "?sys = Ready (take k stream)" by (simp add: ready_bytes_def)
    let ?u = "used ?sys r"
    have split: "take ?u (take k stream) @ drop ?u stream = stream"
      using used_prefix [of k stream r] by (simp add: sys)
    show ?thesis
    proof (cases "res = Inr None")
      case True
      then have "pull step used ks (drop ?u stream) r1 = (Inr (Some v), rest, r')"
        using Cons.prems s by simp
      from Cons.IH [OF this] show ?thesis
        using step_more [of "take k stream" r r1] s True sys split
        by (metis append.assoc)
    next
      case False
      then have r: "res = Inr (Some v)" "rest = drop ?u stream" "r' = r1"
        using Cons.prems s by (auto simp: Let_def split: sum.splits option.splits)
      then show ?thesis
        using step_whole [of "take k stream" r v r1 "drop ?u stream"] s sys split by simp
    qed
  qed
qed

end

lemma consumed_le: "consumed (Ready bs) r \<le> length bs"
  by (simp add: consumed_def split: sum.splits)

interpretation tr: frame_reader "receive S" consumed rbytes "read_frame S" for S
proof unfold_locales
  fix bs r r'
  show "consumed (Ready bs) r \<le> length bs" by (rule consumed_le)
  show "receive S (Ready bs) r = (Inr None, r') \<Longrightarrow>
      rbytes r' = rbytes r @ take (consumed (Ready bs) r) bs"
    by (rule receive_more)
next
  fix e r res r'
  show "consumed (ReadFails e) r = 0" by (simp add: consumed_def split: sum.splits)
  assume "receive S (ReadFails e) r = (res, r')"
  then show "r' = r \<and> (\<forall>v. res \<noteq> Inr (Some v))"
    by (auto simp: receive_def split: sum.splits if_splits)
next
  fix bs r v r' rest
  assume "receive S (Ready bs) r = (Inr (Some v), r')"
  from receive_whole(1) [OF this] receive_whole(2) [OF this, of rest]
  show "rbytes r' = [] \<and> read_frame S (rbytes r @ take (consumed (Ready bs) r) bs @ rest) = (Inr v, rest)"
    by (simp add: empty_reader_def)
qed


text \<open>A frame that is on its way is taken in without error, at least one byte per ready poll.\<close>

lemma frame_target:
  assumes "frameable S v" "codec_ok S v" "rbytes r @ stream = frame S v @ rest"
    "length (rbytes r) < length (frame S v)"
  shows "target r = Inr (if length (rbytes r) < 4 then 4 else length (frame S v))"
    and "4 < length (frame S v)"
proof -
  obtain data where d: "to_vec S v = Inr data" "data \<noteq> []" "length data \<le> MAX_FRAME"
    using assms(1,2) by (auto simp: frameable_def codec_ok_def split: sum.splits)
  have f: "frame S v = to_be_bytes (of_nat (length data)) @ data" using d by (simp add: frame_def)
  then show "4 < length (frame S v)" using d by simp
  show "target r = Inr (if length (rbytes r) < 4 then 4 else length (frame S v))"
  proof (cases "length (rbytes r) < 4")
    case False
    then have "take 4 (rbytes r) = take 4 (rbytes r @ stream)" by simp
    also have "\<dots> = to_be_bytes (of_nat (length data))" unfolding assms(3) f by simp
    finally have "frame_length (rbytes r) = length data"
      using frame_header_size [OF d(3)] by (simp add: frame_length_def del: from_to_be_bytes)
    then show ?thesis using False d f by (simp add: target_def)
  qed (simp add: target_def)
qed

lemma receive_frame_step:
  assumes fr: "frameable S v" and ok: "codec_ok S v"
    and stream: "rbytes r @ stream = frame S v @ rest"
    and short: "length (rbytes r) < length (frame S v)" and "0 < k"
  defines "sys \<equiv> ready_bytes k stream"
  shows "(\<exists>r'. receive S sys r = (Inr None, r')
      \<and> rbytes r' @ drop (consumed sys r) stream = frame S v @ rest
      \<and> length (rbytes r) < length (rbytes r') \<and> length (rbytes r') < length (frame S v))
    \<or> (receive S sys r = (Inr (Some v), empty_reader) \<and> drop (consumed sys r) stream = rest)"
proof -
  let ?F = "length (frame S v)"
  obtain t where t: "target r = Inr t" "t = (if length (rbytes r) < 4 then 4 else ?F)" and "4 < ?F"
    using frame_target [OF fr ok stream short] by blast
  have sys: "sys = Ready (take k stream)" using \<open>0 < k\<close> by (simp add: sys_def ready_bytes_def)
  let ?c = "consumed sys r"
  define chunk where "chunk = take ?c (take k stream)"
  have chunk: "chunk = take ?c stream"
    using tr.used_prefix [of k stream r] by (simp add: chunk_def sys)
  have len: "length chunk = min (min (length stream) k) (want r t)"
    by (simp add: chunk_def sys consumed_def t(1))
  have "stream \<noteq> []" using short stream
    by (metis append.right_neutral length_append linorder_not_less trans_le_add1 order_refl)
  moreover have "0 < want r t" using t(2) short by (auto simp: want_def CHUNK_def)
  ultimately have "0 < length chunk" using len \<open>0 < k\<close> by (simp add: min_def)
  then have "chunk \<noteq> []" by simp
  have all: "(rbytes r @ chunk) @ drop ?c stream = frame S v @ rest"
    using stream by (simp add: chunk)
  have rcv: "receive S sys r =
    (let r' = r\<lparr>rbytes := rbytes r @ chunk\<rparr> in
     if chunk = [] then (Inl disconnected, r)
     else if t > 4 \<and> length (rbytes r') = t
     then (case from_slice S (drop 4 (rbytes r')) of
             Inl e \<Rightarrow> (Inl (io_of_json_error e), r')
           | Inr v \<Rightarrow> (Inr (Some v), empty_reader))
     else (Inr None, r'))"
    by (simp only: sys receive_Ready [OF t(1)] chunk_def Let_def)
  have le: "length (rbytes r @ chunk) \<le> t"
    using len t(2) short by (auto simp: want_def)
  show ?thesis
  proof (cases "t > 4 \<and> length (rbytes r @ chunk) = t")
    case True
    then have "length (rbytes r @ chunk) = ?F" using t(2) by (simp split: if_splits)
    then have eq: "rbytes r @ chunk = frame S v" "drop ?c stream = rest"
      using all append_eq_append_conv by blast+
    obtain data where "to_vec S v = Inr data" "from_slice S data = Inr v"
      using ok by (auto simp: codec_ok_def split: sum.splits)
    then have "from_slice S (drop 4 (rbytes r @ chunk)) = Inr v"
      by (simp add: eq frame_def)
    then have "receive S sys r = (Inr (Some v), empty_reader)"
      using True \<open>chunk \<noteq> []\<close> by (simp add: rcv Let_def del: drop_append)
    with eq show ?thesis by simp
  next
    case False
    then have "length (rbytes r @ chunk) < ?F" using le t(2) \<open>4 < ?F\<close> by (auto split: if_splits)
    moreover have "receive S sys r = (Inr None, r\<lparr>rbytes := rbytes r @ chunk\<rparr>)"
      using False \<open>chunk \<noteq> []\<close> by (auto simp: rcv Let_def)
    ultimately show ?thesis using all \<open>chunk \<noteq> []\<close> by simp
  qed
qed

lemma pull_frame:
  assumes fr: "frameable S v" and ok: "codec_ok S v"
  shows "rbytes r @ stream = frame S v @ rest \<Longrightarrow> length (rbytes r) < length (frame S v) \<Longrightarrow>
    length (frame S v) \<le> length (rbytes r) + length (filter ((<) 0) ks) \<Longrightarrow>
    pull (receive S) consumed ks stream r = (Inr (Some v), rest, empty_reader)"
proof (induction ks arbitrary: r stream)
  case Nil
  then show ?case by simp
next
  case (Cons k ks)
  let ?sys = "ready_bytes k stream"
  show ?case
  proof (cases "k = 0")
    case True
    obtain t where t: "target r = Inr t" using frame_target(1) [OF fr ok Cons.prems(1,2)] by blast
    have "retryable would_block" by (simp add: retryable_def would_block_def)
    with True t have "receive S ?sys r = (Inr None, r)" "consumed ?sys r = 0"
      by (simp_all add: ready_bytes_def receive_fails(2) consumed_def)
    then show ?thesis using Cons True by simp
  next
    case False
    then have "0 < k" by simp
    from receive_frame_step [OF fr ok Cons.prems(1,2) this] show ?thesis
    proof (elim disjE exE conjE)
      fix r'
      assume "receive S ?sys r = (Inr None, r')"
        and r': "rbytes r' @ drop (consumed ?sys r) stream = frame S v @ rest"
        "length (rbytes r) < length (rbytes r')" "length (rbytes r') < length (frame S v)"
      moreover have "length (frame S v) \<le> length (rbytes r') + length (filter ((<) 0) ks)"
        using Cons.prems(3) r'(2) \<open>0 < k\<close> by simp
      ultimately show ?thesis using Cons.IH [OF r'(1)] by simp
    qed simp
  qed
qed


section \<open>Properties\<close>

text \<open>
  C16: the incremental reader refines \<open>read_frame\<close>. Whatever amounts the kernel hands out at each
  poll, the value the reader returns is the one the blocking reader decodes from the whole stream,
  what is left of the stream is the same (nothing is read ahead into the next frame), and the
  reader is empty again.
\<close>
theorem receive_refines_read_frame:
  assumes "pull (receive S) consumed ks stream empty_reader = (Inr (Some v), rest, r)"
  shows "read_frame S stream = (Inr v, rest) \<and> rbytes r = []"
  using tr.pull_decodes [OF assms] by (simp add: empty_reader_def)

text \<open>
  The incremental reader gets every frame. A frame followed by anything is returned, with the
  rest untouched, once as many polls had bytes ready as the frame is long, however the polls that
  would block are mixed in.
\<close>
theorem receive_completes_frame:
  assumes "frameable S v" "codec_ok S v" "length (frame S v) \<le> length (filter ((<) 0) ks)"
  shows "pull (receive S) consumed ks (frame S v @ rest) empty_reader
    = (Inr (Some v), rest, empty_reader)"
  using assms length_frame_ge [of S v] pull_frame [OF assms(1,2), of empty_reader "frame S v @ rest" rest ks]
  by (cases "frame S v = []") (simp_all add: empty_reader_def)

definition witness_codec :: serde where
  "witness_codec = \<lparr>to_vec = (\<lambda>_. Inr [110]), from_slice = (\<lambda>_. Inr Null)\<rparr>"

lemma witness_codec_simps:
  "frameable witness_codec v" "codec_ok witness_codec Null" "frame witness_codec v = [0, 0, 0, 1, 110]"
  by (simp_all add: witness_codec_def frameable_def codec_ok_def frame_def MAX_FRAME_def to_be_bytes_def)

theorem receive_completes_frame_witness:
  "pull (receive witness_codec) consumed [2, 0, 1, 0, 3, 1, 1] ([0, 0, 0, 1, 110] @ [9]) empty_reader
     = (Inr (Some Null), [9], empty_reader)"
  using receive_completes_frame [of witness_codec Null "[2, 0, 1, 0, 3, 1, 1]" "[9]"]
  by (simp add: witness_codec_simps)

theorem receive_refines_read_frame_witness:
  "read_frame witness_codec [0, 0, 0, 1, 110, 9] = (Inr Null, [9])"
proof -
  have "pull (receive witness_codec) consumed [2, 3, 3] [0, 0, 0, 1, 110, 9] empty_reader
      = (Inr (Some Null), [9], empty_reader)"
    by (simp add: ready_bytes_def receive_def target_def want_def consumed_def empty_reader_def
        CHUNK_def MAX_FRAME_def frame_length_def witness_codec_def Let_def)
  from receive_refines_read_frame [OF this] show ?thesis by simp
qed

text \<open>
  The writer is a faithful queue. For any client that queues values and sends in any order,
  with any outcome of each system call, the bytes on the wire followed by those still queued are
  the frames of exactly the values it accepted, in order.
\<close>
theorem writer_conserves_frames:
  assumes "drive (enqueue S) send ops empty_writer = (wire, accepted, w)"
  shows "wire @ backlog w = concat (map (frame S) accepted)"
  using tw.drive_conserves [OF assms] by simp

theorem writer_conserves_frames_witness:
  "\<exists>wire accepted w. drive (enqueue witness_codec) send [Put Null, Push (Takes 3), Put Null, Push (Takes 9)]
       empty_writer = (wire, accepted, w)
     \<and> accepted = [Null] \<and> wire @ backlog w = [0, 0, 0, 1, 110]"
proof -
  obtain wire w where d: "drive (enqueue witness_codec) send
      [Put Null, Push (Takes 3), Put Null, Push (Takes 9)] empty_writer = (wire, [Null], w)"
    by (simp add: enqueue_cases send_def pending_def empty_writer_def witness_codec_simps CHUNK_def
        Let_def)
  from writer_conserves_frames [OF d] d show ?thesis by (simp add: witness_codec_simps)
qed

text \<open>
  Sending makes progress. As long as each call takes at least one byte, at most as many calls
  as there are bytes queued empty the queue, and they put exactly those bytes on the wire.
\<close>
theorem drain_terminates:
  assumes "list_all takes_some events" "length (backlog w) \<le> length events"
  shows "\<exists>w'. drain events w = (Inr (), backlog w, w') \<and> \<not> pending w'"
  using drain_progress [OF assms] by (auto simp: pending_backlog)

theorem drain_terminates_witness:
  "\<exists>w'. drain [Takes 2, Takes 1, Takes 7] \<lparr>wbytes = [1, 2, 3], woffset = 0\<rparr> = (Inr (), [1, 2, 3], w')
     \<and> \<not> pending w'"
  using drain_terminates [of "[Takes 2, Takes 1, Takes 7]" "\<lparr>wbytes = [1, 2, 3], woffset = 0\<rparr>"]
  by (simp add: backlog_def)

end
