(* ===== verification/Supervisor.thy ===== *)
theory Supervisor
  imports Transport
begin

text \<open>
  \<open>src/supervisor.rs\<close>: the loop that owns one guest process. One turn of the loop is \<open>iterate\<close>, a
  composition of the stages the source runs in order; the outside world of a turn is a value of
  \<open>env\<close> (clock, resident size, what each descriptor does, the child's exit status), so a run of
  the loop is a list of them. \<open>failure\<close> is the diagnostic frame of \<open>src/main.rs\<close>.
\<close>

section \<open>State and outside world\<close>

definition failure :: "string \<Rightarrow> string \<Rightarrow> string \<Rightarrow> json" where
  "failure execution kind message = object
     [(''protocol'', String PROTOCOL), (''execution_id'', String execution),
      (''kind'', String ''completed''), (''result'', Null),
      (''error'', object [(''type'', String kind), (''message'', String message)])]"

datatype signal = SIGPROF | SIGXCPU | SIGALRM | OtherSignal
datatype exit_status = ExitCode int | KilledBy signal

record env =
  expired :: bool \<comment> \<open>\<open>Instant::now() >= deadline\<close>\<close>
  resident :: "u64 option"
  host_in :: sysread
  guest_in :: syswrite
  host_out :: syswrite
  guest_out :: sysread
  exited :: "io_error + exit_status option"
  polled :: "io_error option"

text \<open>
  The locals of \<open>run\<close>, with the effects on the outside: \<open>killed\<close> and \<open>reaped\<close> for the child, the
  bytes descriptors 1 and the guest's standard input have taken, and the history of the values
  queued for either side, which no code reads.
\<close>

datatype happening = ToHost json | ToGuest json

record sup =
  host :: reader
  guest :: reader
  to_guest :: writer
  to_host :: writer
  completed :: bool
  guest_closed :: bool
  pending_sequence :: "u64 option"
  sequence :: u64
  killed :: bool
  reaped :: bool
  host_wire :: bytes
  guest_wire :: bytes
  history :: "happening list"

definition init_sup :: sup where
  "init_sup =
     \<lparr>host = empty_reader, guest = empty_reader, to_guest = empty_writer, to_host = empty_writer,
      completed = False, guest_closed = False, pending_sequence = None, sequence = 0,
      killed = False, reaped = False, host_wire = [], guest_wire = [], history = []\<rparr>"

text \<open>A stage goes on to the next one, returns from the loop, or fails (Rust's \<open>?\<close>).\<close>

datatype flow = Next sup | Returned sup | Failed io_error sup

fun flow_then :: "flow \<Rightarrow> (sup \<Rightarrow> flow) \<Rightarrow> flow" where
  "flow_then (Next s) f = f s"
| "flow_then (Returned s) f = Returned s"
| "flow_then (Failed e s) f = Failed e s"

fun attempt :: "(io_error + unit) \<times> sup \<Rightarrow> (sup \<Rightarrow> flow) \<Rightarrow> flow" where
  "attempt (Inl e, s) f = Failed e s"
| "attempt (Inr _, s) f = f s"

section \<open>Queueing and sending\<close>

definition host_enqueue :: "serde \<Rightarrow> json \<Rightarrow> sup \<Rightarrow> (io_error + unit) \<times> sup" where
  "host_enqueue S v s =
     (case enqueue S v (to_host s) of
        (Inl e, w) \<Rightarrow> (Inl e, s\<lparr>to_host := w\<rparr>)
      | (Inr _, w) \<Rightarrow> (Inr (), s\<lparr>to_host := w, history := history s @ [ToHost v]\<rparr>))"

definition guest_enqueue :: "serde \<Rightarrow> json \<Rightarrow> sup \<Rightarrow> (io_error + unit) \<times> sup" where
  "guest_enqueue S v s =
     (case enqueue S v (to_guest s) of
        (Inl e, w) \<Rightarrow> (Inl e, s\<lparr>to_guest := w\<rparr>)
      | (Inr _, w) \<Rightarrow> (Inr (), s\<lparr>to_guest := w, history := history s @ [ToGuest v]\<rparr>))"

definition host_send :: "env \<Rightarrow> sup \<Rightarrow> (io_error + unit) \<times> sup" where
  "host_send e s =
     (case send (host_out e) (to_host s) of
        (res, out, w) \<Rightarrow> (res, s\<lparr>to_host := w, host_wire := host_wire s @ out\<rparr>))"

definition guest_send :: "env \<Rightarrow> sup \<Rightarrow> (io_error + unit) \<times> sup" where
  "guest_send e s =
     (case send (guest_in e) (to_guest s) of
        (res, out, w) \<Rightarrow> (res, s\<lparr>to_guest := w, guest_wire := guest_wire s @ out\<rparr>))"

section \<open>The stages of one turn\<close>

definition other_error :: "string \<Rightarrow> io_error" where
  "other_error t = IoError OtherKind t"

definition kill :: "sup \<Rightarrow> sup" where
  "kill s = s\<lparr>killed := True\<rparr>"

definition check_deadline :: "serde \<Rightarrow> request \<Rightarrow> env \<Rightarrow> sup \<Rightarrow> flow" where
  "check_deadline S req e s =
     (if expired e then
        (let s = kill s in
         if \<not> pending (to_host s) then
           attempt (host_enqueue S (failure (execution_id req) ''wall_timeout''
             ''Execution deadline exceeded; dispatched host effects may already have occurred'') s)
             (\<lambda>s. attempt (host_send e s) Returned)
         else Returned s)
      else Next s)"

definition check_memory :: "serde \<Rightarrow> request \<Rightarrow> env \<Rightarrow> sup \<Rightarrow> flow" where
  "check_memory S req e s =
     (if \<not> completed s \<and> (case resident e of None \<Rightarrow> False | Some n \<Rightarrow> n > 256 * 1024 * 1024) then
        (let s = kill s in
         if \<not> pending (to_host s) then
           attempt (host_enqueue S (failure (execution_id req) ''memory_limit''
             ''Guest process memory ceiling exceeded'') s)
             (\<lambda>s. Next (s\<lparr>completed := True\<rparr>))
         else Failed (other_error ''Guest memory ceiling exceeded during output'') s)
      else Next s)"

definition identified :: "request \<Rightarrow> json \<Rightarrow> bool" where
  "identified req v \<longleftrightarrow> member v ''protocol'' = String PROTOCOL
     \<and> member v ''execution_id'' = String (execution_id req)"

definition host_reply :: "serde \<Rightarrow> request \<Rightarrow> json \<Rightarrow> sup \<Rightarrow> flow" where
  "host_reply S req reply s =
     (if \<not> identified req reply then Failed (other_error ''Host identity mismatch'') s
      else if member reply ''kind'' = String ''cancel'' then
        Failed (other_error ''Execution cancelled; inspect dispatched effects'') s
      else if member reply ''kind'' \<noteq> String ''reply'' \<or> pending_sequence s = None then
        Failed (other_error ''Unexpected host reply'') s
      else if as_u64 (member reply ''sequence'') \<noteq> pending_sequence s then
        Failed (other_error ''Unexpected host reply'') (s\<lparr>pending_sequence := None\<rparr>)
      else attempt (guest_enqueue S reply (s\<lparr>pending_sequence := None\<rparr>)) Next)"

definition host_input :: "serde \<Rightarrow> request \<Rightarrow> env \<Rightarrow> sup \<Rightarrow> flow" where
  "host_input S req e s =
     (case receive S (host_in e) (host s) of
        (Inl er, r) \<Rightarrow> Failed er (s\<lparr>host := r\<rparr>)
      | (Inr None, r) \<Rightarrow> Next (s\<lparr>host := r\<rparr>)
      | (Inr (Some reply), r) \<Rightarrow> host_reply S req reply (s\<lparr>host := r\<rparr>))"

definition send_both :: "env \<Rightarrow> sup \<Rightarrow> flow" where
  "send_both e s =
     attempt (guest_send e s) (\<lambda>s.
     attempt (host_send e s) (\<lambda>s.
       if completed s \<and> \<not> pending (to_host s) then Returned s else Next s))"

definition guest_call :: "serde \<Rightarrow> request \<Rightarrow> json \<Rightarrow> sup \<Rightarrow> flow" where
  "guest_call S req event s =
     (let s = s\<lparr>sequence := sequence s + 1\<rparr> in
      if validate_only req
         \<or> pending_sequence s \<noteq> None
         \<or> as_u64 (member event ''sequence'') \<noteq> Some (sequence s)
         \<or> sequence s > calls (req_limits req)
         \<or> \<not> (case as_str (member event ''path'') of
                None \<Rightarrow> False | Some path \<Rightarrow> list_ex (\<lambda>allowed. allowed = path) (catalog req))
      then Failed (other_error ''Invalid guest capability request'') s
      else attempt (host_enqueue S event (s\<lparr>pending_sequence := Some (sequence s)\<rparr>)) Next)"

definition guest_event :: "serde \<Rightarrow> request \<Rightarrow> json \<Rightarrow> sup \<Rightarrow> flow" where
  "guest_event S req event s =
     (if \<not> identified req event then Failed (other_error ''Guest identity mismatch'') s
      else if as_str (member event ''kind'') = Some ''completed'' then
        attempt (host_enqueue S event (s\<lparr>completed := True\<rparr>)) Next
      else if as_str (member event ''kind'') = Some ''log'' then
        attempt (host_enqueue S event s) Next
      else if as_str (member event ''kind'') = Some ''call'' then guest_call S req event s
      else Failed (other_error ''Unknown guest event'') s)"

definition guest_input :: "serde \<Rightarrow> request \<Rightarrow> env \<Rightarrow> sup \<Rightarrow> flow" where
  "guest_input S req e s =
     (if \<not> completed s \<and> \<not> pending (to_host s) \<and> \<not> guest_closed s then
        (case receive S (guest_out e) (guest s) of
           (Inr (Some event), r) \<Rightarrow> guest_event S req event (s\<lparr>guest := r\<rparr>)
         | (Inr None, r) \<Rightarrow> Next (s\<lparr>guest := r\<rparr>)
         | (Inl er, r) \<Rightarrow>
             if error_kind er = UnexpectedEof then Next (s\<lparr>guest := r, guest_closed := True\<rparr>)
             else Failed er (s\<lparr>guest := r\<rparr>))
      else Next s)"

fun exit_report :: "exit_status \<Rightarrow> string \<times> string" where
  "exit_report (ExitCode c) =
     (if c = 124 then (''instruction_limit'', ''Ruby instruction budget exceeded'')
      else if c = 125 then (''memory_limit'', ''Ruby allocation budget exceeded'')
      else (''guest_terminated'',
        ''Guest terminated without a result; inspect dispatched effects before retrying''))"
| "exit_report (KilledBy g) =
     (if g = SIGPROF \<or> g = SIGXCPU then (''cpu_limit'', ''Ruby CPU budget exceeded'')
      else if g = SIGALRM then (''wall_timeout'',
        ''Ruby wall deadline exceeded; inspect dispatched effects before retrying'')
      else (''guest_terminated'',
        ''Guest terminated without a result; inspect dispatched effects before retrying''))"

definition guest_exit :: "serde \<Rightarrow> request \<Rightarrow> env \<Rightarrow> sup \<Rightarrow> flow" where
  "guest_exit S req e s =
     (if guest_closed s \<and> \<not> completed s then
        (case exited e of
           Inl er \<Rightarrow> Failed er s
         | Inr None \<Rightarrow> Next s
         | Inr (Some status) \<Rightarrow>
             (case exit_report status of (kind, message) \<Rightarrow>
                attempt (host_enqueue S (failure (execution_id req) kind message) s)
                  (\<lambda>s. Next (s\<lparr>completed := True\<rparr>))))
      else Next s)"

text \<open>\<open>transport::poll\<close> waits for the interesting descriptors; an interrupted wait is a success.\<close>

datatype descriptor = HostInput | GuestInput | HostOutput | GuestOutput

definition poll_set :: "sup \<Rightarrow> descriptor list" where
  "poll_set s =
     [HostInput]
     @ (if pending (to_guest s) then [GuestInput] else [])
     @ (if pending (to_host s) then [HostOutput] else [])
     @ (if \<not> completed s \<and> \<not> guest_closed s \<and> \<not> pending (to_host s) then [GuestOutput] else [])"

definition poll :: "env \<Rightarrow> sup \<Rightarrow> flow" where
  "poll e s =
     (case polled e of
        None \<Rightarrow> Next s
      | Some er \<Rightarrow> if error_kind er \<noteq> Interrupted then Failed er s else Next s)"

section \<open>The loop and the run\<close>

definition iterate :: "serde \<Rightarrow> request \<Rightarrow> env \<Rightarrow> sup \<Rightarrow> flow" where
  "iterate S req e s =
     flow_then (check_deadline S req e s) (\<lambda>s.
     flow_then (check_memory S req e s) (\<lambda>s.
     flow_then (host_input S req e s) (\<lambda>s.
     flow_then (send_both e s) (\<lambda>s.
     flow_then (guest_input S req e s) (\<lambda>s.
     flow_then (guest_exit S req e s) (\<lambda>s.
     poll e s))))))"

fun run_loop :: "serde \<Rightarrow> request \<Rightarrow> env list \<Rightarrow> sup \<Rightarrow> flow" where
  "run_loop S req [] s = Next s"
| "run_loop S req (e # es) s = flow_then (iterate S req e s) (run_loop S req es)"

text \<open>
  \<open>run\<close>: admission, spawning the guest, queueing the request, the loop, and the kill and the wait
  that follow it on every path. A run whose list of turns ends before the loop does is still
  \<open>Next\<close>.
\<close>

datatype run_error = Rejected request_error | NotSpawned io_error | LoopFailed io_error

fun finish :: "flow \<Rightarrow> (run_error + unit) option \<times> sup" where
  "finish (Next s) = (None, s)"
| "finish (Returned s) = (Some (Inr ()), s\<lparr>killed := True, reaped := True\<rparr>)"
| "finish (Failed e s) = (Some (Inl (LoopFailed e)), s\<lparr>killed := True, reaped := True\<rparr>)"

definition run :: "serde \<Rightarrow> request \<Rightarrow> io_error + unit \<Rightarrow> io_error + unit \<Rightarrow> env list \<Rightarrow>
    (run_error + unit) option \<times> sup" where
  "run S req spawned nonblocking es =
     (case validate req of
        Inl e \<Rightarrow> (Some (Inl (Rejected e)), init_sup)
      | Inr _ \<Rightarrow>
          (case spawned of
             Inl e \<Rightarrow> (Some (Inl (NotSpawned e)), init_sup)
           | Inr _ \<Rightarrow>
               finish (attempt (nonblocking, init_sup) (\<lambda>s.
                 attempt (guest_enqueue S (request_value req) s) (run_loop S req es)))))"

section \<open>The conversation the supervisor guarantees\<close>

text \<open>
  The specification of what is queued for the two sides, as an automaton over the history. A
  state is the number of capability calls so far, whether one is unanswered, and whether the
  terminal frame has been queued.
\<close>

datatype conversation = Fresh | Talking nat bool bool | Violated

definition call_allowed :: "request \<Rightarrow> nat \<Rightarrow> json \<Rightarrow> bool" where
  "call_allowed req n v \<longleftrightarrow> \<not> validate_only req \<and> n \<le> unat (calls (req_limits req))
     \<and> as_u64 (member v ''sequence'') = Some (of_nat n)
     \<and> (\<exists>path \<in> set (catalog req). member v ''path'' = String path)"

fun converse :: "request \<Rightarrow> conversation \<Rightarrow> happening \<Rightarrow> conversation" where
  "converse req Fresh (ToGuest v) =
     (if v = request_value req then Talking 0 False False else Violated)"
| "converse req (Talking n waiting closed) (ToHost v) =
     (if closed \<or> \<not> identified req v then Violated
      else if member v ''kind'' = String ''completed'' then Talking n waiting True
      else if member v ''kind'' = String ''log'' then Talking n waiting False
      else if member v ''kind'' = String ''call'' \<and> \<not> waiting \<and> call_allowed req (Suc n) v
        then Talking (Suc n) True False
      else Violated)"
| "converse req (Talking n waiting closed) (ToGuest v) =
     (if waiting \<and> identified req v \<and> member v ''kind'' = String ''reply''
         \<and> as_u64 (member v ''sequence'') = Some (of_nat n)
      then Talking n False closed else Violated)"
| "converse req _ _ = Violated"

definition conversation :: "request \<Rightarrow> happening list \<Rightarrow> conversation" where
  "conversation req h = foldl (converse req) Fresh h"

lemma conversation_snoc [simp]:
  "conversation req (h @ [x]) = converse req (conversation req h) x"
  by (simp add: conversation_def)

fun to_host_values :: "happening list \<Rightarrow> json list" where
  "to_host_values [] = []"
| "to_host_values (ToHost v # h) = v # to_host_values h"
| "to_host_values (ToGuest v # h) = to_host_values h"

fun to_guest_values :: "happening list \<Rightarrow> json list" where
  "to_guest_values [] = []"
| "to_guest_values (ToHost v # h) = to_guest_values h"
| "to_guest_values (ToGuest v # h) = v # to_guest_values h"

lemma to_host_values_append [simp]: "to_host_values (h @ h') = to_host_values h @ to_host_values h'"
  by (induction h rule: to_host_values.induct) auto

lemma to_guest_values_append [simp]:
  "to_guest_values (h @ h') = to_guest_values h @ to_guest_values h'"
  by (induction h rule: to_guest_values.induct) auto

section \<open>Invariants\<close>

text \<open>The two byte streams are whole frames, but for what is still queued.\<close>

definition streams :: "serde \<Rightarrow> sup \<Rightarrow> bool" where
  "streams S s \<longleftrightarrow>
     host_wire s @ backlog (to_host s) = concat (map (frame S) (to_host_values (history s))) \<and>
     guest_wire s @ backlog (to_guest s) = concat (map (frame S) (to_guest_values (history s)))"

definition buffers :: "sup \<Rightarrow> bool" where
  "buffers s \<longleftrightarrow> reader_inv (host s) \<and> reader_inv (guest s) \<and>
     length (backlog (to_host s)) \<le> MAX_FRAME + 4 \<and> length (backlog (to_guest s)) \<le> MAX_FRAME + 4"

text \<open>What holds whenever the loop is between two stages.\<close>

definition sup_inv :: "serde \<Rightarrow> request \<Rightarrow> sup \<Rightarrow> bool" where
  "sup_inv S req s \<longleftrightarrow> streams S s \<and> buffers s \<and>
     (pending_sequence s = None \<or> pending_sequence s = Some (sequence s)) \<and>
     unat (sequence s) \<le> unat (calls (req_limits req)) \<and>
     conversation req (history s) =
       Talking (unat (sequence s)) (pending_sequence s \<noteq> None) (completed s) \<and>
     (completed s \<longrightarrow> pending (to_host s)) \<and>
     (guest_closed s \<and> \<not> completed s \<longrightarrow> \<not> pending (to_host s))"

text \<open>What is left of it when the loop has ended, in success or failure.\<close>

definition end_inv :: "serde \<Rightarrow> request \<Rightarrow> sup \<Rightarrow> bool" where
  "end_inv S req s \<longleftrightarrow> streams S s \<and> buffers s \<and> conversation req (history s) \<noteq> Violated"

fun flow_inv :: "serde \<Rightarrow> request \<Rightarrow> flow \<Rightarrow> bool" where
  "flow_inv S req (Next s) = sup_inv S req s"
| "flow_inv S req (Returned s) = end_inv S req s"
| "flow_inv S req (Failed e s) = end_inv S req s"

lemma sup_end_inv: "sup_inv S req s \<Longrightarrow> end_inv S req s"
  by (simp add: sup_inv_def end_inv_def)

lemma flow_inv_then:
  "flow_inv S req f \<Longrightarrow> (\<And>s. sup_inv S req s \<Longrightarrow> flow_inv S req (g s)) \<Longrightarrow>
     flow_inv S req (flow_then f g)"
  by (cases f) auto


subsection \<open>Queueing and sending\<close>

lemma host_enqueue_ok:
  assumes "host_enqueue S v s = (Inr u, s')"
  obtains w where "s' = s\<lparr>to_host := w, history := history s @ [ToHost v]\<rparr>"
    "\<not> pending (to_host s)" "pending w" "frameable S v"
  using assms enqueue_ok [of S v "to_host s"]
  by (auto simp: host_enqueue_def pending_backlog split: prod.splits sum.splits)

lemma guest_enqueue_ok:
  assumes "guest_enqueue S v s = (Inr u, s')"
  obtains w where "s' = s\<lparr>to_guest := w, history := history s @ [ToGuest v]\<rparr>"
    "\<not> pending (to_guest s)" "frameable S v"
  using assms enqueue_ok [of S v "to_guest s"]
  by (auto simp: guest_enqueue_def pending_backlog split: prod.splits sum.splits)

lemma host_enqueue_error:
  assumes "host_enqueue S v s = (Inl e, s')"
  obtains w where "s' = s\<lparr>to_host := w\<rparr>" "pending (to_host s) \<or> \<not> frameable S v"
  using assms enqueue_error(2) [of S v "to_host s"]
  by (auto simp: host_enqueue_def split: prod.splits sum.splits)

lemma guest_enqueue_error:
  assumes "guest_enqueue S v s = (Inl e, s')"
  obtains w where "s' = s\<lparr>to_guest := w\<rparr>"
  using assms by (auto simp: guest_enqueue_def split: prod.splits sum.splits)

lemma streams_updates [simp]:
  "streams S (s\<lparr>host := r\<rparr>) = streams S s"
  "streams S (s\<lparr>guest := r\<rparr>) = streams S s"
  "streams S (s\<lparr>completed := b\<rparr>) = streams S s"
  "streams S (s\<lparr>guest_closed := b\<rparr>) = streams S s"
  "streams S (s\<lparr>pending_sequence := p\<rparr>) = streams S s"
  "streams S (s\<lparr>sequence := n\<rparr>) = streams S s"
  "streams S (s\<lparr>killed := b\<rparr>) = streams S s"
  "streams S (s\<lparr>reaped := b\<rparr>) = streams S s"
  by (simp_all add: streams_def)

lemma buffers_updates [simp]:
  "buffers (s\<lparr>completed := b\<rparr>) = buffers s"
  "buffers (s\<lparr>guest_closed := b\<rparr>) = buffers s"
  "buffers (s\<lparr>pending_sequence := p\<rparr>) = buffers s"
  "buffers (s\<lparr>sequence := n\<rparr>) = buffers s"
  "buffers (s\<lparr>killed := b\<rparr>) = buffers s"
  "buffers (s\<lparr>reaped := b\<rparr>) = buffers s"
  by (simp_all add: buffers_def)

lemma host_enqueue_streams:
  assumes st: "streams S s" and bu: "buffers s" and "host_enqueue S v s = (res, s')"
  shows "streams S s' \<and> buffers s'"
proof -
  obtain r w where q: "enqueue S v (to_host s) = (r, w)" by force
  have a: "host_wire s @ backlog (to_host s) =
      concat (map (frame S) (to_host_values (history s)))"
    using st by (simp add: streams_def)
  show ?thesis
  proof (cases r)
    case (Inl e)
    with assms q have "s' = s\<lparr>to_host := w\<rparr>" by (simp add: host_enqueue_def)
    moreover have "backlog w = backlog (to_host s)"
      by (rule enqueue_error(1)) (use q Inl in simp)
    ultimately show ?thesis using st bu by (simp add: streams_def buffers_def)
  next
    case (Inr u)
    then have q': "enqueue S v (to_host s) = (Inr u, w)" using q by simp
    have "s' = s\<lparr>to_host := w, history := history s @ [ToHost v]\<rparr>"
      using assms q' by (simp add: host_enqueue_def)
    moreover have "length (backlog w) \<le> MAX_FRAME + 4"
      using enqueue_ok [of S v "to_host s" w] q' length_frame_le [of S v] by simp
    ultimately show ?thesis
      using tw.stream_put [OF a q'] st bu by (simp add: streams_def buffers_def)
  qed
qed

lemma guest_enqueue_streams:
  assumes st: "streams S s" and bu: "buffers s" and "guest_enqueue S v s = (res, s')"
  shows "streams S s' \<and> buffers s'"
proof -
  obtain r w where q: "enqueue S v (to_guest s) = (r, w)" by force
  have a: "guest_wire s @ backlog (to_guest s) =
      concat (map (frame S) (to_guest_values (history s)))"
    using st by (simp add: streams_def)
  show ?thesis
  proof (cases r)
    case (Inl e)
    with assms q have "s' = s\<lparr>to_guest := w\<rparr>" by (simp add: guest_enqueue_def)
    moreover have "backlog w = backlog (to_guest s)"
      by (rule enqueue_error(1)) (use q Inl in simp)
    ultimately show ?thesis using st bu by (simp add: streams_def buffers_def)
  next
    case (Inr u)
    then have q': "enqueue S v (to_guest s) = (Inr u, w)" using q by simp
    have "s' = s\<lparr>to_guest := w, history := history s @ [ToGuest v]\<rparr>"
      using assms q' by (simp add: guest_enqueue_def)
    moreover have "length (backlog w) \<le> MAX_FRAME + 4"
      using enqueue_ok [of S v "to_guest s" w] q' length_frame_le [of S v] by simp
    ultimately show ?thesis
      using tw.stream_put [OF a q'] st bu by (simp add: streams_def buffers_def)
  qed
qed

lemma host_send_effect:
  assumes "host_send e s = (res, s')"
  obtains w out where "s' = s\<lparr>to_host := w, host_wire := host_wire s @ out\<rparr>"
    "backlog (to_host s) = out @ backlog w"
  using assms send_backlog [of "host_out e" "to_host s"]
  by (auto simp: host_send_def split: prod.splits)

lemma guest_send_effect:
  assumes "guest_send e s = (res, s')"
  obtains w out where "s' = s\<lparr>to_guest := w, guest_wire := guest_wire s @ out\<rparr>"
    "backlog (to_guest s) = out @ backlog w"
  using assms send_backlog [of "guest_in e" "to_guest s"]
  by (auto simp: guest_send_def split: prod.splits)

lemma host_send_streams:
  "streams S s \<Longrightarrow> buffers s \<Longrightarrow> host_send e s = (res, s') \<Longrightarrow> streams S s' \<and> buffers s'"
  by (erule host_send_effect) (auto simp: streams_def buffers_def)

lemma guest_send_streams:
  "streams S s \<Longrightarrow> buffers s \<Longrightarrow> guest_send e s = (res, s') \<Longrightarrow> streams S s' \<and> buffers s'"
  by (erule guest_send_effect) (auto simp: streams_def buffers_def)

lemma attempt_inv:
  assumes "r = (res, s')" "\<And>e. res = Inl e \<Longrightarrow> end_inv S req s'"
    "\<And>u. res = Inr u \<Longrightarrow> flow_inv S req (f s')"
  shows "flow_inv S req (attempt r f)"
  using assms by (cases res) auto

lemma identified_failure [simp]: "identified req (failure (execution_id req) kind message)"
  by (simp add: identified_def failure_def json_simps)

lemma failure_kind [simp]: "member (failure x kind message) ''kind'' = String ''completed''"
  by (simp add: failure_def json_simps)

subsection \<open>Every stage keeps the invariant\<close>

text \<open>Queueing a terminal frame, the step three stages share.\<close>

lemma enqueue_failure_inv:
  assumes "streams S s" "buffers s" and c: "conversation req (history s) = Talking n w False"
    and q: "host_enqueue S (failure (execution_id req) kind message) s = (res, s')"
  shows "end_inv S req s'"
    and "res = Inr u \<Longrightarrow> conversation req (history s') = Talking n w True"
    and "res = Inr u \<Longrightarrow> pending (to_host s')"
proof -
  have st: "streams S s' \<and> buffers s'" using host_enqueue_streams [OF assms(1,2) q] .
  show "end_inv S req s'"
  proof (cases res)
    case (Inl e)
    with q c st show ?thesis by (auto simp: end_inv_def elim: host_enqueue_error)
  next
    case (Inr u)
    with q c st show ?thesis by (auto simp: end_inv_def elim!: host_enqueue_ok)
  qed
  show "conversation req (history s') = Talking n w True" "pending (to_host s')" if "res = Inr u"
    using q c that by (auto elim!: host_enqueue_ok)
qed

lemma check_deadline_inv:
  assumes "sup_inv S req s"
  shows "flow_inv S req (check_deadline S req e s)"
proof (cases "expired e \<and> \<not> pending (to_host s)")
  case True
  let ?f = "failure (execution_id req) ''wall_timeout''
    ''Execution deadline exceeded; dispatched host effects may already have occurred''"
  obtain res s1 where q: "host_enqueue S ?f (kill s) = (res, s1)" by force
  obtain res2 s2 where p: "host_send e s1 = (res2, s2)" by force
  have "conversation req (history (kill s)) =
      Talking (unat (sequence s)) (pending_sequence s \<noteq> None) False"
    and st: "streams S (kill s)" "buffers (kill s)"
    using assms True by (auto simp: sup_inv_def kill_def)
  note ef = enqueue_failure_inv [OF st this(1) q]
  have "end_inv S req s2"
    using ef(1) host_send_streams [OF _ _ p] p
    by (auto simp: end_inv_def elim: host_send_effect)
  then show ?thesis
    using True ef(1) q p
    by (cases res; cases res2) (simp_all add: check_deadline_def Let_def kill_def)
next
  case False
  then show ?thesis
    using assms sup_end_inv [OF assms]
    by (auto simp: check_deadline_def kill_def end_inv_def)
qed

lemma check_memory_inv:
  assumes "sup_inv S req s"
  shows "flow_inv S req (check_memory S req e s)"
proof (cases "\<not> completed s \<and> (case resident e of None \<Rightarrow> False | Some n \<Rightarrow> n > 256 * 1024 * 1024)
    \<and> \<not> pending (to_host s)")
  case True
  let ?f = "failure (execution_id req) ''memory_limit'' ''Guest process memory ceiling exceeded''"
  obtain res s1 where q: "host_enqueue S ?f (kill s) = (res, s1)" by force
  have c: "conversation req (history (kill s)) =
      Talking (unat (sequence s)) (pending_sequence s \<noteq> None) False"
    and st: "streams S (kill s)" "buffers (kill s)"
    using assms True by (auto simp: sup_inv_def kill_def)
  note ef = enqueue_failure_inv [OF st c q]
  have "sup_inv S req (s1\<lparr>completed := True\<rparr>)" if "res = Inr ()"
    using ef that assms q host_enqueue_streams [OF st q]
    by (auto simp: sup_inv_def kill_def elim!: host_enqueue_ok)
  then show ?thesis
    using True ef(1) q by (cases res) (auto simp: check_memory_def Let_def kill_def)
next
  case False
  then show ?thesis
    using assms sup_end_inv [OF assms]
    by (auto simp: check_memory_def kill_def end_inv_def Let_def)
qed


lemma end_invI:
  assumes "streams S s" "buffers s" "conversation req (history s) \<noteq> Violated"
  shows "end_inv S req s"
  using assms by (simp add: end_inv_def)

lemma host_reply_inv:
  assumes inv: "sup_inv S req s"
  shows "flow_inv S req (host_reply S req reply s)"
proof (cases "identified req reply \<and> member reply ''kind'' = String ''reply''
    \<and> pending_sequence s \<noteq> None \<and> as_u64 (member reply ''sequence'') = pending_sequence s")
  case True
  let ?s = "s\<lparr>pending_sequence := None\<rparr>"
  obtain res s1 where q: "guest_enqueue S reply ?s = (res, s1)" by force
  have st: "streams S ?s" "buffers ?s" using inv by (auto simp: sup_inv_def)
  note st1 = guest_enqueue_streams [OF st q]
  have eq: "host_reply S req reply s = attempt (res, s1) Next"
    using True q by (auto simp: host_reply_def)
  show ?thesis
  proof (cases res)
    case (Inl e)
    with q have "history s1 = history s" by (auto elim: guest_enqueue_error)
    with Inl eq st1 inv show ?thesis by (simp add: end_inv_def sup_inv_def)
  next
    case (Inr u)
    with q obtain w where s1: "s1 = ?s\<lparr>to_guest := w, history := history s @ [ToGuest reply]\<rparr>"
      by (auto elim: guest_enqueue_ok)
    have "sup_inv S req s1" using st1 inv True by (auto simp: s1 sup_inv_def)
    with Inr eq show ?thesis by simp
  qed
next
  case False
  then show ?thesis
    using inv by (auto simp: host_reply_def sup_inv_def end_inv_def)
qed

lemma host_input_inv:
  assumes inv: "sup_inv S req s"
  shows "flow_inv S req (host_input S req e s)"
proof -
  obtain res r where q: "receive S (host_in e) (host s) = (res, r)" by force
  have "reader_inv r" using inv q by (auto simp: sup_inv_def buffers_def intro: receive_inv)
  then have inv1: "sup_inv S req (s\<lparr>host := r\<rparr>)"
    using inv by (simp add: sup_inv_def buffers_def)
  then show ?thesis
    using q host_reply_inv [OF inv1] sup_end_inv [OF inv1]
    by (auto simp: host_input_def split: sum.split option.split)
qed

lemma send_both_inv:
  assumes inv: "sup_inv S req s"
  shows "flow_inv S req (send_both e s)"
proof -
  obtain res1 s1 where p1: "guest_send e s = (res1, s1)" by force
  obtain res2 s2 where p2: "host_send e s1 = (res2, s2)" by force
  obtain w out where s1: "s1 = s\<lparr>to_guest := w, guest_wire := guest_wire s @ out\<rparr>"
    using p1 by (rule guest_send_effect)
  obtain w' out' where s2: "s2 = s1\<lparr>to_host := w', host_wire := host_wire s1 @ out'\<rparr>"
    and b: "backlog (to_host s1) = out' @ backlog w'"
    using p2 by (rule host_send_effect)
  have st1: "streams S s1 \<and> buffers s1"
    using inv guest_send_streams [of S s, OF _ _ p1] by (simp add: sup_inv_def)
  then have st2: "streams S s2 \<and> buffers s2" using host_send_streams [OF _ _ p2] by blast
  have c: "conversation req (history s1) \<noteq> Violated" "conversation req (history s2) \<noteq> Violated"
    using inv by (simp_all add: s1 s2 sup_inv_def)
  have ends: "end_inv S req s1" "end_inv S req s2" using st1 st2 c by (simp_all add: end_inv_def)
  have "sup_inv S req s2" if "\<not> (completed s2 \<and> \<not> pending (to_host s2))"
    using that inv st2 b by (auto simp: s1 s2 sup_inv_def pending_backlog)
  then show ?thesis
    using p1 p2 ends by (cases res1; cases res2) (auto simp: send_both_def)
qed

lemma guest_forward_inv:
  assumes st: "streams S s" "buffers s" and c: "conversation req (history s) \<noteq> Violated"
    and fwd: "conversation req (history s @ [ToHost event]) = Talking (unat (sequence s))
      (pending_sequence s \<noteq> None) (completed s)"
    and seq: "pending_sequence s = None \<or> pending_sequence s = Some (sequence s)"
    and "unat (sequence s) \<le> unat (calls (req_limits req))" "\<not> guest_closed s"
  shows "flow_inv S req (attempt (host_enqueue S event s) Next)"
proof -
  obtain res s1 where q: "host_enqueue S event s = (res, s1)" by force
  note st1 = host_enqueue_streams [OF st q]
  show ?thesis
  proof (cases res)
    case (Inl e)
    with q have "history s1 = history s" by (auto elim: host_enqueue_error)
    with Inl q c st1 show ?thesis by (simp add: end_inv_def)
  next
    case (Inr u)
    with q obtain w where s1: "s1 = s\<lparr>to_host := w, history := history s @ [ToHost event]\<rparr>"
      and "pending w" by (auto elim: host_enqueue_ok)
    then have "sup_inv S req s1"
      using st1 fwd seq assms(6,7) by (auto simp: s1 sup_inv_def)
    with Inr q show ?thesis by simp
  qed
qed

lemma call_admitted:
  assumes cap: "calls (req_limits req) \<le> 100"
    and n: "unat n \<le> unat (calls (req_limits req))"
    and "\<not> validate_only req" "as_u64 (member v ''sequence'') = Some (n + 1)"
    and le: "n + 1 \<le> calls (req_limits req)"
    and "as_str (member v ''path'') = Some path" "path \<in> set (catalog req)"
  shows "call_allowed req (Suc (unat n)) v" and "unat (n + 1) = Suc (unat n)"
proof -
  have "unat n < 18446744073709551615" using n cap by (simp add: word_le_nat_alt)
  then show u: "unat (n + 1) = Suc (unat n)"
    by (simp add: unat_word_ariths)
  have "n + 1 = of_nat (Suc (unat n))" by (simp add: add.commute)
  moreover have "Suc (unat n) \<le> unat (calls (req_limits req))"
    using le u by (simp add: word_le_nat_alt)
  moreover have "member v ''path'' = String path"
    using assms(6) by (cases "member v ''path''") auto
  ultimately show "call_allowed req (Suc (unat n)) v"
    using assms by (auto simp: call_allowed_def)
qed


lemma guest_call_inv:
  assumes cap: "calls (req_limits req) \<le> 100" and inv: "sup_inv S req s"
    and idle: "\<not> completed s" "\<not> guest_closed s"
    and event: "identified req event" "member event ''kind'' = String ''call''"
  shows "flow_inv S req (guest_call S req event s)"
proof -
  let ?n = "sequence s"
  have st: "streams S s" "buffers s" and n: "unat ?n \<le> unat (calls (req_limits req))"
    and c: "conversation req (history s) = Talking (unat ?n) (pending_sequence s \<noteq> None) False"
    using inv idle by (simp_all add: sup_inv_def)
  let ?bad = "validate_only req \<or> pending_sequence s \<noteq> None
     \<or> as_u64 (member event ''sequence'') \<noteq> Some (?n + 1) \<or> ?n + 1 > calls (req_limits req)
     \<or> \<not> (case as_str (member event ''path'') of
            None \<Rightarrow> False | Some path \<Rightarrow> list_ex (\<lambda>allowed. allowed = path) (catalog req))"
  show ?thesis
  proof (cases ?bad)
    case True
    have "end_inv S req (s\<lparr>sequence := ?n + 1\<rparr>)"
      using sup_end_inv [OF inv] by (simp add: end_inv_def)
    with True show ?thesis by (simp add: guest_call_def Let_def)
  next
    case False
    then obtain path where "as_str (member event ''path'') = Some path" "path \<in> set (catalog req)"
      by (auto simp: list_ex_iff split: option.splits)
    with False cap n have a: "call_allowed req (Suc (unat ?n)) event" "unat (?n + 1) = Suc (unat ?n)"
      using call_admitted [of req ?n event path] by auto
    let ?s = "s\<lparr>sequence := ?n + 1, pending_sequence := Some (?n + 1)\<rparr>"
    have "unat (?n + 1) \<le> unat (calls (req_limits req))"
      using a by (simp add: call_allowed_def)
    then have "flow_inv S req (attempt (host_enqueue S event ?s) Next)"
      using st c a False idle event by (intro guest_forward_inv) auto
    with False show ?thesis by (simp add: guest_call_def Let_def)
  qed
qed

lemma guest_event_inv:
  assumes cap: "calls (req_limits req) \<le> 100" and inv: "sup_inv S req s"
    and idle: "\<not> completed s" "\<not> guest_closed s"
  shows "flow_inv S req (guest_event S req event s)"
proof -
  have st: "streams S s" "buffers s" and n: "unat (sequence s) \<le> unat (calls (req_limits req))"
    using inv by (simp_all add: sup_inv_def)
  have c: "conversation req (history s) = Talking (unat (sequence s)) (pending_sequence s \<noteq> None) False"
    and seq: "pending_sequence s = None \<or> pending_sequence s = Some (sequence s)"
    using inv idle by (simp_all add: sup_inv_def)
  note ends = sup_end_inv [OF inv]
  consider (stranger) "\<not> identified req event"
    | (terminal) "identified req event" "member event ''kind'' = String ''completed''"
    | (log) "identified req event" "member event ''kind'' = String ''log''"
    | (call) "identified req event" "member event ''kind'' = String ''call''"
    | (odd) "identified req event" "as_str (member event ''kind'') \<noteq> Some ''completed''"
        "as_str (member event ''kind'') \<noteq> Some ''log''"
        "as_str (member event ''kind'') \<noteq> Some ''call''"
    by (cases "member event ''kind''") auto
  then show ?thesis
  proof cases
    case stranger
    then show ?thesis using ends by (simp add: guest_event_def)
  next
    case terminal
    have "flow_inv S req (attempt (host_enqueue S event (s\<lparr>completed := True\<rparr>)) Next)"
      by (rule guest_forward_inv) (use st c seq n terminal idle in simp_all)
    then show ?thesis using terminal by (simp add: guest_event_def)
  next
    case log
    have "flow_inv S req (attempt (host_enqueue S event s) Next)"
      by (rule guest_forward_inv) (use st c seq n log idle in simp_all)
    then show ?thesis using log by (simp add: guest_event_def)
  next
    case call
    then show ?thesis using guest_call_inv [OF cap inv idle call] by (simp add: guest_event_def)
  next
    case odd
    then show ?thesis using ends by (simp add: guest_event_def)
  qed
qed


lemma guest_input_inv:
  assumes cap: "calls (req_limits req) \<le> 100" and inv: "sup_inv S req s"
  shows "flow_inv S req (guest_input S req e s)"
proof (cases "\<not> completed s \<and> \<not> pending (to_host s) \<and> \<not> guest_closed s")
  case True
  obtain res r where q: "receive S (guest_out e) (guest s) = (res, r)" by force
  have "reader_inv r" using inv q by (auto simp: sup_inv_def buffers_def intro: receive_inv)
  then have inv1: "sup_inv S req (s\<lparr>guest := r\<rparr>)"
    using inv by (simp add: sup_inv_def buffers_def)
  then have "sup_inv S req (s\<lparr>guest := r, guest_closed := True\<rparr>)"
    using True by (simp add: sup_inv_def)
  with True show ?thesis
    using q inv1 guest_event_inv [OF cap inv1] sup_end_inv [OF inv1]
    by (auto simp: guest_input_def split: sum.split option.split)
next
  case False
  then show ?thesis using inv by (auto simp: guest_input_def)
qed

lemma guest_exit_inv:
  assumes inv: "sup_inv S req s"
  shows "flow_inv S req (guest_exit S req e s)"
proof (cases "guest_closed s \<and> \<not> completed s")
  case True
  show ?thesis
  proof (cases "exited e")
    case (Inl er)
    with True sup_end_inv [OF inv] show ?thesis by (simp add: guest_exit_def)
  next
    case (Inr st)
    show ?thesis
    proof (cases st)
      case None
      with True Inr inv show ?thesis by (simp add: guest_exit_def)
    next
      case (Some status)
      obtain kind message where r: "exit_report status = (kind, message)" by force
      obtain res s1 where q: "host_enqueue S (failure (execution_id req) kind message) s = (res, s1)"
        by force
      have c: "conversation req (history s) =
          Talking (unat (sequence s)) (pending_sequence s \<noteq> None) False"
        and st: "streams S s" "buffers s"
        using inv True by (auto simp: sup_inv_def)
      note ef = enqueue_failure_inv [OF st c q]
      have "sup_inv S req (s1\<lparr>completed := True\<rparr>)" if "res = Inr ()"
        using ef that inv q host_enqueue_streams [OF st q]
        by (auto simp: sup_inv_def elim!: host_enqueue_ok)
      with True Inr Some r q ef(1) show ?thesis
        by (cases res) (auto simp: guest_exit_def)
    qed
  qed
next
  case False
  then show ?thesis using inv by (auto simp: guest_exit_def)
qed

lemma poll_inv: "sup_inv S req s \<Longrightarrow> flow_inv S req (poll e s)"
  by (auto simp: poll_def intro: sup_end_inv split: option.split)

lemmas stage_invs = check_deadline_inv check_memory_inv host_input_inv send_both_inv
  guest_input_inv guest_exit_inv poll_inv

lemma iterate_inv:
  assumes "calls (req_limits req) \<le> 100" "sup_inv S req s"
  shows "flow_inv S req (iterate S req e s)"
  unfolding iterate_def by (intro flow_inv_then stage_invs assms)

lemma run_loop_inv:
  assumes "calls (req_limits req) \<le> 100"
  shows "sup_inv S req s \<Longrightarrow> flow_inv S req (run_loop S req es s)"
proof (induction es arbitrary: s)
  case Nil
  then show ?case by simp
next
  case (Cons e es)
  show ?case
    using flow_inv_then [OF iterate_inv [OF assms Cons.prems, of e] Cons.IH] by simp
qed

end
