(* ===== verification/Samples.thy ===== *)
theory Samples
  imports Framing
begin

text \<open>
  Concrete inputs for the witnesses: an admissible request, a codec whose every value prints as
  one byte, and one that finds every text cut short.
\<close>

definition sample_request :: request where
  "sample_request =
     \<lparr>protocol = PROTOCOL, profile = PROFILE, execution_id = ''run'', source = ''42'',
      filename = default_filename, validate_only = False, globals = empty_object,
      catalog = [''records.list''], req_limits = default_limits\<rparr>"

lemma sample_request_valid: "validate sample_request = Inr ()"
  by (simp add: validate_def sample_request_def PROTOCOL_def PROFILE_def default_filename_def
      within_ceilings_def default_limits_def cpu_budget_def globals_ok_def empty_object_def
      object_def path_ok_def name_byte_def is_ascii_alphanumeric_def Let_def)

definition sample_codec :: "json \<Rightarrow> serde" where
  "sample_codec v = \<lparr>to_vec = (\<lambda>_. Inr [116]), from_slice = (\<lambda>_. Inr v)\<rparr>"

definition truncating_codec :: serde where
  "truncating_codec = \<lparr>to_vec = (\<lambda>_. Inr [123]), from_slice = (\<lambda>_. Inl (EofError ''EOF''))\<rparr>"

lemma sample_codec_simps [simp]:
  "frameable (sample_codec v) x" "codec_ok (sample_codec v) v"
  "frame (sample_codec v) x = [0, 0, 0, 1, 116]"
  by (simp_all add: sample_codec_def frameable_def codec_ok_def frame_def MAX_FRAME_def
      to_be_bytes_def)

end
