(* ===== verification/Supervision.thy ===== *)
theory Supervision
  imports Supervisor Samples
begin

text \<open>
  What the supervisor's loop guarantees, from the invariants of \<open>Supervisor\<close>: the conversation
  both sides see, the integrity of the two byte streams, the bound on what it buffers, the
  watchdog, and the delivery of the terminal frame.
\<close>

text \<open>For the witnesses: a turn of the loop in which nothing happens.\<close>

definition quiet :: env where
  "quiet =
     \<lparr>expired = False, resident = None, host_in = ReadFails would_block, guest_in = Takes 1,
      host_out = Takes 1, guest_out = ReadFails would_block, exited = Inr None, polled = None\<rparr>"

section \<open>Reachable states\<close>

inductive loop_state :: "serde \<Rightarrow> request \<Rightarrow> sup \<Rightarrow> bool" for S req where
  start: "guest_enqueue S (request_value req) init_sup = (Inr u, s) \<Longrightarrow> loop_state S req s"
| turn: "loop_state S req s \<Longrightarrow> iterate S req e s = Next s' \<Longrightarrow> loop_state S req s'"

inductive_cases loop_stateE: "loop_state S req s"

lemma init_streams [simp]: "streams S init_sup" "buffers init_sup"
  by (simp_all add: streams_def buffers_def init_sup_def)

lemma start_inv:
  assumes "guest_enqueue S (request_value req) init_sup = (Inr u, s)"
  shows "sup_inv S req s"
proof -
  obtain w where s: "s = init_sup\<lparr>to_guest := w, history := history init_sup @ [ToGuest (request_value req)]\<rparr>"
    using assms by (rule guest_enqueue_ok)
  have "streams S s \<and> buffers s"
    by (rule guest_enqueue_streams [OF _ _ assms]) simp_all
  then show ?thesis
    by (simp add: s sup_inv_def init_sup_def conversation_def pending_backlog)
qed

lemma loop_state_inv:
  assumes "calls (req_limits req) \<le> 100" "loop_state S req s"
  shows "sup_inv S req s"
  using assms(2)
proof induction
  case (start u s)
  then show ?case by (rule start_inv)
next
  case (turn s e s')
  then show ?case using iterate_inv [OF assms(1) turn.IH, of e] by simp
qed

lemma run_loop_state: "loop_state S req s \<Longrightarrow> run_loop S req es s = Next s' \<Longrightarrow> loop_state S req s'"
proof (induction es arbitrary: s)
  case (Cons e es)
  then show ?case by (cases "iterate S req e s") (auto intro: loop_state.turn)
qed simp

lemma validated_calls:
  assumes "validate req = Inr u"
  shows "calls (req_limits req) \<le> 100"
  using assms
  by (auto simp: validate_def within_ceilings_def Let_def not_less split: if_splits)

text \<open>The state a run ends in, or is in when its turns run out.\<close>

lemma run_end_inv:
  "streams S (snd (run S req sp nb es)) \<and> buffers (snd (run S req sp nb es)) \<and>
   conversation req (history (snd (run S req sp nb es))) \<noteq> Violated"
proof -
  have init: "end_inv S req init_sup"
    by (simp add: end_inv_def conversation_def init_sup_def [of] streams_def buffers_def)
  have fin: "end_inv S req (snd (finish f))" if "flow_inv S req f" for f
    using that by (cases f) (auto simp: end_inv_def dest: sup_end_inv)
  have "end_inv S req (snd (run S req sp nb es))"
  proof (cases "validate req")
    case (Inl e)
    then show ?thesis using init by (simp add: run_def)
  next
    case (Inr u)
    note cap = validated_calls [OF Inr]
    obtain res s where q: "guest_enqueue S (request_value req) init_sup = (res, s)" by force
    have "flow_inv S req (attempt (res, s) (run_loop S req es))"
    proof (cases res)
      case (Inl e)
      with q have "end_inv S req s"
        using guest_enqueue_streams [OF _ _ q] init
        by (auto simp: end_inv_def init_sup_def elim: guest_enqueue_error)
      with Inl show ?thesis by simp
    next
      case (Inr u)
      with q show ?thesis using run_loop_inv [OF cap start_inv] by auto
    qed
    then have "flow_inv S req (attempt (nb, init_sup) (\<lambda>s.
        attempt (guest_enqueue S (request_value req) s) (run_loop S req es)))"
      using init q by (cases nb) auto
    then show ?thesis
      using Inr init fin by (cases sp) (auto simp: run_def)
  qed
  then show ?thesis by (simp add: end_inv_def)
qed

section \<open>Consequences of a conversation\<close>

definition kind_is :: "string \<Rightarrow> json \<Rightarrow> bool" where
  "kind_is k v \<longleftrightarrow> member v ''kind'' = String k"

definition offered :: "request \<Rightarrow> json \<Rightarrow> bool" where
  "offered req v \<longleftrightarrow> \<not> validate_only req \<and>
     (case as_str (member v ''path'') of None \<Rightarrow> False | Some path \<Rightarrow> path \<in> set (catalog req))"

lemma call_allowed_offered: "call_allowed req n v \<Longrightarrow> offered req v"
  by (auto simp: call_allowed_def offered_def)

lemma converse_not_Fresh: "converse req c x \<noteq> Fresh"
  by (cases c; cases x) auto

lemma conversation_Fresh: "conversation req h = Fresh \<Longrightarrow> h = []"
  by (cases h rule: rev_cases) (auto simp: converse_not_Fresh)

lemma converse_ToHostE:
  assumes "converse req (Talking n w c) (ToHost v) = Talking n' w' c'"
  obtains (terminal) "kind_is ''completed'' v" "\<not> kind_is ''call'' v" "\<not> c" "identified req v"
      "n' = n" "w' = w" "c'"
  | (log) "\<not> kind_is ''completed'' v" "\<not> kind_is ''call'' v" "\<not> c" "identified req v"
      "n' = n" "w' = w" "\<not> c'"
  | (call) "\<not> kind_is ''completed'' v" "kind_is ''call'' v" "\<not> c" "identified req v"
      "n' = Suc n" "\<not> w" "w'" "\<not> c'" "call_allowed req (Suc n) v"
  using assms by (simp add: kind_is_def split: if_splits)

lemma converse_ToGuestE:
  assumes "converse req (Talking n w c) (ToGuest v) = Talking n' w' c'"
  obtains "kind_is ''reply'' v" "w" "\<not> w'" "n' = n" "c' = c"
  using assms by (simp add: kind_is_def split: if_splits)

lemma Talking_facts:
  "conversation req h = Talking n w c \<Longrightarrow>
     map (\<lambda>v. as_u64 (member v ''sequence'')) (filter (kind_is ''call'') (to_host_values h))
       = map (\<lambda>i. Some (of_nat i)) [1..<Suc n]
     \<and> list_all (offered req) (filter (kind_is ''call'') (to_host_values h))
     \<and> n \<le> unat (calls (req_limits req))
     \<and> list_all (identified req) (to_host_values h)
     \<and> n = length (filter (kind_is ''reply'') (to_guest_values h)) + (if w then 1 else 0)
     \<and> length (filter (kind_is ''completed'') (to_host_values h)) = (if c then 1 else 0)
     \<and> (c \<longrightarrow> to_host_values h \<noteq> [] \<and> kind_is ''completed'' (last (to_host_values h)))"
proof (induction h arbitrary: n w c rule: rev_induct)
  case Nil
  then show ?case by (simp add: conversation_def)
next
  case (snoc x h)
  show ?case
  proof (cases "conversation req h")
    case Fresh
    with conversation_Fresh have "h = []" by blast
    moreover have "\<not> kind_is ''reply'' (request_value req)"
      by (simp add: kind_is_def request_value_def json_simps)
    ultimately show ?thesis using snoc.prems
      by (cases x) (auto simp: conversation_def split: if_splits)
  next
    case (Talking n' w' c')
    note IH = snoc.IH [OF Talking]
    show ?thesis
    proof (cases x)
      case (ToHost v)
      with snoc.prems Talking have "converse req (Talking n' w' c') (ToHost v) = Talking n w c"
        by simp
      then show ?thesis
      proof (cases rule: converse_ToHostE)
        case call
        moreover have "Suc n' \<le> unat (calls (req_limits req))" "offered req v"
          "as_u64 (member v ''sequence'') = Some (of_nat (Suc n'))"
          using call(9) call_allowed_offered [OF call(9)] by (simp_all add: call_allowed_def)
        ultimately show ?thesis using IH ToHost by simp
      qed (use IH ToHost in simp_all)
    next
      case (ToGuest v)
      with snoc.prems Talking have "converse req (Talking n' w' c') (ToGuest v) = Talking n w c"
        by simp
      then show ?thesis
        by (cases rule: converse_ToGuestE) (use IH ToGuest in simp)
    qed
  next
    case Violated
    with snoc.prems show ?thesis by simp
  qed
qed

lemma Talking_calls:
  assumes "conversation req h = Talking n w c"
  shows "length (filter (kind_is ''call'') (to_host_values h)) = n"
proof -
  have "length (map (\<lambda>v. as_u64 (member v ''sequence'')) (filter (kind_is ''call'') (to_host_values h)))
      = length (map (\<lambda>i. Some (of_nat i :: u64)) [1..<Suc n])"
    using Talking_facts [OF assms] by (simp only:)
  then show ?thesis by (simp del: upt_Suc)
qed

lemma single_match_last:
  assumes "length (filter P xs) = 1" "xs \<noteq> []" "P (last xs)"
  shows "filter P xs = [last xs]"
  using assms by (cases xs rule: rev_cases) auto

lemma Talking_terminal:
  assumes "conversation req h = Talking n w c"
  shows "filter (kind_is ''completed'') (to_host_values h) =
    (if c then [last (to_host_values h)] else [])"
  using Talking_facts [OF assms] single_match_last [of "kind_is ''completed''" "to_host_values h"]
  by (cases c) simp_all

text \<open>Every run's history is a conversation, or empty when the run ended before its loop.\<close>

lemma run_talking:
  obtains "history (snd (run S req sp nb es)) = []"
  | n w c where "conversation req (history (snd (run S req sp nb es))) = Talking n w c"
  using run_end_inv [of S req sp nb es] conversation_Fresh
  by (cases "conversation req (history (snd (run S req sp nb es)))") auto

section \<open>Properties of a run\<close>

text \<open>
  C1: in every run, whatever the guest, the host and the operating system do, the capability
  calls forwarded to the host are numbered 1, 2, 3, ... without a gap, there are at most as many
  as the request's call limit, each names a path of the catalog, and a validate-only request
  forwards none; every frame sent to the host carries the protocol and the execution id.
\<close>
theorem forwarded_calls:
  "let sent = to_host_values (history (snd (run S req spawned nonblocking es)));
       cs = filter (kind_is ''call'') sent
   in map (\<lambda>v. as_u64 (member v ''sequence'')) cs = map (\<lambda>i. Some (of_nat i)) [1..<Suc (length cs)]
      \<and> length cs \<le> unat (calls (req_limits req))
      \<and> list_all (offered req) cs \<and> list_all (identified req) sent"
proof (rule run_talking [of S req spawned nonblocking es])
  fix n w c
  let ?h = "history (snd (run S req spawned nonblocking es))"
  assume "conversation req ?h = Talking n w c"
  note c = this and f = Talking_facts [OF this]
  have "length (filter (kind_is ''call'') (to_host_values ?h)) = n"
    by (rule Talking_calls [OF c])
  with f show ?thesis by (simp add: Let_def)
qed simp

text \<open>
  C2: at most one call is ever unanswered. The guest is sent its request and then replies only,
  never more replies than calls and at most one fewer.
\<close>
theorem one_call_at_a_time:
  "let h = history (snd (run S req spawned nonblocking es));
       asked = length (filter (kind_is ''call'') (to_host_values h));
       replies = length (filter (kind_is ''reply'') (to_guest_values h))
   in replies \<le> asked \<and> asked \<le> replies + 1"
proof (rule run_talking [of S req spawned nonblocking es])
  fix n w c
  let ?h = "history (snd (run S req spawned nonblocking es))"
  assume "conversation req ?h = Talking n w c"
  note c = this and f = Talking_facts [OF this]
  have "length (filter (kind_is ''call'') (to_host_values ?h)) = n"
    by (rule Talking_calls [OF c])
  with f show ?thesis by (simp add: Let_def split: if_splits)
qed simp

text \<open>
  C15: the host is sent at most one terminal frame, and it is the last frame sent: no event of the
  guest follows a result or a diagnostic.
\<close>
theorem terminal_frame_last:
  "let sent = to_host_values (history (snd (run S req spawned nonblocking es)));
       terminal = filter (kind_is ''completed'') sent
   in terminal = [] \<or> terminal = [last sent]"
proof (rule run_talking [of S req spawned nonblocking es])
  fix n w c
  assume "conversation req (history (snd (run S req spawned nonblocking es))) = Talking n w c"
  from Talking_terminal [OF this] show ?thesis by (simp add: Let_def)
qed simp


text \<open>
  C14: frames never interleave and no byte is lost or invented. What descriptor 1 and the guest's
  standard input have taken, followed by what is still queued for them, is the concatenation of
  the frames of the values queued, in order.
\<close>
theorem wires_are_frames:
  "let s = snd (run S req spawned nonblocking es) in
     host_wire s @ backlog (to_host s) = concat (map (frame S) (to_host_values (history s)))
     \<and> guest_wire s @ backlog (to_guest s) = concat (map (frame S) (to_guest_values (history s)))"
  using run_end_inv [of S req spawned nonblocking es] by (simp add: streams_def Let_def)

text \<open>
  C32: the supervisor's memory is bounded whatever it is sent: neither reader holds more than one
  frame with its header, and neither writer does.
\<close>
theorem buffers_bounded:
  "let s = snd (run S req spawned nonblocking es) in
     length (rbytes (host s)) \<le> MAX_FRAME + 4 \<and> length (rbytes (guest s)) \<le> MAX_FRAME + 4
     \<and> length (backlog (to_host s)) \<le> MAX_FRAME + 4 \<and> length (backlog (to_guest s)) \<le> MAX_FRAME + 4"
  using run_end_inv [of S req spawned nonblocking es]
  by (simp add: buffers_def Let_def reader_inv_bound)

section \<open>The watchdog\<close>

lemma expired_ends:
  assumes "expired e"
  shows "iterate S req e s \<noteq> Next s'"
proof -
  have "attempt r (\<lambda>s. attempt (host_send e s) Returned) \<noteq> Next s'" for r s'
    by (cases "(r, \<lambda>s. attempt (host_send e s) Returned)" rule: attempt.cases)
      (auto elim: attempt.elims)
  then have "check_deadline S req e s \<noteq> Next s''" for s''
    using assms by (simp add: check_deadline_def Let_def)
  then show ?thesis by (cases "check_deadline S req e s") (auto simp: iterate_def)
qed

lemma expired_loop_ends: "list_ex expired es \<Longrightarrow> run_loop S req es s \<noteq> Next s'"
proof (induction es arbitrary: s)
  case (Cons e es)
  show ?case
  proof (cases "expired e")
    case True
    then show ?thesis using expired_ends by (cases "iterate S req e s") auto
  next
    case False
    with Cons show ?thesis by (cases "iterate S req e s") auto
  qed
qed simp


text \<open>
  C19: the watchdog. Once the deadline has passed at the head of some turn, the run is over, with
  the guest killed and reaped, whatever else happened in that turn and the ones before it.
\<close>
theorem watchdog_ends_run:
  assumes "validate req = Inr ()" "list_ex expired es"
  shows "\<exists>res s. run S req (Inr ()) nonblocking es = (Some res, s) \<and> killed s \<and> reaped s"
proof -
  let ?f = "attempt (nonblocking, init_sup) (\<lambda>s.
    attempt (guest_enqueue S (request_value req) s) (run_loop S req es))"
  have "?f \<noteq> Next s'" for s'
    using expired_loop_ends [OF assms(2)]
    by (cases nonblocking; cases "guest_enqueue S (request_value req) init_sup";
        cases "fst (guest_enqueue S (request_value req) init_sup)") auto
  then show ?thesis using assms(1) by (cases ?f) (auto simp: run_def)
qed

theorem watchdog_ends_run_witness:
  "\<exists>res s. run (sample_codec Null) sample_request (Inr ()) (Inr ())
     [quiet, quiet\<lparr>expired := True\<rparr>] = (Some res, s) \<and> killed s \<and> reaped s"
  by (rule watchdog_ends_run) (simp_all add: sample_request_valid quiet_def)

section \<open>Delivery of the terminal frame\<close>

text \<open>
  A calm turn: before the deadline, the host silent, both pipes taking at least one byte, the
  wait for descriptors without error.
\<close>

definition calm :: "env \<Rightarrow> bool" where
  "calm e \<longleftrightarrow> \<not> expired e \<and> resident e = None \<and> host_in e = ReadFails would_block
     \<and> takes_some (guest_in e)
     \<and> takes_some (host_out e) \<and> polled e = None"

lemma quiet_host:
  assumes "host s = empty_reader" "host_in e = ReadFails would_block"
  shows "host_input S req e s = Next s"
  using assms
  by (cases s) (simp add: host_input_def receive_def target_def empty_reader_def retryable_def
      would_block_def)

lemma send_takes:
  assumes "takes_some sys"
  obtains out w' where "send sys w = (Inr (), out, w')" "backlog w = out @ backlog w'"
    "backlog w = [] \<or> out \<noteq> []"
proof -
  obtain n where n: "sys = Takes n" "0 < n" using assms by (rule takes_someE)
  show ?thesis
  proof (cases "pending w")
    case True
    then obtain out w' where "send sys w = (Inr (), out, w')" "out \<noteq> []"
      using send_progress n by blast
    then show ?thesis using that send_backlog by blast
  next
    case False
    then show ?thesis using that [of "[]" w] send_idle pending_backlog by auto
  qed
qed

lemma calm_sends:
  assumes "calm e"
  obtains s' out where
    "send_both e s = (if completed s' \<and> \<not> pending (to_host s') then Returned s' else Next s')"
    "backlog (to_host s) = out @ backlog (to_host s')" "host_wire s' = host_wire s @ out"
    "backlog (to_host s) = [] \<or> out \<noteq> []" "completed s' = completed s" "host s' = host s"
    "guest_closed s' = guest_closed s" "history s' = history s"
proof -
  have takes: "takes_some (guest_in e)" "takes_some (host_out e)"
    using assms by (simp_all add: calm_def)
  obtain out1 w1 where g: "send (guest_in e) (to_guest s) = (Inr (), out1, w1)"
    by (rule send_takes [OF takes(1)])
  obtain out2 w2 where h: "send (host_out e) (to_host s) = (Inr (), out2, w2)"
    "backlog (to_host s) = out2 @ backlog w2" "backlog (to_host s) = [] \<or> out2 \<noteq> []"
    by (rule send_takes [OF takes(2)])
  show ?thesis
    by (rule that [of "s\<lparr>to_guest := w1, guest_wire := guest_wire s @ out1, to_host := w2,
          host_wire := host_wire s @ out2\<rparr>" out2])
      (use g h in \<open>simp_all add: send_both_def guest_send_def host_send_def\<close>)
qed

lemma calm_turn_completed:
  assumes "calm e" "completed s" "host s = empty_reader" "pending (to_host s)"
  obtains s' where "iterate S req e s = Returned s'"
      "host_wire s' = host_wire s @ backlog (to_host s)" "backlog (to_host s') = []"
  | s' out where "iterate S req e s = Next s'" "completed s'" "host s' = empty_reader"
      "pending (to_host s')" "out \<noteq> []" "backlog (to_host s) = out @ backlog (to_host s')"
      "host_wire s' = host_wire s @ out"
proof -
  obtain s' out where b: "send_both e s =
      (if completed s' \<and> \<not> pending (to_host s') then Returned s' else Next s')"
    "backlog (to_host s) = out @ backlog (to_host s')" "host_wire s' = host_wire s @ out"
    "backlog (to_host s) = [] \<or> out \<noteq> []" "completed s' = completed s" "host s' = host s"
    using assms(1) by (rule calm_sends)
  have start: "iterate S req e s = flow_then (send_both e s) (\<lambda>s.
      flow_then (guest_input S req e s) (\<lambda>s. flow_then (guest_exit S req e s) (poll e)))"
    using assms quiet_host [of s e S req]
    by (simp add: iterate_def check_deadline_def check_memory_def calm_def)
  show thesis
  proof (cases "pending (to_host s')")
    case True
    with b assms(1,2) have "iterate S req e s = Next s'"
      by (simp add: start guest_input_def guest_exit_def poll_def calm_def)
    with True b assms show thesis by (intro that(2) [of s' out]) (auto simp: pending_backlog)
  next
    case False
    with b assms(2) have "iterate S req e s = Returned s'" by (simp add: start)
    with False b show thesis by (intro that(1) [of s']) (simp_all add: pending_backlog)
  qed
qed



section \<open>The guest's end\<close>


definition sample_orphan :: sup where
  "sample_orphan = init_sup\<lparr>to_guest := \<lparr>wbytes = [0, 0, 0, 1, 116], woffset = 0\<rparr>,
     guest_closed := True, history := [ToGuest (request_value sample_request)]\<rparr>"

lemma sample_orphan_inv: "sup_inv (sample_codec Null) sample_request sample_orphan"
  by (simp add: sup_inv_def sample_orphan_def init_sup_def streams_def buffers_def backlog_def
      empty_writer_def conversation_def pending_def MAX_FRAME_def)


section \<open>Two behaviours at the guest's end that the diagnostics do not show\<close>

fun flow_state :: "flow \<Rightarrow> sup" where
  "flow_state (Next s) = s"
| "flow_state (Returned s) = s"
| "flow_state (Failed e s) = s"

definition before_exit :: "env \<Rightarrow> bool" where
  "before_exit e \<longleftrightarrow> \<not> expired e \<and> resident e = None \<and> exited e = Inr None"

lemma host_reply_frame:
  "to_host_values (history (flow_state (host_reply S req v s))) = to_host_values (history s)
   \<and> completed (flow_state (host_reply S req v s)) = completed s
   \<and> guest_closed (flow_state (host_reply S req v s)) = guest_closed s"
proof -
  obtain res s1 where q: "guest_enqueue S v (s\<lparr>pending_sequence := None\<rparr>) = (res, s1)" by force
  have "to_host_values (history s1) = to_host_values (history s) \<and> completed s1 = completed s
      \<and> guest_closed s1 = guest_closed s"
    using q by (cases res) (auto elim!: guest_enqueue_ok guest_enqueue_error)
  then show ?thesis
    using q by (cases res) (simp_all add: host_reply_def)
qed

lemma silent_turn:
  assumes "before_exit e" "guest_closed s" "\<not> completed s" "iterate S req e s = f"
  shows "to_host_values (history (flow_state f)) = to_host_values (history s)
    \<and> \<not> completed (flow_state f) \<and> guest_closed (flow_state f)"
proof -
  define same where "same s' \<longleftrightarrow> to_host_values (history s') = to_host_values (history s)
    \<and> \<not> completed s' \<and> guest_closed s'" for s' :: sup
  have then_same: "same (flow_state (flow_then f g))"
    if "same (flow_state f)" "\<And>s'. same s' \<Longrightarrow> same (flow_state (g s'))" for f g
    using that by (cases f) auto
  have 1: "same (flow_state (host_input S req e s'))" if "same s'" for s'
    using that host_reply_frame [of S req _ "s'\<lparr>host := _\<rparr>"]
    by (auto simp: host_input_def same_def split: prod.split sum.split option.split)
  have 2: "same (flow_state (send_both e s'))" if "same s'" for s'
  proof -
    obtain r1 s1 where 1: "guest_send e s' = (r1, s1)" by force
    obtain r2 s2 where 2: "host_send e s1 = (r2, s2)" by force
    have "same s1" using that 1 by (auto simp: same_def elim: guest_send_effect)
    moreover from this have "same s2" using 2 by (auto simp: same_def elim: host_send_effect)
    ultimately show ?thesis
      using 1 2 by (cases r1; cases r2) (auto simp: send_both_def)
  qed
  have 3: "same (flow_state (guest_input S req e s'))" if "same s'" for s'
    using that by (simp add: guest_input_def same_def)
  have 4: "same (flow_state (guest_exit S req e s'))" if "same s'" for s'
    using that assms(1) by (simp add: guest_exit_def same_def before_exit_def)
  have 5: "same (flow_state (poll e s'))" if "same s'" for s'
    using that by (auto simp: poll_def split: option.split)
  have "iterate S req e s = flow_then (host_input S req e s) (\<lambda>s. flow_then (send_both e s)
      (\<lambda>s. flow_then (guest_input S req e s) (\<lambda>s. flow_then (guest_exit S req e s) (poll e))))"
    using assms(1) by (simp add: iterate_def check_deadline_def check_memory_def before_exit_def)
  moreover have "same s" using assms by (simp add: same_def)
  ultimately have "same (flow_state (iterate S req e s))"
    by (simp only:) (intro then_same 1 2 3 4 5)
  then show ?thesis using assms(4) by (simp add: same_def)
qed

lemma silent_loop:
  "list_all before_exit es \<Longrightarrow> guest_closed s \<Longrightarrow> \<not> completed s \<Longrightarrow>
     to_host_values (history (flow_state (run_loop S req es s))) = to_host_values (history s)"
proof (induction es arbitrary: s)
  case (Cons e es)
  then show ?case
    using silent_turn [of e s S req "iterate S req e s"]
    by (cases "iterate S req e s") auto
qed simp



definition sample_talking :: sup where
  "sample_talking = init_sup\<lparr>guest := \<lparr>rbytes = [0, 0, 0, 1]\<rparr>\<rparr>"


text \<open>
  C40: a guest that dies while a reply to it is still queued is not reported by its exit status.
  The failed write ends the turn before the exit status is looked at, with the write's error.
\<close>
theorem failed_write_hides_exit:
  assumes "\<not> expired e" "resident e = None" "host_in e = ReadFails would_block"
    and "host s = empty_reader" "pending (to_guest s)" "guest_in e = WriteFails er" "\<not> retryable er"
  shows "iterate S req (e\<lparr>exited := status\<rparr>) s = Failed er s"
  using assms quiet_host [of s "e\<lparr>exited := status\<rparr>" S req]
  by (cases s) (simp add: iterate_def check_deadline_def check_memory_def send_both_def guest_send_def
      send_def Let_def)

theorem failed_write_hides_exit_witness:
  "iterate (sample_codec Null) sample_request
     (quiet\<lparr>guest_in := WriteFails (IoError BrokenPipe ''Broken pipe''), exited := Inr (Some (ExitCode 125))\<rparr>)
     sample_orphan = Failed (IoError BrokenPipe ''Broken pipe'') sample_orphan"
  using failed_write_hides_exit [of "quiet\<lparr>guest_in := WriteFails (IoError BrokenPipe ''Broken pipe'')\<rparr>"
      sample_orphan "IoError BrokenPipe ''Broken pipe''" "sample_codec Null" sample_request
      "Inr (Some (ExitCode 125))"]
  by (simp add: quiet_def sample_orphan_def init_sup_def pending_def retryable_def)

end
