(* ===== verification/ValueTree.thy ===== *)
theory ValueTree
  imports Json
begin

text \<open>
  How a value crosses into the guest: \<open>Tree::new\<close> of \<open>src/guest.rs\<close> flattens it into the nodes of
  \<open>native/guest.h\<close>, and \<open>decode\<close> of \<open>native/guest.c\<close> builds the Ruby value back from them. A text
  pointer is the index of the string it points into, \<open>None\<close> for the null pointer.
\<close>

section \<open>Nodes\<close>

record node =
  kind :: int
  integer :: i64
  number :: f64
  text_ptr :: "nat option"
  node_length :: nat

record tree =
  nodes :: "node list"
  strings :: "string list"

datatype tree_error = NestingExceedsLimit | IntegerOutOfRange

definition blank_node :: node where
  "blank_node = \<lparr>kind = 0, integer = 0, number = 0, text_ptr = None, node_length = 0\<rparr>"

definition empty_tree :: tree where
  "empty_tree = \<lparr>nodes = [], strings = []\<rparr>"

fun make_node :: "string list \<Rightarrow> json \<Rightarrow> tree_error + (node \<times> string list)" where
  "make_node ss Null = Inr (blank_node, ss)"
| "make_node ss (Bool b) = Inr (blank_node\<lparr>kind := (if b then 2 else 1)\<rparr>, ss)"
| "make_node ss (Number v) =
     (case as_i64 (Number v) of
        Some i \<Rightarrow> Inr (blank_node\<lparr>kind := 3, integer := i\<rparr>, ss)
      | None \<Rightarrow>
          (case v of
             Float f \<Rightarrow> Inr (blank_node\<lparr>kind := 4, number := f\<rparr>, ss)
           | _ \<Rightarrow> Inl IntegerOutOfRange))"
| "make_node ss (String s) =
     Inr (blank_node\<lparr>kind := 5, text_ptr := Some (length ss), node_length := length s\<rparr>, ss @ [s])"
| "make_node ss (Array vs) = Inr (blank_node\<lparr>kind := 6, node_length := length vs\<rparr>, ss)"
| "make_node ss (Object kvs) = Inr (blank_node\<lparr>kind := 7, node_length := length kvs\<rparr>, ss)"

text \<open>The depth check, the node and its \<open>push\<close>, before the children are visited.\<close>

definition push_node :: "tree \<Rightarrow> json \<Rightarrow> nat \<Rightarrow> tree_error + tree" where
  "push_node t v depth =
     (if depth > 64 then Inl NestingExceedsLimit
      else and_then (make_node (strings t) v) (\<lambda>(n, ss).
        Inr \<lparr>nodes = nodes t @ [n], strings = ss\<rparr>))"

text \<open>
  \<open>add\<close> recurses into the children. A key is added as a string value, for which \<open>add\<close> is
  \<open>push_node\<close> (\<open>add_string\<close> below).
\<close>

fun add :: "tree \<Rightarrow> json \<Rightarrow> nat \<Rightarrow> tree_error + tree"
  and add_children :: "tree \<Rightarrow> json list \<Rightarrow> nat \<Rightarrow> tree_error + tree"
  and add_members :: "tree \<Rightarrow> fields \<Rightarrow> nat \<Rightarrow> tree_error + tree" where
  "add t (Array vs) depth = and_then (push_node t (Array vs) depth) (\<lambda>t. add_children t vs (depth + 1))"
| "add t (Object kvs) depth = and_then (push_node t (Object kvs) depth) (\<lambda>t. add_members t kvs (depth + 1))"
| "add t Null depth = push_node t Null depth"
| "add t (Bool b) depth = push_node t (Bool b) depth"
| "add t (Number n) depth = push_node t (Number n) depth"
| "add t (String s) depth = push_node t (String s) depth"
| "add_children t [] depth = Inr t"
| "add_children t (v # vs) depth = and_then (add t v depth) (\<lambda>t. add_children t vs depth)"
| "add_members t [] depth = Inr t"
| "add_members t ((k, v) # kvs) depth =
     and_then (push_node t (String k) depth) (\<lambda>t.
     and_then (add t v depth) (\<lambda>t. add_members t kvs depth))"

lemma add_string: "add t (String k) depth = push_node t (String k) depth"
  by simp

definition tree_new :: "json \<Rightarrow> tree_error + tree" where
  "tree_new v = add empty_tree v 0"

section \<open>Ruby values and the native decoder\<close>

text \<open>
  The values \<open>decode\<close> builds: the frozen wrapper \<open>Record\<close> of a hash, or the hash itself; a hash is
  in insertion order, and setting a present key replaces its value.
\<close>

datatype ruby =
    RNil | RFalse | RTrue | RInt i64 | RFloat f64 | RString string
  | RArray "ruby list" | RHash "(ruby \<times> ruby) list" | RRecord "(ruby \<times> ruby) list"

datatype decode_error = NestingLimit | InvalidNode | EndOfNodes

fun hash_set :: "(ruby \<times> ruby) list \<Rightarrow> ruby \<Rightarrow> ruby \<Rightarrow> (ruby \<times> ruby) list" where
  "hash_set [] k v = [(k, v)]"
| "hash_set ((k', v') # h) k v = (if k' = k then (k, v) # h else (k', v') # hash_set h k v)"

definition node_text :: "string list \<Rightarrow> node \<Rightarrow> decode_error + string" where
  "node_text ss n =
     (case text_ptr n of
        None \<Rightarrow> Inl InvalidNode
      | Some i \<Rightarrow> if i < length ss then Inr (take (node_length n) (ss ! i)) else Inl InvalidNode)"

text \<open>
  The cursor is the list of nodes still to read; reading past the last one, undefined in C, is an
  error of the model.
\<close>

function decode :: "string list \<Rightarrow> node list \<Rightarrow> nat \<Rightarrow> bool \<Rightarrow> decode_error + (ruby \<times> node list)"
  and decode_items :: "string list \<Rightarrow> nat \<Rightarrow> ruby list \<Rightarrow> node list \<Rightarrow> nat \<Rightarrow> bool \<Rightarrow>
        decode_error + (ruby list \<times> node list)"
  and decode_pairs :: "string list \<Rightarrow> nat \<Rightarrow> (ruby \<times> ruby) list \<Rightarrow> node list \<Rightarrow> nat \<Rightarrow> bool \<Rightarrow>
        decode_error + ((ruby \<times> ruby) list \<times> node list)" where
  "decode ss cursor depth records =
     (if depth > 64 then Inl NestingLimit
      else case cursor of
        [] \<Rightarrow> Inl EndOfNodes
      | n # rest \<Rightarrow>
          if kind n = 0 then Inr (RNil, rest)
          else if kind n = 1 then Inr (RFalse, rest)
          else if kind n = 2 then Inr (RTrue, rest)
          else if kind n = 3 then Inr (RInt (integer n), rest)
          else if kind n = 4 then Inr (RFloat (number n), rest)
          else if kind n = 5 then and_then (node_text ss n) (\<lambda>s. Inr (RString s, rest))
          else if kind n = 6 then
            and_then (decode_items ss (node_length n) [] rest (depth + 1) records)
              (\<lambda>(vs, rest). Inr (RArray vs, rest))
          else if kind n = 7 then
            and_then (decode_pairs ss (node_length n) [] rest (depth + 1) records)
              (\<lambda>(h, rest). Inr (if records then RRecord h else RHash h, rest))
          else Inl InvalidNode)"
| "decode_items ss 0 done_items cursor depth records = Inr (done_items, cursor)"
| "decode_items ss (Suc n) done_items cursor depth records =
     and_then (decode ss cursor depth records) (\<lambda>(v, rest).
       decode_items ss n (done_items @ [v]) rest depth records)"
| "decode_pairs ss 0 h cursor depth records = Inr (h, cursor)"
| "decode_pairs ss (Suc n) h cursor depth records =
     and_then (decode ss cursor depth False) (\<lambda>(k, rest).
     and_then (decode ss rest depth records) (\<lambda>(v, rest).
       decode_pairs ss n (hash_set h k v) rest depth records))"
  by pat_completeness auto
termination
  by (relation "measures [\<lambda>x. case x of
        Inl (_, _, depth, _) \<Rightarrow> 2 * (66 - depth)
      | Inr (Inl (_, n, _, _, depth, _)) \<Rightarrow> 2 * (66 - depth) + 1
      | Inr (Inr (_, n, _, _, depth, _)) \<Rightarrow> 2 * (66 - depth) + 1,
      \<lambda>x. case x of
        Inl _ \<Rightarrow> 0
      | Inr (Inl (_, n, _, _, _, _)) \<Rightarrow> n
      | Inr (Inr (_, n, _, _, _, _)) \<Rightarrow> n]") auto

declare decode.simps [simp del]


section \<open>What arrives in the guest\<close>

text \<open>The Ruby value of a JSON value: integers and floats keep their bits, objects become records.\<close>

fun reflect :: "bool \<Rightarrow> json \<Rightarrow> ruby" where
  "reflect records Null = RNil"
| "reflect records (Bool b) = (if b then RTrue else RFalse)"
| "reflect records (Number (PosInt n)) = RInt n"
| "reflect records (Number (NegInt i)) = RInt i"
| "reflect records (Number (Float f)) = RFloat f"
| "reflect records (String s) = RString s"
| "reflect records (Array vs) = RArray (map (reflect records) vs)"
| "reflect records (Object kvs) =
     (if records then RRecord else RHash) (map (\<lambda>(k, v). (RString k, reflect records v)) kvs)"

definition grown :: "tree \<Rightarrow> node list \<Rightarrow> string list \<Rightarrow> tree" where
  "grown t ns ss = \<lparr>nodes = nodes t @ ns, strings = strings t @ ss\<rparr>"

lemma grown_simps [simp]:
  "nodes (grown t ns ss) = nodes t @ ns" "strings (grown t ns ss) = strings t @ ss"
  "grown (grown t ns ss) ns' ss' = grown t (ns @ ns') (ss @ ss')"
  by (simp_all add: grown_def)

lemma push_node_grown:
  assumes "push_node t v depth = Inr t'"
  obtains n ss where "t' = grown t [n] ss" "depth \<le> 64" "make_node (strings t) v = Inr (n, strings t @ ss)"
proof -
  obtain n ss where m: "make_node (strings t) v = Inr (n, ss)" and t': "t' = \<lparr>nodes = nodes t @ [n], strings = ss\<rparr>"
    and d: "depth \<le> 64"
    using assms by (auto simp: push_node_def result_simps split: if_splits)
  have "\<exists>ss'. ss = strings t @ ss'"
    using m by (cases "(strings t, v)" rule: make_node.cases)
      (auto split: option.splits number.splits if_splits)
  then obtain ss' where "ss = strings t @ ss'" by blast
  then show ?thesis using that [of n ss'] m t' d by (simp add: grown_def)
qed

lemma decode_leaf:
  assumes "make_node ss v = Inr (n, ss @ new)" "depth \<le> 64" "\<forall>vs. v \<noteq> Array vs" "\<forall>kvs. v \<noteq> Object kvs"
  shows "decode (ss @ new @ extra) (n # rest) depth records = Inr (reflect records v, rest)"
proof (cases v)
  case (Number k)
  then show ?thesis using assms
    by (cases k) (auto simp: decode.simps blank_node_def split: if_splits)
next
  case (String s)
  then have "new = [s]" "n = blank_node\<lparr>kind := 5, text_ptr := Some (length ss), node_length := length s\<rparr>"
    using assms(1) by auto
  then show ?thesis using assms(2) String by (simp add: decode.simps blank_node_def node_text_def)
qed (use assms in \<open>auto simp: decode.simps blank_node_def split: if_splits\<close>)

lemma push_decode_leaf:
  assumes "push_node t v depth = Inr t'" "\<forall>vs. v \<noteq> Array vs" "\<forall>kvs. v \<noteq> Object kvs"
  shows "\<exists>ns ss. t' = grown t ns ss \<and> (\<forall>extra rest records.
    decode (strings t' @ extra) (ns @ rest) depth records = Inr (reflect records v, rest))"
  using assms(1)
proof (rule push_node_grown)
  fix n ss
  assume "t' = grown t [n] ss" "depth \<le> 64" "make_node (strings t) v = Inr (n, strings t @ ss)"
  with decode_leaf [OF this(3,2) assms(2,3)] show ?thesis
    by (intro exI [of _ "[n]"] exI [of _ ss]) simp
qed

lemma hash_set_fresh: "k \<notin> fst ` set h \<Longrightarrow> hash_set h k v = h @ [(k, v)]"
  by (induction h k v rule: hash_set.induct) auto

lemma add_decode:
  "add t v depth = Inr t' \<Longrightarrow> json_wf v \<Longrightarrow>
    \<exists>ns ss. t' = grown t ns ss \<and> (\<forall>extra rest records.
      decode (strings t' @ extra) (ns @ rest) depth records = Inr (reflect records v, rest))"
  "add_children t vs depth = Inr t' \<Longrightarrow> list_all json_wf vs \<Longrightarrow>
    \<exists>ns ss. t' = grown t ns ss \<and> (\<forall>extra rest records acc.
      decode_items (strings t' @ extra) (length vs) acc (ns @ rest) depth records
        = Inr (acc @ map (reflect records) vs, rest))"
  "add_members t kvs depth = Inr t' \<Longrightarrow> list_all (\<lambda>(_, v). json_wf v) kvs \<Longrightarrow> distinct (map fst kvs) \<Longrightarrow>
    \<exists>ns ss. t' = grown t ns ss \<and> (\<forall>extra rest records h. fst ` set h \<inter> RString ` fst ` set kvs = {} \<longrightarrow>
      decode_pairs (strings t' @ extra) (length kvs) h (ns @ rest) depth records
        = Inr (h @ map (\<lambda>(k, v). (RString k, reflect records v)) kvs, rest))"
proof (induction t v depth and t vs depth and t kvs depth arbitrary: t' and t' and t'
    rule: add_add_children_add_members.induct)
  case (1 t vs depth)
  obtain t1 where p: "push_node t (Array vs) depth = Inr t1" and c: "add_children t1 vs (depth + 1) = Inr t'"
    using "1.prems" by (auto simp: result_simps)
  obtain n ss where t1: "t1 = grown t [n] ss" "depth \<le> 64"
      and n: "make_node (strings t) (Array vs) = Inr (n, strings t @ ss)"
    using p by (rule push_node_grown)
  obtain ns' ss' where t': "t' = grown t1 ns' ss'" and d: "\<And>extra rest records acc.
      decode_items (strings t' @ extra) (length vs) acc (ns' @ rest) (depth + 1) records
        = Inr (acc @ map (reflect records) vs, rest)"
    using "1.IH" [OF c] "1.prems" by auto
  have "decode (strings t' @ extra) ((n # ns') @ rest) depth records = Inr (reflect records (Array vs), rest)"
    for extra rest records
    using n t1(2) d [of extra "[]" rest records]
    by (auto simp: decode.simps [of _ "n # _"] blank_node_def)
  then show ?case using t' t1(1) by (intro exI [of _ "n # ns'"] exI [of _ "ss @ ss'"]) simp
next
  case (2 t kvs depth)
  obtain t1 where p: "push_node t (Object kvs) depth = Inr t1" and c: "add_members t1 kvs (depth + 1) = Inr t'"
    using "2.prems" by (auto simp: result_simps)
  obtain n ss where t1: "t1 = grown t [n] ss" "depth \<le> 64"
      and n: "make_node (strings t) (Object kvs) = Inr (n, strings t @ ss)"
    using p by (rule push_node_grown)
  have "distinct (map fst kvs)"
    using "2.prems"(2) by (simp add: ordered_def strict_sorted_iff)
  then obtain ns' ss' where t': "t' = grown t1 ns' ss'" and d: "\<And>extra rest records.
      decode_pairs (strings t' @ extra) (length kvs) [] (ns' @ rest) (depth + 1) records
        = Inr (map (\<lambda>(k, v). (RString k, reflect records v)) kvs, rest)"
    using "2.IH" [OF c] "2.prems" by fastforce
  have "decode (strings t' @ extra) ((n # ns') @ rest) depth records = Inr (reflect records (Object kvs), rest)"
    for extra rest records
    using n t1(2) d [of extra rest records]
    by (auto simp: decode.simps [of _ "n # _"] blank_node_def)
  then show ?case using t' t1(1) by (intro exI [of _ "n # ns'"] exI [of _ "ss @ ss'"]) simp
next
  case (8 t v vs depth)
  obtain t1 where a: "add t v depth = Inr t1" and c: "add_children t1 vs depth = Inr t'"
    using "8.prems" by (auto simp: result_simps)
  obtain ns1 ss1 where 1: "t1 = grown t ns1 ss1" "\<And>extra rest records.
      decode (strings t1 @ extra) (ns1 @ rest) depth records = Inr (reflect records v, rest)"
    using "8.IH"(1) [OF a] "8.prems" by auto
  obtain ns2 ss2 where 2: "t' = grown t1 ns2 ss2" "\<And>extra rest records acc.
      decode_items (strings t' @ extra) (length vs) acc (ns2 @ rest) depth records
        = Inr (acc @ map (reflect records) vs, rest)"
    using "8.IH"(2) [OF c] "8.prems" by auto
  show ?case
    using 1 2 1(2) [of "ss2 @ _" "ns2 @ _"]
    by (intro exI [of _ "ns1 @ ns2"] exI [of _ "ss1 @ ss2"]) simp
next
  case (10 t k v kvs depth)
  obtain t1 t2 where p: "push_node t (String k) depth = Inr t1" and a: "add t1 v depth = Inr t2"
    and c: "add_members t2 kvs depth = Inr t'"
    using "10.prems" by (auto simp: result_simps)
  obtain ns1 ss1 where 1: "t1 = grown t ns1 ss1" "\<And>extra rest records.
      decode (strings t1 @ extra) (ns1 @ rest) depth records = Inr (RString k, rest)"
    using push_decode_leaf [OF p] by auto
  obtain ns2 ss2 where 2: "t2 = grown t1 ns2 ss2" "\<And>extra rest records.
      decode (strings t2 @ extra) (ns2 @ rest) depth records = Inr (reflect records v, rest)"
    using "10.IH"(1) [OF a] "10.prems" by auto
  obtain ns3 ss3 where 3: "t' = grown t2 ns3 ss3" "\<And>extra rest records h.
      fst ` set h \<inter> RString ` fst ` set kvs = {} \<Longrightarrow>
      decode_pairs (strings t' @ extra) (length kvs) h (ns3 @ rest) depth records
        = Inr (h @ map (\<lambda>(k, v). (RString k, reflect records v)) kvs, rest)"
    using "10.IH"(2) [OF c] "10.prems" by auto
  have "decode_pairs (strings t' @ extra) (length ((k, v) # kvs)) h ((ns1 @ ns2 @ ns3) @ rest) depth records
      = Inr (h @ map (\<lambda>(k, v). (RString k, reflect records v)) ((k, v) # kvs), rest)"
    if fresh: "fst ` set h \<inter> RString ` fst ` set ((k, v) # kvs) = {}" for extra rest records h
  proof -
    let ?h = "h @ [(RString k, reflect records v)]"
    have "hash_set h (RString k) (reflect records v) = ?h"
      using fresh by (intro hash_set_fresh) auto
    moreover have "fst ` set ?h \<inter> RString ` fst ` set kvs = {}"
      using fresh "10.prems"(3) by auto
    ultimately show ?thesis
      using 1(2) [of "ss2 @ ss3 @ extra" "ns2 @ ns3 @ rest" False]
        2(2) [of "ss3 @ extra" "ns3 @ rest" records] 3(2) [of ?h extra rest records] 1(1) 2(1) 3(1)
      by simp
  qed
  then show ?case
    using 1(1) 2(1) 3(1)
    by (intro exI [of _ "ns1 @ ns2 @ ns3"] exI [of _ "ss1 @ ss2 @ ss3"]) simp
next
  case (3 t depth)
  then show ?case using push_decode_leaf [of t Null depth t'] by simp
next
  case (4 t b depth)
  then show ?case using push_decode_leaf [of t "Bool b" depth t'] by simp
next
  case (5 t n depth)
  then show ?case using push_decode_leaf [of t "Number n" depth t'] by simp
next
  case (6 t s depth)
  then show ?case using push_decode_leaf [of t "String s" depth t'] by simp
next
  case (7 t depth)
  then show ?case by (intro exI [of _ "[]"]) (simp add: grown_def)
next
  case (9 t depth)
  then show ?case by (intro exI [of _ "[]"]) (simp add: grown_def)
qed


lemma tree_new_decode:
  assumes "tree_new v = Inr t" "json_wf v"
  shows "decode (strings t) (nodes t) 0 records = Inr (reflect records v, [])"
proof -
  obtain ns ss where "t = grown empty_tree ns ss" and d: "\<And>extra rest.
      decode (strings t @ extra) (ns @ rest) 0 records = Inr (reflect records v, rest)"
    using add_decode(1) [of empty_tree v 0 t] assms by (auto simp: tree_new_def)
  then have "nodes t = ns" by (simp add: empty_tree_def)
  with d [of "[]" "[]"] show ?thesis by simp
qed

section \<open>Which values cross\<close>

text \<open>
  At most 64 levels below the root, keys counting as a level of their own, and no integer above
  the signed 64-bit range.
\<close>

fun crossable :: "nat \<Rightarrow> json \<Rightarrow> bool" where
  "crossable depth (Array vs) = (depth \<le> 64 \<and> list_all (crossable (depth + 1)) vs)"
| "crossable depth (Object kvs) =
     (depth \<le> 64 \<and> list_all (\<lambda>(_, v). depth < 64 \<and> crossable (depth + 1) v) kvs)"
| "crossable depth (Number (PosInt n)) = (depth \<le> 64 \<and> n \<le> 9223372036854775807)"
| "crossable depth _ = (depth \<le> 64)"

lemma push_node_total:
  "(\<exists>t'. push_node t v depth = Inr t') \<longleftrightarrow>
     depth \<le> 64 \<and> (case v of Number (PosInt n) \<Rightarrow> n \<le> 9223372036854775807 | _ \<Rightarrow> True)"
  by (cases "(strings t, v)" rule: make_node.cases)
    (auto simp: push_node_def split: number.splits)

lemma add_total:
  "(\<exists>t'. add t v depth = Inr t') \<longleftrightarrow> crossable depth v"
  "(\<exists>t'. add_children t vs depth = Inr t') \<longleftrightarrow> list_all (crossable depth) vs"
  "(\<exists>t'. add_members t kvs depth = Inr t') \<longleftrightarrow>
     list_all (\<lambda>(_, v). depth \<le> 64 \<and> crossable depth v) kvs"
proof (induction t v depth and t vs depth and t kvs depth rule: add_add_children_add_members.induct)
  case (1 t vs depth)
  then show ?case using push_node_total [of t "Array vs" depth]
    by (auto simp: result_simps)
next
  case (2 t kvs depth)
  have "(depth + 1 \<le> (64::nat)) = (depth < 64)" by arith
  with 2 show ?case using push_node_total [of t "Object kvs" depth]
    by (auto simp: result_simps)
next
  case (5 t n depth)
  then show ?case using push_node_total [of t "Number n" depth] by (cases n) auto
next
  case (8 t v vs depth)
  then show ?case by (fastforce simp: result_simps)
next
  case (10 t k v kvs depth)
  then show ?case using push_node_total [of t "String k" depth]
    by (fastforce simp: result_simps)
qed (use push_node_total in auto)

section \<open>Properties\<close>

text \<open>
  C17: values cross the language boundary unchanged. The nodes \<open>Tree::new\<close> makes of a value are read
  back by the native decoder, to the last node and without meeting an invalid one, as the Ruby
  value of the same shape, integers and float bits and strings included.
\<close>
theorem value_crosses:
  assumes "tree_new v = Inr t" "json_wf v"
  shows "decode (strings t) (nodes t) 0 records = Inr (reflect records v, [])"
  using assms by (rule tree_new_decode)

definition sample_value :: json where
  "sample_value = Object [(''active'', Bool False), (''ids'', Array [Number (PosInt 1), Null])]"

theorem value_crosses_witness:
  "\<exists>t. tree_new sample_value = Inr t
     \<and> decode (strings t) (nodes t) 0 True
       = Inr (RRecord [(RString ''active'', RFalse), (RString ''ids'', RArray [RInt 1, RNil])], [])"
proof -
  obtain t where t: "tree_new sample_value = Inr t"
    using add_total(1) [of empty_tree sample_value 0] by (auto simp: tree_new_def sample_value_def)
  have "json_wf sample_value" by (simp add: sample_value_def ordered_def)
  from value_crosses [OF t this, of True] t show ?thesis by (auto simp: sample_value_def)
qed

text \<open>
  Exactly the values within the nesting limit whose integers fit 64 signed bits cross; every
  other value is an error, never a truncated tree.
\<close>
theorem crossing_decided: "(\<exists>t. tree_new v = Inr t) \<longleftrightarrow> crossable 0 v"
  unfolding tree_new_def by (rule add_total)

end
