(* ===== verification/EditDistance.thy ===== *)
theory EditDistance
  imports Prelude
begin

text \<open>
  \<open>edit_distance\<close> of \<open>src/guest.rs\<close>, the one-row table that ranks catalog paths for the repair
  hint, against edit scripts: its result is the least number of single-byte insertions,
  deletions and replacements that turn one string into the other.
\<close>

section \<open>The table\<close>

fun inner_loop :: "char \<Rightarrow> nat \<Rightarrow> string \<Rightarrow> nat \<Rightarrow> nat list \<Rightarrow> nat list" where
  "inner_loop left j [] diagonal row = row"
| "inner_loop left j (right # b) diagonal row =
     (let old = row ! (j + 1);
          row = row[j + 1 := min (min (row ! j + 1) (old + 1))
                             (diagonal + (if left \<noteq> right then 1 else 0))]
      in inner_loop left (j + 1) b old row)"

fun outer_loop :: "nat \<Rightarrow> string \<Rightarrow> string \<Rightarrow> nat list \<Rightarrow> nat list" where
  "outer_loop i [] b row = row"
| "outer_loop i (left # a) b row =
     (let diagonal = row ! 0; row = row[0 := i + 1]
      in outer_loop (i + 1) a b (inner_loop left 0 b diagonal row))"

definition edit_distance :: "string \<Rightarrow> string \<Rightarrow> nat" where
  "edit_distance a b = outer_loop 0 a b [0..<length b + 1] ! length b"

section \<open>Edit scripts\<close>

inductive edits :: "nat \<Rightarrow> 'a list \<Rightarrow> 'a list \<Rightarrow> bool" where
  nothing: "edits 0 [] []"
| keep: "edits n a b \<Longrightarrow> edits n (x # a) (x # b)"
| replace: "edits n a b \<Longrightarrow> edits (Suc n) (x # a) (y # b)"
| insert: "edits n a b \<Longrightarrow> edits (Suc n) a (y # b)"
| delete: "edits n a b \<Longrightarrow> edits (Suc n) (x # a) b"

lemma edits_append: "edits n a b \<Longrightarrow> edits m c d \<Longrightarrow> edits (n + m) (a @ c) (b @ d)"
  by (induction rule: edits.induct) (auto intro: edits.intros)

lemma edits_rev: "edits n a b \<Longrightarrow> edits n (rev a) (rev b)"
proof (induction rule: edits.induct)
  case (keep n a b x)
  then show ?case using edits_append [OF keep.IH edits.keep [OF edits.nothing, of x]] by simp
next
  case (replace n a b x y)
  then show ?case using edits_append [OF replace.IH edits.replace [OF edits.nothing, of x y]] by simp
next
  case (insert n a b y)
  then show ?case using edits_append [OF insert.IH edits.insert [OF edits.nothing, of y]] by simp
next
  case (delete n a b x)
  then show ?case using edits_append [OF delete.IH edits.delete [OF edits.nothing, of x]] by simp
qed (auto intro: edits.intros)

lemma edits_rev_iff: "edits n (rev a) (rev b) \<longleftrightarrow> edits n a b"
  using edits_rev [of n a b] edits_rev [of n "rev a" "rev b"] by auto

text \<open>The usual recursion, which the table follows on prefixes.\<close>

fun lev :: "'a list \<Rightarrow> 'a list \<Rightarrow> nat" where
  "lev [] b = length b"
| "lev a [] = length a"
| "lev (x # a) (y # b) =
     min (min (lev (x # a) b + 1) (lev a (y # b) + 1)) (lev a b + (if x \<noteq> y then 1 else 0))"

lemma lev_Nil [simp]: "lev a [] = length a"
  by (cases a) simp_all

lemma edits_insert_all: "edits (length b) [] b"
  by (induction b) (auto intro: edits.intros)

lemma edits_delete_all: "edits (length a) a []"
  by (induction a) (auto intro: edits.intros)

lemma lev_attained: "edits (lev a b) a b"
proof (induction a b rule: lev.induct)
  case (3 x a y b)
  then show ?case
    by (auto simp: min_def intro: edits.intros)
next
  case (2 x a)
  then show ?case using edits_delete_all [of "x # a"] by simp
qed (simp_all add: edits_insert_all)

lemma lev_tail: "lev a (y # b) \<le> lev a b + 1" "lev (x # a) b \<le> lev a b + 1"
  by (cases a; simp) (cases b; simp)

lemma lev_least: "edits n a b \<Longrightarrow> lev a b \<le> n"
proof (induction rule: edits.induct)
  case (insert n a b y)
  then show ?case using lev_tail(1) [of a y b] by simp
next
  case (delete n a b x)
  then show ?case using lev_tail(2) [of x a b] by simp
qed auto

section \<open>The table computes the recursion\<close>

text \<open>Entry \<open>j\<close> of the row after \<open>i\<close> bytes of \<open>a\<close>: the distance of the two prefixes.\<close>

definition cell :: "string \<Rightarrow> string \<Rightarrow> nat" where
  "cell a b = lev (rev a) (rev b)"

lemma cell_Nil [simp]: "cell [] b = length b" "cell a [] = length a"
  by (simp_all add: cell_def)

lemma cell_snoc:
  "cell (a @ [x]) (b @ [y]) =
     min (min (cell (a @ [x]) b + 1) (cell a (b @ [y]) + 1)) (cell a b + (if x \<noteq> y then 1 else 0))"
  by (simp add: cell_def)

lemma inner_loop_cells:
  assumes "length row = length (c @ b) + 1"
    and "\<forall>k \<le> length c. row ! k = cell (a @ [x]) (take k (c @ b))"
    and "\<forall>k. length c < k \<longrightarrow> k \<le> length (c @ b) \<longrightarrow> row ! k = cell a (take k (c @ b))"
    and "diagonal = cell a c"
  shows "length (inner_loop x (length c) b diagonal row) = length (c @ b) + 1
    \<and> (\<forall>k \<le> length (c @ b). inner_loop x (length c) b diagonal row ! k = cell (a @ [x]) (take k (c @ b)))"
  using assms
proof (induction b arbitrary: c diagonal row)
  case Nil
  then show ?case by simp
next
  case (Cons y b)
  let ?j = "length c"
  let ?new = "min (min (row ! ?j + 1) (row ! (?j + 1) + 1)) (diagonal + (if x \<noteq> y then 1 else 0))"
  let ?row = "row[?j + 1 := ?new]"
  have c: "row ! ?j = cell (a @ [x]) c" and old: "row ! (?j + 1) = cell a (c @ [y])"
    using Cons.prems(2,3) by simp_all
  have new: "?new = cell (a @ [x]) (c @ [y])"
    using c old Cons.prems(4) by (simp add: cell_snoc)
  have "length (inner_loop x (length (c @ [y])) b (row ! (?j + 1)) ?row) = length ((c @ [y]) @ b) + 1
      \<and> (\<forall>k \<le> length ((c @ [y]) @ b). inner_loop x (length (c @ [y])) b (row ! (?j + 1)) ?row ! k
          = cell (a @ [x]) (take k ((c @ [y]) @ b)))"
  proof (rule Cons.IH)
    show "length ?row = length ((c @ [y]) @ b) + 1" using Cons.prems(1) by simp
    show "\<forall>k \<le> length (c @ [y]). ?row ! k = cell (a @ [x]) (take k ((c @ [y]) @ b))"
    proof (intro allI impI)
      fix k assume k: "k \<le> length (c @ [y])"
      show "?row ! k = cell (a @ [x]) (take k ((c @ [y]) @ b))"
      proof (cases "k = ?j + 1")
        case True
        then show ?thesis using new Cons.prems(1) by simp
      next
        case False
        with k have "k \<le> ?j" by simp
        then show ?thesis using Cons.prems(2) by simp
      qed
    qed
    show "\<forall>k. length (c @ [y]) < k \<longrightarrow> k \<le> length ((c @ [y]) @ b) \<longrightarrow>
        ?row ! k = cell a (take k ((c @ [y]) @ b))"
      using Cons.prems(3) by simp
    show "row ! (?j + 1) = cell a (c @ [y])" by (rule old)
  qed
  then show ?case by (simp add: Let_def)
qed

lemma outer_loop_cells:
  assumes "length row = length b + 1" "\<forall>k \<le> length b. row ! k = cell c (take k b)"
  shows "length (outer_loop (length c) a b row) = length b + 1
    \<and> outer_loop (length c) a b row ! length b = cell (c @ a) b"
  using assms
proof (induction a arbitrary: c row)
  case Nil
  then show ?case by simp
next
  case (Cons x a)
  let ?row = "row[0 := length c + 1]"
  have "length (inner_loop x (length ([] :: string)) b (row ! 0) ?row) = length ([] @ b) + 1
      \<and> (\<forall>k \<le> length ([] @ b). inner_loop x (length ([] :: string)) b (row ! 0) ?row ! k
          = cell (c @ [x]) (take k ([] @ b)))"
    using Cons.prems by (intro inner_loop_cells [of _ "[]"]) (auto simp: nth_list_update)
  then have "length (outer_loop (length (c @ [x])) a b (inner_loop x 0 b (row ! 0) ?row)) = length b + 1
      \<and> outer_loop (length (c @ [x])) a b (inner_loop x 0 b (row ! 0) ?row) ! length b
        = cell ((c @ [x]) @ a) b"
    by (intro Cons.IH) simp_all
  then show ?case by (simp add: Let_def)
qed

lemma edit_distance_lev: "edit_distance a b = lev (rev a) (rev b)"
proof -
  have "\<forall>k \<le> length b. [0..<length b + 1] ! k = cell [] (take k b)"
    by (auto simp del: upt_Suc)
  then show ?thesis
    using outer_loop_cells [of "[0..<length b + 1]" b "[]" a]
    by (simp add: edit_distance_def cell_def del: upt_Suc)
qed

section \<open>Properties\<close>

text \<open>
  C36: the table is right. \<open>edit_distance a b\<close> edits suffice to turn \<open>a\<close> into \<open>b\<close>, and no fewer do.
\<close>
theorem edit_distance_least:
  "edits (edit_distance a b) a b \<and> (edits n a b \<longrightarrow> edit_distance a b \<le> n)"
  using lev_attained [of "rev a" "rev b"] lev_least [of n "rev a" "rev b"]
  by (simp add: edit_distance_lev edits_rev_iff)

theorem edit_distance_least_witness:
  "edits 2 ''lsit'' ''list'' \<and> edit_distance ''lsit'' ''list'' \<le> 2"
proof -
  have "edits 2 ''lsit'' ''list''"
    using edits.keep [OF edits.insert [OF edits.keep [OF edits.delete [OF edits.keep [OF edits.nothing,
      of "CHR ''t''"]], of "CHR ''s''"]], of "CHR ''l''"]
    by (simp add: numeral_2_eq_2)
  with edit_distance_least [of "''lsit''" "''list''" 2] show ?thesis by simp
qed

end
