(* ===== verification/Budget.thy ===== *)
theory Budget
  imports Prelude
begin

text \<open>
  The one pattern behind the limits of an execution. Calls, log bytes, native allocations,
  instructions and encoded bytes are each spent by an operation that looks at what is used before
  it uses more. A component shows that one of its steps uses at most what is left; what a whole
  run uses follows here once. Memory is given back, so its use is only \<open>bounded\<close>; the others are
  spent for good and form a \<open>budget\<close>.
\<close>

locale bounded =
  fixes step :: "'c \<Rightarrow> 's \<Rightarrow> 's" and used :: "'s \<Rightarrow> nat" and limit :: "'s \<Rightarrow> nat"
    and sound :: "'s \<Rightarrow> bool"
  assumes step_sound: "sound s \<Longrightarrow> sound (step c s)"
    and step_limit: "limit (step c s) = limit s"
    and step_spends: "sound s \<Longrightarrow> used s \<le> limit s \<Longrightarrow> used (step c s) \<le> limit s"
begin

lemma run_limit: "limit (fold step cs s) = limit s"
  by (induction cs arbitrary: s) (simp_all add: step_limit)

lemma run_sound: "sound s \<Longrightarrow> sound (fold step cs s)"
  by (induction cs arbitrary: s) (simp_all add: step_sound)

lemma run_within:
  assumes "sound s" "used s \<le> limit s"
  shows "used (fold step cs s) \<le> limit s"
  using assms
proof (induction cs arbitrary: s)
  case (Cons c cs)
  from Cons.prems have "used (step c s) \<le> limit (step c s)"
    by (simp add: step_limit step_spends)
  with Cons.IH [OF step_sound [OF Cons.prems(1), of c]] show ?case by (simp add: step_limit)
qed simp

end

locale budget = bounded +
  assumes step_keeps: "sound s \<Longrightarrow> used s \<le> used (step c s)"
begin

lemma run_keeps: "sound s \<Longrightarrow> used s \<le> used (fold step cs s)"
proof (induction cs arbitrary: s)
  case (Cons c cs)
  from step_keeps [OF Cons.prems, of c] Cons.IH [OF step_sound [OF Cons.prems, of c]]
  show ?case by simp
qed simp

text \<open>A run that has spent everything spends nothing more.\<close>

lemma run_exhausted:
  assumes "sound s" "used s = limit s"
  shows "used (fold step cs s) = used s"
  using run_within [OF assms(1)] run_keeps [OF assms(1)] assms(2) by (metis le_antisym order_refl)

end

end
