(* ===== verification/GuestHost.thy ===== *)
theory GuestHost
  imports Samples ValueTree EditDistance Budget
begin

text \<open>
  \<open>ruby_host_call\<close> of \<open>src/guest.rs\<close>: what the native guest may ask of the Rust side. The state is
  the \<open>Host\<close> of one execution with the two ends of its pipes, the bytes still to come on standard
  input and the sink of standard output; \<open>sent\<close> and \<open>logged\<close> record the frames written and the
  bytes of the log entries among them, which no code reads.
\<close>

section \<open>State\<close>

record world =
  execution :: string
  h_sequence :: u64
  h_calls :: usize
  call_limit :: usize
  logs :: usize
  log_limit :: usize
  reply :: "tree option"
  h_catalog :: "string list"
  stdin :: bytes
  stdout :: sink
  sent :: "json list"
  logged :: nat

definition start_world :: "request \<Rightarrow> bytes \<Rightarrow> sink \<Rightarrow> world" where
  "start_world req input k =
     \<lparr>execution = execution_id req, h_sequence = 0, h_calls = 0, call_limit = calls (req_limits req),
      logs = 0, log_limit = log_bytes (req_limits req), reply = None, h_catalog = catalog req,
      stdin = input, stdout = k, sent = [], logged = 0\<rparr>"

section \<open>Text\<close>

text \<open>\<open>str::from_utf8\<close>: well-formed UTF-8, on the byte values.\<close>

definition continuation :: "nat \<Rightarrow> bool" where
  "continuation b \<longleftrightarrow> 128 \<le> b \<and> b < 192"

fun utf8_bytes :: "nat list \<Rightarrow> bool" where
  "utf8_bytes [] = True"
| "utf8_bytes (a # r) =
     (if a < 128 then utf8_bytes r
      else case r of
        [] \<Rightarrow> False
      | b # r \<Rightarrow>
          if 194 \<le> a \<and> a < 224 then continuation b \<and> utf8_bytes r
          else case r of
            [] \<Rightarrow> False
          | c # r \<Rightarrow>
              if 224 \<le> a \<and> a < 240 then
                continuation b \<and> (a = 224 \<longrightarrow> 160 \<le> b) \<and> (a = 237 \<longrightarrow> b < 160)
                \<and> continuation c \<and> utf8_bytes r
              else case r of
                [] \<Rightarrow> False
              | d # r \<Rightarrow>
                  240 \<le> a \<and> a < 245 \<and> continuation b \<and> (a = 240 \<longrightarrow> 144 \<le> b) \<and> (a = 244 \<longrightarrow> b < 144)
                  \<and> continuation c \<and> continuation d \<and> utf8_bytes r)"

definition utf8 :: "string \<Rightarrow> bool" where
  "utf8 s = utf8_bytes (map of_char s)"

definition as_bytes :: "string \<Rightarrow> bytes" where
  "as_bytes s = map of_char s"

text \<open>\<open>rsplit_once('.')\<close>, its first half or the empty string: everything before the last dot.\<close>

definition rsplit_prefix :: "string \<Rightarrow> string" where
  "rsplit_prefix path =
     (if CHR ''.'' \<in> set path then rev (tl (dropWhile (\<lambda>c. c \<noteq> CHR ''.'') (rev path))) else [])"

definition starts_with :: "string \<Rightarrow> string \<Rightarrow> bool" where
  "starts_with s prefix \<longleftrightarrow> take (length prefix) s = prefix"

fun join :: "string \<Rightarrow> string list \<Rightarrow> string" where
  "join sep [] = []"
| "join sep [s] = s"
| "join sep (s # ss) = s @ sep @ join sep ss"

definition saturating_add :: "usize \<Rightarrow> nat \<Rightarrow> usize" where
  "saturating_add a n = (if unat a + n < 2 ^ 64 then a + of_nat n else - 1)"

section \<open>Answers\<close>

definition refusal :: "string \<Rightarrow> json" where
  "refusal message = object [(''ok'', Bool False), (''message'', String message)]"

definition success :: "json \<Rightarrow> json" where
  "success value = object [(''ok'', Bool True), (''value'', value)]"

definition suggestions :: "string \<Rightarrow> string list \<Rightarrow> string list" where
  "suggestions path paths =
     (let prefix = rsplit_prefix path;
          candidates = map (\<lambda>candidate. (edit_distance path candidate, candidate))
            (take 4096 (filter (\<lambda>candidate. starts_with candidate prefix) paths))
      in map (\<lambda>(_, path). ''app.'' @ path) (take 3 (sort candidates)))"

definition unknown_reply :: "string \<Rightarrow> string list \<Rightarrow> json" where
  "unknown_reply path paths = object
     [(''ok'', Bool False), (''code'', String ''unknown_function''),
      (''message'', String (''Unknown capability app.'' @ path
         @ ''. No external call was made. Discover with code_read_doc. Closest paths: ''
         @ join '', '' (suggestions path paths)))]"

definition json_reply :: "serde \<Rightarrow> json \<Rightarrow> json" where
  "json_reply S value =
     (case as_str value of
        None \<Rightarrow> refusal ''Invalid JSON data''
      | Some t \<Rightarrow>
          (case from_slice S (as_bytes t) of
             Inl _ \<Rightarrow> refusal ''Invalid JSON data''
           | Inr v \<Rightarrow> success v))"

definition emit :: "serde \<Rightarrow> json \<Rightarrow> world \<Rightarrow> bool \<times> world" where
  "emit S v w =
     (case write_frame S v (stdout w) of
        (Inl _, k) \<Rightarrow> (False, w\<lparr>stdout := k\<rparr>)
      | (Inr _, k) \<Rightarrow> (True, w\<lparr>stdout := k, sent := sent w @ [v]\<rparr>))"

definition log_event :: "world \<Rightarrow> json \<Rightarrow> json" where
  "log_event w value = object
     [(''protocol'', String PROTOCOL), (''execution_id'', String (execution w)),
      (''kind'', String ''log''), (''values'', value)]"

definition call_event :: "world \<Rightarrow> string \<Rightarrow> json \<Rightarrow> json" where
  "call_event w path value = object
     [(''protocol'', String PROTOCOL), (''execution_id'', String (execution w)),
      (''kind'', String ''call''), (''sequence'', int_value (h_sequence w)),
      (''path'', String path), (''args'', value)]"

definition host_log :: "serde \<Rightarrow> json \<Rightarrow> nat \<Rightarrow> world \<Rightarrow> json option \<times> world" where
  "host_log S value len w =
     (let w = w\<lparr>logs := saturating_add (logs w) len\<rparr> in
      if logs w > log_limit w then (Some (refusal ''Log byte budget exceeded''), w)
      else case emit S (log_event w value) w of
        (False, w) \<Rightarrow> (None, w)
      | (True, w) \<Rightarrow> (Some (success Null), w\<lparr>logged := logged w + len\<rparr>))"

definition reply_matches :: "world \<Rightarrow> json \<Rightarrow> bool" where
  "reply_matches w response \<longleftrightarrow>
     \<not> (member response ''protocol'' \<noteq> String PROTOCOL
        \<or> member response ''execution_id'' \<noteq> String (execution w)
        \<or> as_u64 (member response ''sequence'') \<noteq> Some (h_sequence w)
        \<or> member response ''kind'' \<noteq> String ''reply''
        \<or> \<not> is_boolean (member response ''ok''))"

definition host_dispatch :: "serde \<Rightarrow> string \<Rightarrow> json \<Rightarrow> world \<Rightarrow> json option \<times> world" where
  "host_dispatch S path value w =
     (let w = w\<lparr>h_calls := h_calls w + 1, h_sequence := h_sequence w + 1\<rparr> in
      case emit S (call_event w path value) w of
        (False, w) \<Rightarrow> (None, w)
      | (True, w) \<Rightarrow>
          (case read_frame S (stdin w) of
             (Inl _, rest) \<Rightarrow> (None, w\<lparr>stdin := rest\<rparr>)
           | (Inr response, rest) \<Rightarrow>
               if reply_matches w response then (Some response, w\<lparr>stdin := rest\<rparr>)
               else (None, w\<lparr>stdin := rest\<rparr>)))"

section \<open>The callback\<close>

definition answer :: "serde \<Rightarrow> string \<Rightarrow> string \<Rightarrow> bytes \<Rightarrow> world \<Rightarrow> json option \<times> world" where
  "answer S what path args w =
     (if \<not> utf8 what \<or> \<not> utf8 path then (None, w)
      else case from_slice S args of
        Inl _ \<Rightarrow> (None, w)
      | Inr value \<Rightarrow>
          if what = ''unknown'' then (Some (unknown_reply path (h_catalog w)), w)
          else if what = ''json'' then (Some (json_reply S value), w)
          else if what = ''log'' then host_log S value (length args) w
          else if h_calls w \<ge> call_limit w then
            (Some (refusal ''Capability call budget exceeded''), w)
          else host_dispatch S path value w)"

text \<open>Status 0 with the reply stored for the native side, or 1, which it turns into an exception.\<close>

definition host_call :: "serde \<Rightarrow> string \<Rightarrow> string \<Rightarrow> bytes \<Rightarrow> world \<Rightarrow> int \<times> world" where
  "host_call S what path args w =
     (case answer S what path args w of
        (None, w) \<Rightarrow> (1, w)
      | (Some response, w) \<Rightarrow>
          (case tree_new response of
             Inl _ \<Rightarrow> (1, w)
           | Inr t \<Rightarrow> (0, w\<lparr>reply := Some t\<rparr>)))"

text \<open>All the callbacks of one execution, in order.\<close>

type_synonym callback = "string \<times> string \<times> bytes"

fun host_step :: "serde \<Rightarrow> callback \<Rightarrow> world \<Rightarrow> world" where
  "host_step S (what, path, args) w = snd (host_call S what path args w)"

definition host_calls :: "serde \<Rightarrow> callback list \<Rightarrow> world \<Rightarrow> world" where
  "host_calls S cs w = fold (host_step S) cs w"

section \<open>What one callback changes\<close>

text \<open>
  \<open>configured\<close> is the part of a \<open>Host\<close> that never changes; \<open>metered\<close> ties the counters to what
  has been sent.
\<close>

definition configured :: "world \<Rightarrow> string \<times> usize \<times> usize \<times> string list" where
  "configured w = (execution w, call_limit w, log_limit w, h_catalog w)"

definition is_call :: "json \<Rightarrow> bool" where
  "is_call v \<longleftrightarrow> member v ''kind'' = String ''call''"

definition metered :: "world \<Rightarrow> bool" where
  "metered w \<longleftrightarrow> h_sequence w = h_calls w \<and> h_calls w \<le> call_limit w
     \<and> logged w \<le> unat (logs w) \<and> log_limit w < - 1
     \<and> length (filter is_call (sent w)) \<le> unat (h_calls w)"

lemma kind_of_event [simp]:
  "member (log_event w v) ''kind'' = String ''log''"
  "member (call_event w p v) ''kind'' = String ''call''"
  by (simp_all add: log_event_def call_event_def json_simps)

lemma is_call_event [simp]: "\<not> is_call (log_event w v)" "is_call (call_event w p v)"
  by (simp_all add: is_call_def)

lemma saturating_add_within:
  assumes "saturating_add a n \<le> l" "l < - 1"
  shows "unat (saturating_add a n) = unat a + n"
proof -
  from assms have "saturating_add a n \<noteq> - 1" by auto
  then have less: "unat a + n < 2 ^ 64" by (auto simp: saturating_add_def split: if_splits)
  then have n: "unat (of_nat n :: usize) = n"
    by (simp add: unat_of_nat take_bit_eq_mod)
  from less have "saturating_add a n = a + of_nat n" by (simp add: saturating_add_def)
  with n less show ?thesis by (simp add: unat_word_ariths)
qed

lemma saturating_add_mono: "unat a \<le> unat (saturating_add a n)"
proof (cases "unat a + n < 2 ^ 64")
  case True
  then have "unat (of_nat n :: usize) = n"
    by (simp add: unat_of_nat take_bit_eq_mod)
  with True show ?thesis by (simp add: saturating_add_def unat_word_ariths)
next
  case False
  moreover have "unat a < 2 ^ 64" using unsigned_less [of a] by simp
  ultimately show ?thesis by (simp add: saturating_add_def unsigned_minus_1_eq_mask mask_eq_exp_minus_1)
qed

lemma emit_cases:
  "\<exists>k. emit S v w = (False, w\<lparr>stdout := k\<rparr>) \<or>
    emit S v w = (True, w\<lparr>stdout := k, sent := sent w @ [v]\<rparr>)"
  by (auto simp: emit_def split: prod.splits sum.splits)

lemma host_log_metered:
  assumes "metered w"
  shows "metered (snd (host_log S v n w))"
proof -
  obtain k where e: "emit S (log_event (w\<lparr>logs := saturating_add (logs w) n\<rparr>) v)
      (w\<lparr>logs := saturating_add (logs w) n\<rparr>) =
      (False, w\<lparr>logs := saturating_add (logs w) n, stdout := k\<rparr>) \<or>
    emit S (log_event (w\<lparr>logs := saturating_add (logs w) n\<rparr>) v)
      (w\<lparr>logs := saturating_add (logs w) n\<rparr>) =
      (True, w\<lparr>logs := saturating_add (logs w) n, stdout := k,
        sent := sent w @ [log_event (w\<lparr>logs := saturating_add (logs w) n\<rparr>) v]\<rparr>)"
    using emit_cases [of S "log_event (w\<lparr>logs := saturating_add (logs w) n\<rparr>) v"
        "w\<lparr>logs := saturating_add (logs w) n\<rparr>"] by auto
  from saturating_add_mono [of "logs w" n] assms e show ?thesis
    using saturating_add_within [of "logs w" n "log_limit w"]
    by (auto simp: host_log_def metered_def Let_def not_less)
qed

lemma host_log_same:
  "configured (snd (host_log S v n w)) = configured w"
  "h_calls (snd (host_log S v n w)) = h_calls w"
  "h_sequence (snd (host_log S v n w)) = h_sequence w"
  by (auto simp: host_log_def Let_def configured_def emit_def split: prod.splits sum.splits)

lemma host_log_spends:
  assumes "metered w" "logged w \<le> unat (log_limit w)"
  shows "logged (snd (host_log S v n w)) \<le> unat (log_limit w)"
proof (cases "saturating_add (logs w) n \<le> log_limit w")
  case True
  with assms saturating_add_within [of "logs w" n "log_limit w"]
  have "logged w + n \<le> unat (log_limit w)" by (auto simp: metered_def word_le_nat_alt)
  with assms(2) show ?thesis
    by (auto simp: host_log_def Let_def emit_def split: prod.splits sum.splits)
next
  case False
  with assms(2) show ?thesis
    by (auto simp: host_log_def Let_def)
qed

lemma host_log_keeps: "logged w \<le> logged (snd (host_log S v n w))"
  by (auto simp: host_log_def Let_def emit_def split: prod.splits sum.splits)

text \<open>Which fields a dispatched call changes.\<close>

lemma host_dispatch_effect:
  "\<exists>k rest ev. snd (host_dispatch S p v w) =
     w\<lparr>h_calls := h_calls w + 1, h_sequence := h_sequence w + 1, stdout := k, stdin := rest,
       sent := sent w @ ev\<rparr>
   \<and> (ev = [] \<or> ev = [call_event (w\<lparr>h_calls := h_calls w + 1, h_sequence := h_sequence w + 1\<rparr>) p v])"
proof -
  define w1 where "w1 = w\<lparr>h_calls := h_calls w + 1, h_sequence := h_sequence w + 1\<rparr>"
  obtain k where "emit S (call_event w1 p v) w1 = (False, w1\<lparr>stdout := k\<rparr>) \<or>
      emit S (call_event w1 p v) w1 = (True, w1\<lparr>stdout := k, sent := sent w1 @ [call_event w1 p v]\<rparr>)"
    using emit_cases by blast
  then show ?thesis
  proof
    assume "emit S (call_event w1 p v) w1 = (False, w1\<lparr>stdout := k\<rparr>)"
    then show ?thesis
      by (intro exI [of _ k] exI [of _ "stdin w"] exI [of _ "[]"])
        (simp add: host_dispatch_def Let_def flip: w1_def, simp add: w1_def)
  next
    assume e: "emit S (call_event w1 p v) w1 =
      (True, w1\<lparr>stdout := k, sent := sent w1 @ [call_event w1 p v]\<rparr>)"
    obtain r rest where rd: "read_frame S (stdin w) = (r, rest)" by force
    have "snd (host_dispatch S p v w) =
        w1\<lparr>stdout := k, sent := sent w1 @ [call_event w1 p v], stdin := rest\<rparr>"
      using e rd by (simp add: host_dispatch_def Let_def w1_def split: sum.splits)
    then show ?thesis
      by (intro exI [of _ k] exI [of _ rest] exI [of _ "[call_event w1 p v]"]) (simp add: w1_def)
  qed
qed

lemma calls_step:
  assumes "(c :: usize) < l"
  shows "unat (c + 1) = Suc (unat c)" and "c + 1 \<le> l"
proof -
  from assms have "unat c < unat l" by (simp add: word_less_nat_alt)
  moreover have "unat l < 2 ^ 64" using unsigned_less [of l] by simp
  ultimately show s: "unat (c + 1) = Suc (unat c)"
    by (simp add: unat_word_ariths)
  from \<open>unat c < unat l\<close> s show "c + 1 \<le> l" by (simp add: word_le_nat_alt)
qed

lemma host_dispatch_metered:
  assumes "metered w" "h_calls w < call_limit w"
  shows "metered (snd (host_dispatch S p v w))"
  using assms host_dispatch_effect [of S p v w] calls_step [of "h_calls w" "call_limit w"]
  by (auto simp: metered_def)

lemma host_dispatch_same:
  "configured (snd (host_dispatch S p v w)) = configured w"
  "h_calls (snd (host_dispatch S p v w)) = h_calls w + 1"
  "logged (snd (host_dispatch S p v w)) = logged w"
  "logs (snd (host_dispatch S p v w)) = logs w"
  using host_dispatch_effect [of S p v w] by (auto simp: configured_def)

text \<open>The three things a callback can do: nothing, log, or call.\<close>

lemma answer_cases:
  "snd (answer S what path args w) = w
   \<or> (\<exists>v. snd (answer S what path args w) = snd (host_log S v (length args) w))
   \<or> (h_calls w < call_limit w \<and> what \<notin> {''unknown'', ''json'', ''log''} \<and>
      (\<exists>v. from_slice S args = Inr v \<and> snd (answer S what path args w) = snd (host_dispatch S path v w)))"
  by (cases "from_slice S args") (auto simp: answer_def not_le)

lemma host_step_cases:
  obtains (quiet) r where "host_step S c w = w\<lparr>reply := r\<rparr>"
  | (log) v r where "host_step S c w = (snd (host_log S v (length (snd (snd c))) w))\<lparr>reply := r\<rparr>"
  | (call) v r where "h_calls w < call_limit w"
      "host_step S c w = (snd (host_dispatch S (fst (snd c)) v w))\<lparr>reply := r\<rparr>"
      "fst c \<notin> {''unknown'', ''json'', ''log''}" "from_slice S (snd (snd c)) = Inr v"
proof -
  obtain what path args where c: "c = (what, path, args)" by (cases c) auto
  obtain a w' where a: "answer S what path args w = (a, w')" by force
  obtain r where r: "host_step S c w = w'\<lparr>reply := r\<rparr>"
  proof (cases "host_step S c w = w'")
    case True
    then have "host_step S c w = w'\<lparr>reply := reply w'\<rparr>" by simp
    with that show thesis .
  next
    case False
    with a have "\<exists>t. host_step S c w = w'\<lparr>reply := Some t\<rparr>"
      by (auto simp: c host_call_def split: option.splits sum.splits)
    with that show thesis by blast
  qed
  from answer_cases [of S what path args w] a quiet [of r] log call r show thesis
    by (auto simp: c)
qed

lemma metered_reply [simp]: "metered (w\<lparr>reply := r\<rparr>) = metered w"
  by (simp add: metered_def)

lemma configured_reply [simp]: "configured (w\<lparr>reply := r\<rparr>) = configured w"
  by (simp add: configured_def)

lemma host_step_configured: "configured (host_step S c w) = configured w"
  by (cases rule: host_step_cases [of S c w]) (auto simp: host_log_same host_dispatch_same)

lemma host_step_metered: "metered w \<Longrightarrow> metered (host_step S c w)"
  by (cases rule: host_step_cases [of S c w]) (auto simp: host_log_metered host_dispatch_metered)

lemma host_step_calls:
  "h_calls (host_step S c w) = h_calls w
   \<or> h_calls w < call_limit w \<and> h_calls (host_step S c w) = h_calls w + 1"
  by (cases rule: host_step_cases [of S c w]) (auto simp: host_log_same host_dispatch_same)

lemma host_step_limits [simp]:
  "call_limit (host_step S c w) = call_limit w" "log_limit (host_step S c w) = log_limit w"
  "execution (host_step S c w) = execution w" "h_catalog (host_step S c w) = h_catalog w"
  using host_step_configured [of S c w] by (simp_all add: configured_def)

lemma host_step_logged:
  assumes "metered w"
  shows "logged w \<le> unat (log_limit w) \<Longrightarrow> logged (host_step S c w) \<le> unat (log_limit w)"
    and "logged w \<le> logged (host_step S c w)"
  using assms
  by (cases rule: host_step_cases [of S c w];
      auto simp: host_log_spends host_log_keeps host_dispatch_same)+

section \<open>Budgets\<close>

interpretation calls_budget: budget "host_step S" "\<lambda>w. unat (h_calls w)" "\<lambda>w. unat (call_limit w)"
  metered for S
proof unfold_locales
  fix c w
  show "metered w \<Longrightarrow> metered (host_step S c w)" by (rule host_step_metered)
  show "unat (call_limit (host_step S c w)) = unat (call_limit w)" by simp
  show "unat (h_calls w) \<le> unat (call_limit w) \<Longrightarrow>
      unat (h_calls (host_step S c w)) \<le> unat (call_limit w)"
    using host_step_calls [of S c w] calls_step [of "h_calls w" "call_limit w"]
    by (auto simp: word_le_nat_alt)
  show "unat (h_calls w) \<le> unat (h_calls (host_step S c w))"
    using host_step_calls [of S c w] calls_step [of "h_calls w" "call_limit w"] by auto
qed

interpretation log_budget: budget "host_step S" logged "\<lambda>w. unat (log_limit w)" metered for S
  by unfold_locales (simp_all add: host_step_metered host_step_logged)

lemma start_metered:
  assumes "validate req = Inr ()"
  shows "metered (start_world req input k)"
proof -
  from assms have "log_bytes (req_limits req) \<le> 1024 * 1024"
    by (simp add: validate_Inr within_ceilings_def not_less)
  then show ?thesis by (auto simp: metered_def start_world_def word_le_nat_alt word_less_nat_alt
        unsigned_minus_1_eq_mask mask_eq_exp_minus_1)
qed

section \<open>The frames sent\<close>

definition call_numbers :: "json list \<Rightarrow> nat list" where
  "call_numbers vs =
     map (\<lambda>v. case as_u64 (member v ''sequence'') of None \<Rightarrow> 0 | Some n \<Rightarrow> unat n) (filter is_call vs)"

definition from_execution :: "string \<Rightarrow> json \<Rightarrow> bool" where
  "from_execution ex v \<longleftrightarrow>
     member v ''protocol'' = String PROTOCOL \<and> member v ''execution_id'' = String ex"

definition numbered :: "world \<Rightarrow> bool" where
  "numbered w \<longleftrightarrow> sorted_wrt (<) (call_numbers (sent w))
     \<and> list_all (\<lambda>n. 0 < n \<and> n \<le> unat (h_calls w)) (call_numbers (sent w))
     \<and> list_all (from_execution (execution w)) (sent w)
     \<and> list_all (\<lambda>v. is_call v \<or> member v ''kind'' = String ''log'') (sent w)"

lemma from_execution_event [simp]:
  "from_execution ex (log_event w v) \<longleftrightarrow> execution w = ex"
  "from_execution ex (call_event w p v) \<longleftrightarrow> execution w = ex"
  by (simp_all add: from_execution_def log_event_def call_event_def json_simps)

lemma call_numbers_snoc [simp]:
  "call_numbers (vs @ [log_event w v]) = call_numbers vs"
  "call_numbers (vs @ [call_event w p v]) = call_numbers vs @ [unat (h_sequence w)]"
  by (simp_all add: call_numbers_def) (simp add: call_event_def json_simps int_value_def)

lemma host_log_sent:
  "\<exists>ev. sent (snd (host_log S v n w)) = sent w @ ev
     \<and> (ev = [] \<or> (\<exists>w'. execution w' = execution w \<and> ev = [log_event w' v]))"
proof -
  define w1 where "w1 = w\<lparr>logs := saturating_add (logs w) n\<rparr>"
  have "sent (snd (host_log S v n w)) = sent w \<or>
      sent (snd (host_log S v n w)) = sent w @ [log_event w1 v]"
    by (auto simp: host_log_def Let_def emit_def w1_def split: prod.splits sum.splits)
  moreover have "execution w1 = execution w" by (simp add: w1_def)
  ultimately show ?thesis by (auto intro: exI [of _ "[]"])
qed

lemma numbered_reply [simp]: "numbered (w\<lparr>reply := r\<rparr>) = numbered w"
  by (simp add: numbered_def)

lemma numbered_same:
  assumes "numbered w" "h_calls w' = h_calls w" "execution w' = execution w"
    "sent w' = sent w \<or> (\<exists>u v. execution u = execution w \<and> sent w' = sent w @ [log_event u v])"
  shows "numbered w'"
  using assms by (auto simp: numbered_def)

lemma host_step_numbered:
  assumes "metered w" "numbered w"
  shows "numbered (host_step S c w)"
proof (cases rule: host_step_cases [of S c w])
  case (quiet r)
  with assms show ?thesis by simp
next
  case (log v r)
  have "numbered (snd (host_log S v (length (snd (snd c))) w))"
    using host_log_sent [of S v "length (snd (snd c))" w] host_log_same [of S v "length (snd (snd c))" w]
    by (intro numbered_same [OF assms(2)]) (auto simp: configured_def)
  with log show ?thesis by simp
next
  case (call v r)
  from host_dispatch_effect [of S "fst (snd c)" v w] obtain k rest ev where
    e: "snd (host_dispatch S (fst (snd c)) v w) = w\<lparr>h_calls := h_calls w + 1,
        h_sequence := h_sequence w + 1, stdout := k, stdin := rest, sent := sent w @ ev\<rparr>"
    and ev: "ev = [] \<or> ev = [call_event (w\<lparr>h_calls := h_calls w + 1,
        h_sequence := h_sequence w + 1\<rparr>) (fst (snd c)) v]"
    by blast
  have n: "unat (h_calls w + 1) = Suc (unat (h_calls w))" by (rule calls_step [OF call(1)])
  have s: "h_sequence w = h_calls w" using assms(1) by (simp add: metered_def)
  from assms(2) have "list_all (\<lambda>n. 0 < n \<and> n \<le> unat (h_calls w)) (call_numbers (sent w))"
    by (simp add: numbered_def)
  then have *: "list_all (\<lambda>n. 0 < n \<and> n \<le> Suc (unat (h_calls w))) (call_numbers (sent w))"
    "\<forall>m \<in> set (call_numbers (sent w)). m < Suc (unat (h_calls w))"
    by (auto simp: list_all_iff)
  from ev show ?thesis
    using assms(2) * by (auto simp: call(2) e numbered_def n s sorted_wrt_append)
qed

lemma host_calls_metered: "metered w \<Longrightarrow> metered (host_calls S cs w)"
  unfolding host_calls_def by (rule calls_budget.run_sound)

lemma host_calls_numbered:
  "metered w \<Longrightarrow> numbered w \<Longrightarrow> numbered (host_calls S cs w)"
  unfolding host_calls_def
  by (induction cs arbitrary: w) (simp_all add: host_step_numbered host_step_metered)

lemma host_calls_configured: "configured (host_calls S cs w) = configured w"
  unfolding host_calls_def
  by (induction cs arbitrary: w) (simp_all add: host_step_configured)

section \<open>Suggestions\<close>

lemma sorted_take: "sorted xs \<Longrightarrow> sorted (take n xs)"
  by (rule sorted_wrt_take)

lemma sorted_map_fst: "sorted (xs :: (nat \<times> string) list) \<Longrightarrow> sorted (map fst xs)"
  unfolding sorted_map by (erule sorted_wrt_mono_rel [rotated]) (auto simp: less_eq_prod_def)

lemma sorted_taken_least:
  assumes "sorted xs" "x \<in> set xs" "x \<notin> set (take n xs)" "y \<in> set (take n xs)"
  shows "y \<le> x \<and> n \<le> length xs"
proof -
  have "xs = take n xs @ drop n xs" by simp
  with assms have "x \<in> set (drop n xs)" by (metis Un_iff set_append)
  moreover have "\<forall>y \<in> set (take n xs). \<forall>x \<in> set (drop n xs). y \<le> x"
    using assms(1) sorted_append [of "take n xs" "drop n xs"] by simp
  moreover from calculation(1) have "n \<le> length xs" by (cases "n \<le> length xs") simp_all
  ultimately show ?thesis using assms(4) by blast
qed

text \<open>
  The candidates a suggestion is chosen from, ranked by distance and then by path, and the three
  that are chosen.
\<close>

definition near_paths :: "string \<Rightarrow> string list \<Rightarrow> string list" where
  "near_paths path paths = take 4096 (filter (\<lambda>c. starts_with c (rsplit_prefix path)) paths)"

definition ranked :: "string \<Rightarrow> string list \<Rightarrow> (nat \<times> string) list" where
  "ranked path cs = sort (map (\<lambda>c. (edit_distance path c, c)) cs)"

definition chosen :: "string \<Rightarrow> string list \<Rightarrow> string list" where
  "chosen path cs = map snd (take 3 (ranked path cs))"

lemma suggestions_chosen:
  "suggestions path paths = map (\<lambda>c. ''app.'' @ c) (chosen path (near_paths path paths))"
  by (simp add: suggestions_def Let_def chosen_def ranked_def near_paths_def case_prod_beta comp_def)

lemma set_ranked: "set (ranked path cs) = (\<lambda>c. (edit_distance path c, c)) ` set cs"
  by (simp add: ranked_def)

lemma set_take_ranked:
  "(n, c) \<in> set (take 3 (ranked path cs)) \<Longrightarrow> n = edit_distance path c \<and> c \<in> set cs"
  using set_take_subset [of 3 "ranked path cs"] by (auto simp: set_ranked)

lemma set_chosen: "set (chosen path cs) \<subseteq> set cs"
  by (auto simp: chosen_def dest: set_take_ranked)

lemma sorted_chosen: "sorted (map (edit_distance path) (chosen path cs))"
proof -
  have "map (edit_distance path) (chosen path cs) = map fst (take 3 (ranked path cs))"
    by (auto simp: chosen_def dest: set_take_ranked)
  then show ?thesis
    by (simp add: sorted_map_fst sorted_take ranked_def)
qed

lemma chosen_least:
  assumes "c \<in> set cs"
  shows "c \<in> set (chosen path cs) \<or> length (chosen path cs) = 3
    \<and> list_all (\<lambda>d. edit_distance path d \<le> edit_distance path c) (chosen path cs)"
proof (cases "(edit_distance path c, c) \<in> set (take 3 (ranked path cs))")
  case True
  then show ?thesis by (force simp: chosen_def)
next
  case False
  have mem: "(edit_distance path c, c) \<in> set (ranked path cs)" using assms by (simp add: set_ranked)
  have sorted: "sorted (ranked path cs)" by (simp add: ranked_def)
  have "3 \<le> length (ranked path cs)" using mem False by (metis linorder_not_le take_all nat_less_le)
  moreover have "edit_distance path d \<le> edit_distance path c" if d: "d \<in> set (chosen path cs)" for d
  proof -
    from d obtain n where n: "(n, d) \<in> set (take 3 (ranked path cs))" by (auto simp: chosen_def)
    with sorted_taken_least [OF sorted mem False] set_take_ranked
    have "(edit_distance path d, d) \<le> (edit_distance path c, c)" by blast
    then show ?thesis by (auto simp: less_eq_prod_def)
  qed
  ultimately show ?thesis by (simp add: chosen_def list_all_iff)
qed

lemma set_near_paths:
  "set (near_paths path paths) \<subseteq> {c \<in> set paths. starts_with c (rsplit_prefix path)}"
  by (auto simp: near_paths_def dest: in_set_takeD)

section \<open>One call\<close>

lemma call_utf8: "utf8 ''call''"
  by code_simp

lemma host_dispatch_answered:
  assumes "room (stdout w) = None" and "read_frame S (stdin w) = (Inr response, rest)"
    and "w1 = w\<lparr>h_calls := h_calls w + 1, h_sequence := h_sequence w + 1\<rparr>"
    and "frameable S (call_event w1 path value)" and "reply_matches w1 response"
  shows "host_dispatch S path value w = (Some response, w1\<lparr>
    stdout := (stdout w)\<lparr>written := written (stdout w) @ frame S (call_event w1 path value)\<rparr>,
    sent := sent w @ [call_event w1 path value], stdin := rest\<rparr>)"
proof -
  have e: "emit S (call_event w1 path value) w1 = (True, w1\<lparr>
      stdout := (stdout w)\<lparr>written := written (stdout w) @ frame S (call_event w1 path value)\<rparr>,
      sent := sent w @ [call_event w1 path value]\<rparr>)"
    using assms(1,3,4) by (simp add: emit_def write_frame_unbounded)
  have m: "reply_matches (w1\<lparr>stdout := a, sent := b\<rparr>) response" for a b
    using assms(5) by (simp add: reply_matches_def)
  show ?thesis
    using e m assms(2) by (simp add: host_dispatch_def Let_def assms(3))
qed

lemma host_call_answered:
  assumes "utf8 path" "from_slice S args = Inr value" "h_calls w < call_limit w"
    and "room (stdout w) = None" and "stdin w = frame S response @ rest"
    and "frameable S response" "codec_ok S response" "tree_new response = Inr t"
    and "reply_matches (w\<lparr>h_sequence := h_sequence w + 1\<rparr>) response"
    and "frameable S (call_event (w\<lparr>h_sequence := h_sequence w + 1\<rparr>) path value)"
  shows "host_call S ''call'' path args w = (0, w\<lparr>h_calls := h_calls w + 1,
    h_sequence := h_sequence w + 1,
    stdout := (stdout w)\<lparr>written := written (stdout w)
      @ frame S (call_event (w\<lparr>h_sequence := h_sequence w + 1\<rparr>) path value)\<rparr>,
    sent := sent w @ [call_event (w\<lparr>h_sequence := h_sequence w + 1\<rparr>) path value],
    stdin := rest, reply := Some t\<rparr>)"
proof -
  let ?w1 = "w\<lparr>h_calls := h_calls w + 1, h_sequence := h_sequence w + 1\<rparr>"
  have ev: "call_event ?w1 path value = call_event (w\<lparr>h_sequence := h_sequence w + 1\<rparr>) path value"
    by (simp add: call_event_def)
  have "reply_matches ?w1 response" using assms(9) by (simp add: reply_matches_def)
  then have d: "host_dispatch S path value w = (Some response, ?w1\<lparr>
    stdout := (stdout w)\<lparr>written := written (stdout w) @ frame S (call_event ?w1 path value)\<rparr>,
    sent := sent w @ [call_event ?w1 path value], stdin := rest\<rparr>)"
    using assms by (intro host_dispatch_answered) (simp_all add: read_frame_frame ev)
  from assms(1-3) call_utf8 have "answer S ''call'' path args w = host_dispatch S path value w"
    by (auto simp: answer_def)
  with d assms(8) show ?thesis by (simp add: host_call_def ev)
qed

section \<open>A concrete call\<close>

text \<open>For the witnesses: the sample request, and a host that answers its first call with \<open>null\<close>.\<close>

definition sample_reply :: json where
  "sample_reply = object
     [(''protocol'', String PROTOCOL), (''execution_id'', String ''run''), (''kind'', String ''reply''),
      (''sequence'', int_value 1), (''ok'', Bool True), (''value'', Null)]"

definition sample_world :: world where
  "sample_world = start_world sample_request (frame (sample_codec sample_reply) sample_reply @ [9])
     \<lparr>written = [], room = None, fault = frame_limit_error\<rparr>"

lemma sample_reply_matches: "reply_matches (sample_world\<lparr>h_sequence := 1\<rparr>) sample_reply"
  by (simp add: reply_matches_def sample_reply_def sample_world_def start_world_def json_simps
      int_value_def sample_request_def)

lemma sample_reply_crosses: "\<exists>t. tree_new sample_reply = Inr t"
proof -
  have "\<not> isl (tree_new sample_reply)" by code_simp
  then show ?thesis by (cases "tree_new sample_reply") auto
qed

lemma sample_path_utf8: "utf8 ''records.list''"
  by code_simp

lemma sample_world_simps [simp]:
  "h_calls sample_world = 0" "h_sequence sample_world = 0" "call_limit sample_world = 50"
  "room (stdout sample_world) = None"
  "stdin sample_world = frame (sample_codec sample_reply) sample_reply @ [9]"
  by (simp_all add: sample_world_def start_world_def sample_request_def default_limits_def)

lemma sample_read [simp]: "read_frame (sample_codec v) [0, 0, 0, 1, 116, 9] = (Inr v, [9])"
  using read_frame_frame [of "sample_codec v" v "[9]"] by simp

section \<open>Properties\<close>

text \<open>
  C6: an execution stays in its budgets. Whatever callbacks the Ruby program causes, the number of
  calls dispatched is at most the request's, no more call frames than that are written, and the
  log entries written have at most the request's log bytes between them.
\<close>
theorem execution_stays_in_budget:
  assumes "validate req = Inr ()"
  shows "let w = host_calls S cs (start_world req input k) in
    unat (h_calls w) \<le> unat (calls (req_limits req))
    \<and> length (filter is_call (sent w)) \<le> unat (h_calls w)
    \<and> logged w \<le> unat (log_bytes (req_limits req))"
proof -
  let ?w = "start_world req input k"
  have m: "metered ?w" by (rule start_metered [OF assms])
  have "length (filter is_call (sent (host_calls S cs ?w))) \<le> unat (h_calls (host_calls S cs ?w))"
    using host_calls_metered [OF m] by (simp add: metered_def)
  then show ?thesis
    using calls_budget.run_within [OF m, of S cs] log_budget.run_within [OF m, of S cs]
    by (simp add: start_world_def host_calls_def)
qed

theorem execution_stays_in_budget_witness:
  "let w = host_calls (sample_codec Null) [(''call'', ''records.list'', [116]), (''log'', [], [116])]
       (start_world sample_request [] \<lparr>written = [], room = Some 5, fault = frame_limit_error\<rparr>) in
    unat (h_calls w) \<le> 50 \<and> length (filter is_call (sent w)) \<le> unat (h_calls w) \<and> logged w \<le> 65536"
  using execution_stays_in_budget [OF sample_request_valid, of "sample_codec Null"
      "[(''call'', ''records.list'', [116]), (''log'', [], [116])]" "[]"
      "\<lparr>written = [], room = Some 5, fault = frame_limit_error\<rparr>"]
  by (simp add: sample_request_def default_limits_def)

text \<open>
  Every frame the guest writes names its protocol and its execution, and its call frames are
  numbered upwards from 1 with no number used twice, also when some of the writes failed.
\<close>
theorem call_frames_numbered:
  assumes "validate req = Inr ()"
  shows "let w = host_calls S cs (start_world req input k) in
    sorted_wrt (<) (call_numbers (sent w))
    \<and> list_all (\<lambda>n. 0 < n \<and> n \<le> unat (h_calls w)) (call_numbers (sent w))
    \<and> list_all (from_execution (execution_id req)) (sent w)"
proof -
  let ?w = "start_world req input k"
  have "numbered ?w" by (simp add: numbered_def start_world_def call_numbers_def)
  then have "numbered (host_calls S cs ?w)"
    by (rule host_calls_numbered [OF start_metered [OF assms]])
  moreover have "execution (host_calls S cs ?w) = execution_id req"
    using host_calls_configured [of S cs ?w] by (simp add: configured_def start_world_def)
  ultimately show ?thesis by (simp add: numbered_def)
qed

theorem call_frames_numbered_witness:
  "let w = host_calls (sample_codec Null) [(''call'', ''records.list'', [116])]
       (start_world sample_request [] \<lparr>written = [], room = None, fault = frame_limit_error\<rparr>) in
    sorted_wrt (<) (call_numbers (sent w))
    \<and> list_all (\<lambda>n. 0 < n \<and> n \<le> unat (h_calls w)) (call_numbers (sent w))
    \<and> list_all (from_execution ''run'') (sent w)"
  using call_frames_numbered [OF sample_request_valid, of "sample_codec Null"
      "[(''call'', ''records.list'', [116])]" "[]"
      "\<lparr>written = [], room = None, fault = frame_limit_error\<rparr>"]
  by (simp add: sample_request_def)

text \<open>
  A callback that is not entitled to an effect has none. An unknown path, a JSON parse and a
  call after the budget is spent write no frame, read no byte and count nothing: all that changes
  is the stored reply.
\<close>
theorem quiet_callbacks:
  assumes "what = ''unknown'' \<or> what = ''json'' \<or> (what \<noteq> ''log'' \<and> call_limit w \<le> h_calls w)"
  shows "\<exists>status r. host_call S what path args w = (status, w\<lparr>reply := r\<rparr>)"
proof -
  have a: "snd (answer S what path args w) = w"
    using assms by (cases "from_slice S args") (auto simp: answer_def)
  obtain r w' where "answer S what path args w = (r, w')" by force
  with a have "answer S what path args w = (r, w)" by simp
  then have "host_call S what path args w = (1, w\<lparr>reply := reply w\<rparr>)
      \<or> (\<exists>t. host_call S what path args w = (0, w\<lparr>reply := Some t\<rparr>))"
    by (auto simp: host_call_def split: option.splits sum.splits)
  then show ?thesis by blast
qed

theorem quiet_callbacks_witness:
  "\<exists>status r. host_call (sample_codec Null) ''unknown'' ''record'' [116]
     sample_world = (status, sample_world\<lparr>reply := r\<rparr>)"
  by (rule quiet_callbacks) simp


text \<open>
  C22: a capability call is answered by the one frame the host sends next and only by a reply to
  this very call. When the callback succeeds, that frame names the protocol, this execution, the
  number just sent and a boolean \<open>ok\<close>, and exactly its value is handed to Ruby.
\<close>
theorem reply_is_checked:
  assumes "host_call S ''call'' path args w = (0, w')" and "h_calls w < call_limit w"
  shows "\<exists>response t. fst (read_frame S (stdin w)) = Inr response
    \<and> from_execution (execution w) response
    \<and> as_u64 (member response ''sequence'') = Some (h_sequence w + 1)
    \<and> member response ''kind'' = String ''reply'' \<and> is_boolean (member response ''ok'')
    \<and> tree_new response = Inr t \<and> reply w' = Some t
    \<and> stdin w' = snd (read_frame S (stdin w)) \<and> h_calls w' = h_calls w + 1"
proof -
  obtain a w2 where a: "answer S ''call'' path args w = (a, w2)" by force
  with assms(1) obtain response t where r: "a = Some response" "tree_new response = Inr t"
    and w': "w' = w2\<lparr>reply := Some t\<rparr>"
    by (auto simp: host_call_def split: option.splits sum.splits)
  with a assms(2) obtain v where d: "host_dispatch S path v w = (Some response, w2)"
    by (auto simp: answer_def split: if_splits sum.splits)
  obtain res rest where rd: "read_frame S (stdin w) = (res, rest)" by force
  from d have "fst (read_frame S (stdin w)) = Inr response \<and> from_execution (execution w) response
    \<and> as_u64 (member response ''sequence'') = Some (h_sequence w + 1)
    \<and> member response ''kind'' = String ''reply'' \<and> is_boolean (member response ''ok'')
    \<and> stdin w2 = rest \<and> h_calls w2 = h_calls w + 1"
    by (auto simp: host_dispatch_def Let_def emit_def rd reply_matches_def from_execution_def
        split: prod.splits sum.splits if_splits)
  with r w' rd show ?thesis by simp
qed

theorem reply_is_checked_witness:
  "\<exists>response. fst (read_frame (sample_codec sample_reply) (stdin sample_world)) = Inr response
    \<and> as_u64 (member response ''sequence'') = Some 1"
proof -
  obtain status w' where c: "host_call (sample_codec sample_reply) ''call'' ''records.list'' [116]
      sample_world = (status, w')" by force
  have "reply_matches (sample_world\<lparr>h_calls := 1, h_sequence := 1\<rparr>) sample_reply"
    using sample_reply_matches by (simp add: reply_matches_def)
  then obtain w2 where d: "host_dispatch (sample_codec sample_reply) ''records.list'' sample_reply
      sample_world = (Some sample_reply, w2)"
    using host_dispatch_answered [of sample_world "sample_codec sample_reply" sample_reply "[9]"
        "sample_world\<lparr>h_calls := 1, h_sequence := 1\<rparr>" "''records.list''" sample_reply]
    by simp
  have "from_slice (sample_codec sample_reply) [116] = Inr sample_reply"
    by (simp add: sample_codec_def)
  with d have "answer (sample_codec sample_reply) ''call'' ''records.list'' [116] sample_world =
      (Some sample_reply, w2)"
    using sample_path_utf8 call_utf8 by (simp add: answer_def)
  with c have "status = 0"
    using sample_reply_crosses by (auto simp: host_call_def)
  with c show ?thesis
    using reply_is_checked [of "sample_codec sample_reply" "''records.list''" "[116]" sample_world w']
    by auto
qed

text \<open>
  Conversely a well-behaved host is always heard. If the call's frame goes out, and the host's
  next frame is a matching reply that can cross to the native side, the callback succeeds: it has
  written exactly the one call frame, read exactly the one reply, and counted one call.
\<close>
theorem answered_call_succeeds:
  assumes "utf8 path" "from_slice S args = Inr value" "h_calls w < call_limit w"
    and "room (stdout w) = None" and "stdin w = frame S response @ rest"
    and "frameable S response" "codec_ok S response" "tree_new response = Inr t"
    and "reply_matches (w\<lparr>h_sequence := h_sequence w + 1\<rparr>) response"
    and "frameable S (call_event (w\<lparr>h_sequence := h_sequence w + 1\<rparr>) path value)"
  shows "host_call S ''call'' path args w = (0, w\<lparr>h_calls := h_calls w + 1,
    h_sequence := h_sequence w + 1,
    stdout := (stdout w)\<lparr>written := written (stdout w)
      @ frame S (call_event (w\<lparr>h_sequence := h_sequence w + 1\<rparr>) path value)\<rparr>,
    sent := sent w @ [call_event (w\<lparr>h_sequence := h_sequence w + 1\<rparr>) path value],
    stdin := rest, reply := Some t\<rparr>)"
  using assms by (rule host_call_answered)

theorem answered_call_succeeds_witness:
  "\<exists>w'. host_call (sample_codec sample_reply) ''call'' ''records.list'' [116] sample_world = (0, w')
     \<and> stdin w' = [9] \<and> h_calls w' = 1 \<and> written (stdout w') = [0, 0, 0, 1, 116]"
proof -
  have k: "written (stdout sample_world) = []"
    by (simp add: sample_world_def start_world_def)
  have p: "from_slice (sample_codec sample_reply) [116] = Inr sample_reply"
    by (simp add: sample_codec_def)
  obtain t where t: "tree_new sample_reply = Inr t" using sample_reply_crosses by blast
  show ?thesis
    using answered_call_succeeds [OF sample_path_utf8 p _ _ _ _ _ t, of sample_world
        "[9]"] sample_reply_matches
    by (simp add: k)
qed

end
