(* ===== verification/GuestRun.thy ===== *)
theory GuestRun
  imports GuestHost
begin

text \<open>
  \<open>run\<close> of \<open>src/guest.rs\<close>: one execution from the admitted request to the terminal event. The
  native executor \<open>ruby_execute\<close> owns an mruby VM, which is no part of the repository; it is a
  parameter, a strategy that looks at the answers so far and then makes the next callback,
  finishes with a result, or ends the process. \<open>fuel\<close> bounds the callbacks of a run.
\<close>

section \<open>The native interface\<close>

text \<open>
  The two node arrays are passed as the trees that own them, since the text pointers of the nodes
  point into the strings of the tree.
\<close>

record native_request =
  n_source :: string
  n_filename :: string
  n_globals :: tree
  n_catalog :: tree
  memory_limit :: usize
  instruction_limit :: u64
  result_limit :: usize
  n_validate_only :: int
  capabilities :: int

record native_result =
  r_json :: "bytes option"
  error_buffer :: string
  error_type :: string
  r_line :: int
  r_column :: int
  r_status :: int
  peak_memory :: usize
  r_instructions :: u64

datatype native_end = Finished native_result | Exited int

datatype native_step = Callback string string bytes | End native_end

type_synonym native = "native_request \<Rightarrow> (int \<times> tree option) list \<Rightarrow> native_step"

fun execute :: "serde \<Rightarrow> native \<Rightarrow> native_request \<Rightarrow> nat \<Rightarrow> (int \<times> tree option) list \<Rightarrow> world \<Rightarrow>
    native_end option \<times> world" where
  "execute S N q 0 answers w = (None, w)"
| "execute S N q (Suc n) answers w =
     (case N q answers of
        Callback what path args \<Rightarrow>
          (case host_call S what path args w of (status, w) \<Rightarrow>
             execute S N q n (answers @ [(status, if status = 0 then reply w else None)]) w)
      | End e \<Rightarrow> (Some e, w))"

section \<open>C strings\<close>

text \<open>
  \<open>CStr::from_ptr\<close> reads up to the first zero byte. \<open>to_string_lossy\<close> replaces every maximal
  prefix of a broken sequence by U+FFFD.
\<close>

definition c_string :: "string \<Rightarrow> string" where
  "c_string s = takeWhile (\<lambda>c. c \<noteq> CHR 0x00) s"

definition replacement :: "nat list" where
  "replacement = [239, 191, 189]"

definition second_of_three :: "nat \<Rightarrow> nat \<Rightarrow> bool" where
  "second_of_three a b \<longleftrightarrow>
     continuation b \<and> (a = 224 \<longrightarrow> 160 \<le> b) \<and> (a = 237 \<longrightarrow> b < 160)"

definition second_of_four :: "nat \<Rightarrow> nat \<Rightarrow> bool" where
  "second_of_four a b \<longleftrightarrow>
     continuation b \<and> (a = 240 \<longrightarrow> 144 \<le> b) \<and> (a = 244 \<longrightarrow> b < 144)"

fun lossy :: "nat list \<Rightarrow> nat list" where
  "lossy [] = []"
| "lossy [a] = (if a < 128 then [a] else replacement)"
| "lossy (a # b # r) =
     (if a < 128 then a # lossy (b # r)
      else if 194 \<le> a \<and> a < 224 \<and> continuation b then a # b # lossy r
      else if 224 \<le> a \<and> a < 240 \<and> second_of_three a b then
        (case r of
           [] \<Rightarrow> replacement
         | c # r' \<Rightarrow> if continuation c then a # b # c # lossy r' else replacement @ lossy r)
      else if 240 \<le> a \<and> a < 245 \<and> second_of_four a b then
        (case r of
           [] \<Rightarrow> replacement
         | c # r' \<Rightarrow>
             if \<not> continuation c then replacement @ lossy r
             else (case r' of
                     [] \<Rightarrow> replacement
                   | d # r'' \<Rightarrow>
                       if continuation d then a # b # c # d # lossy r''
                       else replacement @ lossy r'))
      else replacement @ lossy (b # r))"

definition to_string_lossy :: "string \<Rightarrow> string" where
  "to_string_lossy s = map char_of (lossy (map of_char s))"

section \<open>The run\<close>

fun tree_error_text :: "tree_error \<Rightarrow> string" where
  "tree_error_text NestingExceedsLimit = ''Host value nesting exceeds limit''"
| "tree_error_text IntegerOutOfRange = ''Integer is outside signed 64-bit range''"

definition native_request_of :: "request \<Rightarrow> tree \<Rightarrow> tree \<Rightarrow> native_request" where
  "native_request_of req globs cat =
     \<lparr>n_source = source req, n_filename = filename req, n_globals = globs,
      n_catalog = cat, memory_limit = memory_bytes (req_limits req),
      instruction_limit = instructions (req_limits req),
      result_limit = result_bytes (req_limits req),
      n_validate_only = (if validate_only req then 1 else 0),
      capabilities = (if catalog req \<noteq> [] then 1 else 0)\<rparr>"

definition error_kind_of :: "native_result \<Rightarrow> string" where
  "error_kind_of r =
     (if c_string (error_type r) \<noteq> [] then
        (if utf8 (c_string (error_type r)) then c_string (error_type r) else ''ruby_error'')
      else if r_status r = 1 then ''syntax_error''
      else if r_status r = 3 then ''profile_error''
      else ''ruby_error'')"

definition error_value :: "request \<Rightarrow> native_result \<Rightarrow> json" where
  "error_value req r =
     (if r_status r \<noteq> 0 then object
        [(''type'', String (error_kind_of r)),
         (''message'', String (to_string_lossy (c_string (error_buffer r)))),
         (''source'', String (filename req)),
         (''line'', if r_line r > 0 then int_value (of_int (r_line r)) else Null),
         (''column'', if r_line r > 0 \<and> r_column r \<ge> 0 then int_value (of_int (r_column r)) else Null)]
      else Null)"

definition result_value :: "serde \<Rightarrow> native_result \<Rightarrow> string + json" where
  "result_value S r =
     (case r_json r of
        None \<Rightarrow> Inr Null
      | Some bs \<Rightarrow>
          (case from_slice S bs of
             Inl _ \<Rightarrow> Inl ''Result is not valid UTF-8 structured data''
           | Inr v \<Rightarrow> Inr v))"

definition completed_event :: "request \<Rightarrow> native_result \<Rightarrow> world \<Rightarrow> f64 option \<Rightarrow> json \<Rightarrow> json" where
  "completed_event req r w cpu v = object
     [(''protocol'', String PROTOCOL), (''profile'', String PROFILE),
      (''execution_id'', String (execution_id req)), (''kind'', String ''completed''),
      (''validated_only'', Bool (validate_only req)), (''result'', v),
      (''error'', error_value req r),
      (''usage'', object
         [(''peak_memory_bytes'', int_value (peak_memory r)),
          (''instructions'', int_value (r_instructions r)), (''calls'', int_value (h_calls w)),
          (''cpu_ms'', case cpu of None \<Rightarrow> Null | Some ms \<Rightarrow> Number (Float ms))])]"

text \<open>A run returns an event or an error, unless the process ends inside the executor.\<close>

datatype run_outcome = Event json | RunError string | ProcessExit int

definition guest_run :: "serde \<Rightarrow> native \<Rightarrow> nat \<Rightarrow> f64 option \<Rightarrow> request \<Rightarrow> bytes \<Rightarrow> sink \<Rightarrow>
    run_outcome option \<times> world" where
  "guest_run S N fuel cpu req input k =
     (let w = start_world req input k in
      case validate req of
        Inl e \<Rightarrow> (Some (RunError (request_error_text e)), w)
      | Inr _ \<Rightarrow>
        (case tree_new (globals req) of
           Inl e \<Rightarrow> (Some (RunError (tree_error_text e)), w)
         | Inr globs \<Rightarrow>
           (case tree_new (Array (map String (catalog req))) of
              Inl e \<Rightarrow> (Some (RunError (tree_error_text e)), w)
            | Inr cat \<Rightarrow>
              if CHR 0x00 \<in> set (filename req) then (Some (RunError ''Invalid source name''), w)
              else (case execute S N (native_request_of req globs cat) fuel [] w of
                      (None, w) \<Rightarrow> (None, w)
                    | (Some (Exited c), w) \<Rightarrow> (Some (ProcessExit c), w)
                    | (Some (Finished r), w) \<Rightarrow>
                        (case result_value S r of
                           Inl e \<Rightarrow> (Some (RunError e), w)
                         | Inr v \<Rightarrow> (Some (Event (completed_event req r w cpu v)), w))))))"

section \<open>The executor acts only through its callbacks\<close>

lemma host_calls_Cons: "host_calls S (c # cs) w = host_calls S cs (host_step S c w)"
  by (simp add: host_calls_def)

text \<open>Whatever holds of every callback the executor can make holds of those of a run.\<close>

lemma execute_calls_all:
  assumes "\<And>answers what path args. N q answers = Callback what path args \<Longrightarrow> P (what, path, args)"
  shows "\<exists>cs. snd (execute S N q fuel answers w) = host_calls S cs w \<and> length cs \<le> fuel \<and> list_all P cs"
  using assms
proof (induction S N q fuel answers w rule: execute.induct)
  case (1 S N q answers w)
  then show ?case by (auto simp: host_calls_def)
next
  case (2 S N q n answers w)
  show ?case
  proof (cases "N q answers")
    case (End e)
    then show ?thesis by (intro exI [of _ "[]"]) (simp add: host_calls_def)
  next
    case c: (Callback what path args)
    obtain status w1 where h: "host_call S what path args w = (status, w1)" by force
    have "\<exists>cs. snd (execute S N q n (answers @ [(status, if status = 0 then reply w1 else None)]) w1)
        = host_calls S cs w1 \<and> length cs \<le> n \<and> list_all P cs"
      by (rule 2(1) [OF c h [symmetric]]) (rule 2(2))
    then obtain cs where
      "snd (execute S N q (Suc n) answers w) = host_calls S cs w1" "length cs \<le> n" "list_all P cs"
      using c h by auto
    then show ?thesis
      using h 2(2) [OF c] by (intro exI [of _ "(what, path, args) # cs"]) (simp add: host_calls_Cons)
  qed
qed

lemma execute_calls: "\<exists>cs. snd (execute S N q fuel answers w) = host_calls S cs w \<and> length cs \<le> fuel"
  using execute_calls_all [of N q "\<lambda>_. True" S fuel answers w] by auto

text \<open>An executor that ends within \<open>m\<close> callbacks needs no more than \<open>m + 1\<close> units of fuel.\<close>

definition ends_within :: "native \<Rightarrow> native_request \<Rightarrow> nat \<Rightarrow> bool" where
  "ends_within N q m \<longleftrightarrow> (\<forall>answers. m \<le> length answers \<longrightarrow> (\<exists>e. N q answers = End e))"

lemma execute_ends:
  assumes "ends_within N q m" "m < fuel + length answers" "fuel \<noteq> 0"
  shows "\<exists>e. fst (execute S N q fuel answers w) = Some e"
  using assms
proof (induction S N q fuel answers w rule: execute.induct)
  case (2 S N q n answers w)
  show ?case
  proof (cases "N q answers")
    case c: (Callback what path args)
    with 2(2) have "\<not> m \<le> length answers" by (auto simp: ends_within_def)
    with 2(3) have "n \<noteq> 0" by simp
    obtain status w1 where h: "host_call S what path args w = (status, w1)" by force
    with 2(1) [OF c h [symmetric] 2(2)] 2(3) \<open>n \<noteq> 0\<close> c show ?thesis by simp
  qed simp
qed simp

section \<open>Text that leaves the guest\<close>

lemma lossy_replacement [simp]: "utf8_bytes (replacement @ bs) = utf8_bytes bs" "utf8_bytes replacement"
  by (simp_all add: replacement_def continuation_def)

lemma lossy_utf8: "utf8_bytes (lossy bs)"
  by (induction bs rule: lossy.induct)
    (auto simp: second_of_three_def second_of_four_def split: list.splits)

text \<open>The one way to start a well-formed text.\<close>

lemma utf8_bytes_cases:
  assumes "utf8_bytes (a # r)"
  obtains (one) "a < 128" "utf8_bytes r"
  | (two) b r' where "\<not> a < 128" "194 \<le> a" "a < 224" "r = b # r'" "continuation b" "utf8_bytes r'"
  | (three) b c r' where "\<not> a < 128" "224 \<le> a" "a < 240" "r = b # c # r'" "second_of_three a b"
      "continuation c" "utf8_bytes r'"
  | (four) b c d r' where "\<not> a < 128" "240 \<le> a" "a < 245" "r = b # c # d # r'" "second_of_four a b"
      "continuation c" "continuation d" "utf8_bytes r'"
proof -
  note [simp del] = utf8_bytes.simps
  show thesis
    using assms [unfolded utf8_bytes.simps(2)] one two three four
    by (auto simp: second_of_three_def second_of_four_def split: if_splits list.splits)
qed

lemma lossy_id: "utf8_bytes bs \<Longrightarrow> lossy bs = bs"
proof (induction "length bs" arbitrary: bs rule: less_induct)
  case less
  show ?case
  proof (cases bs)
    case Nil
    then show ?thesis by simp
  next
    case (Cons a r)
    with less.prems have "utf8_bytes (a # r)" by simp
    then show ?thesis
    proof (cases rule: utf8_bytes_cases)
      case one
      with less.hyps [of r] Cons show ?thesis by (cases r) simp_all
    next
      case (two b r')
      with less.hyps [of r'] Cons show ?thesis by simp
    next
      case (three b c r')
      with less.hyps [of r'] Cons show ?thesis by simp
    next
      case (four b c d r')
      with less.hyps [of r'] Cons show ?thesis by simp
    qed
  qed
qed

lemma lossy_bytes: "list_all (\<lambda>b. b < 256) bs \<Longrightarrow> list_all (\<lambda>b. b < 256) (lossy bs)"
proof (induction bs rule: lossy.induct)
  case (3 a b r)
  note [simp del] = lossy.simps
  from 3 show ?case
    by (subst lossy.simps(3)) (auto simp: replacement_def split: list.splits)
qed (simp_all add: replacement_def)

lemma of_char_char_of_bytes:
  "list_all (\<lambda>b. b < 256) bs \<Longrightarrow> map of_char (map char_of bs :: string) = (bs :: nat list)"
  by (induction bs) simp_all

lemma of_char_bytes: "list_all (\<lambda>b. b < 256) (map of_char (s :: string) :: nat list)"
  by (simp add: list_all_iff)

lemma lossy_is_utf8: "utf8 (to_string_lossy s)"
proof -
  have b: "map of_char (to_string_lossy s) = lossy (map of_char s :: nat list)"
    unfolding to_string_lossy_def by (intro of_char_char_of_bytes lossy_bytes of_char_bytes)
  then show ?thesis by (simp add: utf8_def lossy_utf8)
qed

section \<open>What is on standard output\<close>

text \<open>A pipe that does not break has taken exactly the frames of what was sent.\<close>

definition on_wire :: "serde \<Rightarrow> bytes \<Rightarrow> world \<Rightarrow> bool" where
  "on_wire S bs w \<longleftrightarrow> room (stdout w) = None
     \<and> written (stdout w) = bs @ concat (map (frame S) (sent w))"

lemma emit_on_wire: "on_wire S bs w \<Longrightarrow> on_wire S bs (snd (emit S v w))"
  by (auto simp: on_wire_def emit_def write_frame_unbounded split: sum.splits if_splits)

lemma on_wire_update [simp]:
  "on_wire S bs (w\<lparr>logs := n\<rparr>) = on_wire S bs w"
  "on_wire S bs (w\<lparr>logged := m\<rparr>) = on_wire S bs w"
  "on_wire S bs (w\<lparr>reply := r\<rparr>) = on_wire S bs w"
  "on_wire S bs (w\<lparr>stdin := i\<rparr>) = on_wire S bs w"
  "on_wire S bs (w\<lparr>h_calls := c\<rparr>) = on_wire S bs w"
  "on_wire S bs (w\<lparr>h_calls := c, h_sequence := d\<rparr>) = on_wire S bs w"
  by (simp_all add: on_wire_def)

lemma host_log_on_wire: "on_wire S bs w \<Longrightarrow> on_wire S bs (snd (host_log S v n w))"
  using emit_on_wire [of S bs "w\<lparr>logs := saturating_add (logs w) n\<rparr>"
      "log_event (w\<lparr>logs := saturating_add (logs w) n\<rparr>) v"]
  by (auto simp: host_log_def Let_def split: prod.splits bool.splits)

lemma host_dispatch_on_wire: "on_wire S bs w \<Longrightarrow> on_wire S bs (snd (host_dispatch S p v w))"
  using emit_on_wire [of S bs "w\<lparr>h_calls := h_calls w + 1, h_sequence := h_sequence w + 1\<rparr>"
      "call_event (w\<lparr>h_calls := h_calls w + 1, h_sequence := h_sequence w + 1\<rparr>) p v"]
  by (auto simp: host_dispatch_def Let_def split: prod.splits bool.splits sum.splits)

lemma host_calls_on_wire: "on_wire S bs w \<Longrightarrow> on_wire S bs (host_calls S cs w)"
proof (induction cs arbitrary: w)
  case Nil
  then show ?case by (simp add: host_calls_def)
next
  case (Cons c cs)
  have "on_wire S bs (host_step S c w)"
    using Cons.prems host_log_on_wire host_dispatch_on_wire
    by (cases rule: host_step_cases [of S c w]) auto
  with Cons.IH show ?case by (simp add: host_calls_Cons)
qed

section \<open>The stages of a run\<close>

lemma catalog_crosses: "\<exists>t. tree_new (Array (map String cat)) = Inr t"
  unfolding tree_new_def add_total by (simp add: list_all_iff)

lemma guest_run_calls_all:
  assumes "\<And>globs cat answers what path args. \<lbrakk>tree_new (globals req) = Inr globs;
      tree_new (Array (map String (catalog req))) = Inr cat;
      N (native_request_of req globs cat) answers = Callback what path args\<rbrakk> \<Longrightarrow> P (what, path, args)"
  shows "\<exists>cs. snd (guest_run S N fuel cpu req input k) = host_calls S cs (start_world req input k)
    \<and> list_all P cs"
proof -
  let ?w = "start_world req input k"
  have base: "\<exists>cs. ?w = host_calls S cs ?w \<and> list_all P cs"
    by (intro exI [of _ "[]"]) (simp add: host_calls_def)
  have exec: "\<exists>cs. snd (case execute S N (native_request_of req globs cat) fuel [] ?w of
      (None, w) \<Rightarrow> (None, w)
    | (Some (Exited c), w) \<Rightarrow> (Some (ProcessExit c), w)
    | (Some (Finished r), w) \<Rightarrow>
        (case result_value S r of
           Inl e \<Rightarrow> (Some (RunError e), w)
         | Inr v \<Rightarrow> (Some (Event (completed_event req r w cpu v)), w))) = host_calls S cs ?w
      \<and> list_all P cs"
    if "tree_new (globals req) = Inr globs" "tree_new (Array (map String (catalog req))) = Inr cat"
    for globs cat
    using execute_calls_all [of N "native_request_of req globs cat" P S fuel "[]" ?w] assms [OF that]
    by (auto split: prod.splits option.splits native_end.splits sum.splits)
  show ?thesis
    using base exec by (auto simp: guest_run_def Let_def split: sum.split)
qed

lemma guest_run_calls:
  "\<exists>cs. snd (guest_run S N fuel cpu req input k) = host_calls S cs (start_world req input k)"
  using guest_run_calls_all [of req N "\<lambda>_. True" S fuel cpu input k] by auto

text \<open>What a run returns, its executor has returned.\<close>

lemma execute_end:
  "execute S N q fuel answers w = (Some e, w') \<Longrightarrow> \<exists>answers'. N q answers' = End e"
proof (induction S N q fuel answers w rule: execute.induct)
  case (2 S N q n answers w)
  then show ?case by (cases "N q answers") (auto split: prod.splits)
qed simp

lemma guest_run_end:
  assumes "guest_run S N fuel cpu req input k = (Some out, w)"
  shows "(\<exists>e. out = RunError e) \<or> (\<exists>globs cat answers e. validate req = Inr ()
    \<and> tree_new (globals req) = Inr globs \<and> tree_new (Array (map String (catalog req))) = Inr cat
    \<and> N (native_request_of req globs cat) answers = End e
    \<and> (case out of
         Event v \<Rightarrow> (\<exists>r x. e = Finished r \<and> v = completed_event req r w cpu x \<and> result_value S r = Inr x)
       | ProcessExit c \<Rightarrow> e = Exited c
       | RunError t \<Rightarrow> False))"
  using assms
  by (auto simp: guest_run_def Let_def
      split: sum.splits if_splits prod.splits option.splits native_end.splits dest!: execute_end)

lemma guest_run_event:
  assumes "guest_run S N fuel cpu req input k = (Some (Event v), w)"
  shows "validate req = Inr () \<and> (\<exists>r x. v = completed_event req r w cpu x \<and> result_value S r = Inr x)"
  using assms
  by (auto simp: guest_run_def Let_def
      split: sum.splits if_splits prod.splits option.splits native_end.splits)

lemma guest_run_executes:
  assumes "validate req = Inr ()" "tree_new (globals req) = Inr globs"
  shows "\<exists>cat. guest_run S N fuel cpu req input k =
    (case execute S N (native_request_of req globs cat) fuel [] (start_world req input k) of
       (None, w) \<Rightarrow> (None, w)
     | (Some (Exited c), w) \<Rightarrow> (Some (ProcessExit c), w)
     | (Some (Finished r), w) \<Rightarrow>
         (case result_value S r of
            Inl e \<Rightarrow> (Some (RunError e), w)
          | Inr v \<Rightarrow> (Some (Event (completed_event req r w cpu v)), w)))"
proof -
  obtain cat where "tree_new (Array (map String (catalog req))) = Inr cat"
    using catalog_crosses by blast
  moreover have "CHR 0x00 \<notin> set (filename req)"
    using assms(1) name_byte_safe by (auto simp: validate_Inr list_all_iff)
  ultimately show ?thesis
    using assms by (intro exI [of _ cat]) (simp add: guest_run_def Let_def)
qed

text \<open>For the witnesses: an executor that calls a capability once and returns the text \<open>t\<close>.\<close>

definition sample_result :: native_result where
  "sample_result =
     \<lparr>r_json = Some [116], error_buffer = [CHR 0x00], error_type = [CHR 0x00], r_line = 0,
      r_column = 0, r_status = 0, peak_memory = 4096, r_instructions = 12\<rparr>"

definition sample_native :: native where
  "sample_native q answers =
     (case answers of
        [] \<Rightarrow> Callback ''call'' ''records.list'' [116]
      | _ # _ \<Rightarrow> End (Finished sample_result))"

lemma sample_native_ends: "ends_within sample_native q 1"
  by (auto simp: ends_within_def sample_native_def Suc_le_length_iff)

lemma sample_guest_run:
  "\<exists>v w. guest_run (sample_codec c) sample_native 2 None sample_request input k = (Some (Event v), w)"
proof -
  have "crossable 0 (globals sample_request)"
    by (simp add: sample_request_def empty_object_def object_def)
  then obtain globs where g: "tree_new (globals sample_request) = Inr globs"
    unfolding tree_new_def by (metis add_total(1))
  have x: "\<exists>w. execute (sample_codec c) sample_native q 2 [] u = (Some (Finished sample_result), w)"
    for q u
    by (simp add: numeral_2_eq_2 sample_native_def split: prod.split)
  have y: "result_value (sample_codec c) sample_result = Inr c"
    by (simp add: result_value_def sample_result_def sample_codec_def)
  show ?thesis
    using guest_run_executes [OF sample_request_valid g, of "sample_codec c" sample_native 2 None
        input k] x y
    by (metis (mono_tags, lifting) case_prod_conv native_end.simps(5) option.simps(5) sum.case(2))
qed

section \<open>Properties\<close>

text \<open>
  An admitted request always comes to an end. If its globals can cross to the native side and
  the executor ends within \<open>m\<close> callbacks, the run returns: an event, the executor's own exit, or
  the one remaining error, a result that is not structured data.
\<close>
theorem admitted_run_returns:
  assumes "validate req = Inr ()" "crossable 0 (globals req)"
    and "\<forall>globs cat. ends_within N (native_request_of req globs cat) m" "m < fuel"
  shows "\<exists>out w. guest_run S N fuel cpu req input k = (Some out, w)
    \<and> (case out of RunError e \<Rightarrow> e = ''Result is not valid UTF-8 structured data''
        | ProcessExit _ \<Rightarrow> True | Event v \<Rightarrow> True)"
proof -
  let ?w = "start_world req input k"
  obtain globs where g: "tree_new (globals req) = Inr globs"
    using assms(2) unfolding tree_new_def by (metis add_total(1))
  obtain cat where r: "guest_run S N fuel cpu req input k =
    (case execute S N (native_request_of req globs cat) fuel [] ?w of
       (None, w) \<Rightarrow> (None, w)
     | (Some (Exited c), w) \<Rightarrow> (Some (ProcessExit c), w)
     | (Some (Finished r), w) \<Rightarrow>
         (case result_value S r of
            Inl e \<Rightarrow> (Some (RunError e), w)
          | Inr v \<Rightarrow> (Some (Event (completed_event req r w cpu v)), w)))"
    using guest_run_executes [OF assms(1) g] by blast
  obtain e w where e: "execute S N (native_request_of req globs cat) fuel [] ?w = (Some e, w)"
    using execute_ends [of N "native_request_of req globs cat" m fuel "[]" S ?w] assms(3,4)
    by (metis fst_conv add.right_neutral list.size(3) not_less0 surj_pair)
  show ?thesis
    by (auto simp: r e result_value_def split: native_end.split option.split sum.split)
qed

theorem admitted_run_returns_witness:
  "\<exists>out w. guest_run (sample_codec Null) sample_native 2 None sample_request []
      \<lparr>written = [], room = None, fault = frame_limit_error\<rparr> = (Some out, w)
    \<and> (case out of RunError e \<Rightarrow> e = ''Result is not valid UTF-8 structured data''
        | ProcessExit _ \<Rightarrow> True | Event v \<Rightarrow> True)"
proof (rule admitted_run_returns [where m = 1])
  show "crossable 0 (globals sample_request)"
    by (simp add: sample_request_def empty_object_def object_def)
qed (simp_all add: sample_request_valid sample_native_ends flip: One_nat_def)



text \<open>
  On a pipe that holds, standard output carries whole frames and nothing else: the bytes the
  run has written are the frames of the log and call events it sent, in order.
\<close>
theorem guest_writes_frames_only:
  assumes "room k = None"
  shows "let w = snd (guest_run S N fuel cpu req input k) in
    written (stdout w) = written k @ concat (map (frame S) (sent w))"
proof -
  have "on_wire S (written k) (start_world req input k)"
    using assms by (simp add: on_wire_def start_world_def)
  moreover obtain cs where
    "snd (guest_run S N fuel cpu req input k) = host_calls S cs (start_world req input k)"
    using guest_run_calls by blast
  ultimately have "on_wire S (written k) (snd (guest_run S N fuel cpu req input k))"
    by (simp add: host_calls_on_wire)
  then show ?thesis by (simp add: on_wire_def Let_def)
qed

theorem guest_writes_frames_only_witness:
  "let w = snd (guest_run (sample_codec Null) sample_native 2 None sample_request []
      \<lparr>written = [1], room = None, fault = frame_limit_error\<rparr>) in
    written (stdout w) = [1] @ concat (map (frame (sample_codec Null)) (sent w))"
  using guest_writes_frames_only [of "\<lparr>written = [1], room = None, fault = frame_limit_error\<rparr>"
      "sample_codec Null" sample_native 2 None sample_request "[]"]
  by simp

text \<open>
  An error message leaves the guest as text. Whatever bytes the native buffer holds, the
  message is valid UTF-8, and a message that was valid is unchanged.
\<close>
theorem error_message_is_text:
  "utf8 (to_string_lossy s) \<and> (utf8 s \<longrightarrow> to_string_lossy s = s)"
  using lossy_is_utf8 by (simp add: utf8_def to_string_lossy_def lossy_id comp_def)

theorem error_message_is_text_witness:
  "to_string_lossy ''boom'' = ''boom''"
proof -
  have "utf8 ''boom''" by code_simp
  with error_message_is_text [of "''boom''"] show ?thesis by blast
qed

end
