(* ===== verification/Isolation.thy ===== *)
theory Isolation
  imports Prelude
begin

text \<open>
  \<open>src/isolation.rs\<close>: the operating-system policy a guest puts itself under before mruby exists.
  The kernel is a parameter that answers each call from the calls made so far; what an operation
  did is the trace of its calls. The Linux system call filter is built as in the source and run
  by an interpreter of the classic BPF instructions it uses.
\<close>

section \<open>The kernel interface\<close>

record timeval =
  tv_sec :: i64
  tv_usec :: i64

record itimerval =
  it_interval :: timeval
  it_value :: timeval

datatype timer = ITIMER_REAL | ITIMER_PROF
datatype timer_signal = SIGALRM_default | SIGPROF_default
datatype resource = RLIMIT_CPU | RLIMIT_CORE | RLIMIT_AS

record sock_filter =
  code :: "16 word"
  jt :: "8 word"
  jf :: "8 word"
  operand :: u32

datatype os_call =
    Signal timer_signal
  | Setitimer timer itimerval
  | Setrlimit resource u64 u64
  | CloseRange u32 u32 u32
  | ReadDir string
  | Close int
  | Getppid
  | Kqueue
  | WatchExit int
  | SpawnWatcher
  | SandboxInit string
  | NoNewPrivs
  | Seccomp "sock_filter list"

text \<open>
  What the kernel answers may depend on everything asked before: whether a call succeeds, the
  entries of a directory, and the id of the parent.
\<close>

record kernel =
  outcome :: "os_call list \<Rightarrow> os_call \<Rightarrow> io_error + unit"
  listing :: "os_call list \<Rightarrow> (io_error + string) list"
  parent_id :: "os_call list \<Rightarrow> int"

type_synonym 'a os = "kernel \<Rightarrow> os_call list \<Rightarrow> (io_error + 'a) \<times> os_call list"

definition invoke :: "os_call \<Rightarrow> unit os" where
  "invoke c K tr = (outcome K tr c, tr @ [c])"

definition os_return :: "'a \<Rightarrow> 'a os" where
  "os_return x K tr = (Inr x, tr)"

definition os_fail :: "io_error \<Rightarrow> 'a os" where
  "os_fail e K tr = (Inl e, tr)"

definition os_bind :: "'a os \<Rightarrow> ('a \<Rightarrow> 'b os) \<Rightarrow> 'b os" where
  "os_bind m f K tr = (case m K tr of (Inl e, tr) \<Rightarrow> (Inl e, tr) | (Inr x, tr) \<Rightarrow> f x K tr)"

definition getppid :: "int os" where
  "getppid K tr = (Inr (parent_id K tr), tr @ [Getppid])"

definition read_dir :: "string \<Rightarrow> (io_error + string) list os" where
  "read_dir d = os_bind (invoke (ReadDir d)) (\<lambda>_ K tr. (Inr (listing K tr), tr))"

fun os_all :: "os_call list \<Rightarrow> unit os" where
  "os_all [] = os_return ()"
| "os_all (c # cs) = os_bind (invoke c) (\<lambda>_. os_all cs)"

section \<open>Timers and limits\<close>

text \<open>\<open>signal\<close> has no failure the code looks at: its answer is dropped.\<close>

definition set_signal :: "timer_signal \<Rightarrow> unit os" where
  "set_signal g K tr = (Inr (), snd (invoke (Signal g) K tr))"

definition timer_after :: "u64 \<Rightarrow> itimerval" where
  "timer_after ms =
     \<lparr>it_interval = \<lparr>tv_sec = 0, tv_usec = 0\<rparr>,
      it_value = \<lparr>tv_sec = ms div 1000, tv_usec = (ms mod 1000) * 1000\<rparr>\<rparr>"

definition div_ceil :: "u64 \<Rightarrow> u64 \<Rightarrow> u64" where
  "div_ceil a b = (if a mod b > 0 then a div b + 1 else a div b)"

definition cpu_rlimit :: "u64 \<Rightarrow> u64" where
  "cpu_rlimit cpu_ms = div_ceil cpu_ms 1000 + 1"

section \<open>Inherited descriptors\<close>

datatype platform = Linux | MacOS | OtherPlatform

definition digit :: "char \<Rightarrow> nat option" where
  "digit c = (if CHR ''0'' \<le> c \<and> c \<le> CHR ''9'' then Some (of_char c - 48) else None)"

definition digits :: "string \<Rightarrow> nat option" where
  "digits s = (if s = [] then None
     else map_option (foldl (\<lambda>n d. n * 10 + d) 0) (those (map digit s)))"

text \<open>\<open>str::parse::<i32>\<close>: an optional sign, at least one digit, and a value in range.\<close>

definition parse_i32 :: "string \<Rightarrow> int option" where
  "parse_i32 s =
     (let signed = (case s of
        [] \<Rightarrow> None
      | c # r \<Rightarrow>
          if c = CHR ''-'' then map_option (\<lambda>n. - int n) (digits r)
          else if c = CHR ''+'' then map_option int (digits r)
          else map_option int (digits s))
      in case signed of
           None \<Rightarrow> None
         | Some i \<Rightarrow> if - 2147483648 \<le> i \<and> i \<le> 2147483647 then Some i else None)"

definition other :: "string \<Rightarrow> io_error" where
  "other t = IoError OtherKind t"

definition entry_descriptor :: "io_error + string \<Rightarrow> io_error + int" where
  "entry_descriptor entry = and_then entry (\<lambda>name.
     case parse_i32 name of
       None \<Rightarrow> Inl (other ''Invalid process descriptor listing'')
     | Some fd \<Rightarrow> Inr fd)"

fun collect :: "('e + 'a) list \<Rightarrow> 'e + 'a list" where
  "collect [] = Inr []"
| "collect (r # rs) = and_then r (\<lambda>x. and_then (collect rs) (\<lambda>xs. Inr (x # xs)))"

text \<open>The answer of each \<open>close\<close> is dropped.\<close>

fun close_each :: "int list \<Rightarrow> unit os" where
  "close_each [] K tr = (Inr (), tr)"
| "close_each (fd # fds) K tr = close_each fds K (snd (invoke (Close fd) K tr))"

definition close_listed :: "string \<Rightarrow> unit os" where
  "close_listed directory = os_bind (read_dir directory) (\<lambda>es.
     case collect (map entry_descriptor es) of
       Inl e \<Rightarrow> os_fail e
     | Inr fds \<Rightarrow> close_each (filter (\<lambda>fd. fd \<ge> 3) fds))"

definition close_ambient_descriptors :: "platform \<Rightarrow> unit os" where
  "close_ambient_descriptors p K tr =
     (if p = Linux then
        (case invoke (CloseRange 3 (- 1) 0) K tr of
           (Inr _, tr) \<Rightarrow> (Inr (), tr)
         | (Inl _, tr) \<Rightarrow> close_listed ''/proc/self/fd'' K tr)
      else if p = MacOS then close_listed ''/dev/fd'' K tr
      else close_listed ''/proc/self/fd'' K tr)"

section \<open>The watch on the supervisor\<close>

definition watch_parent :: "platform \<Rightarrow> unit os" where
  "watch_parent p =
     (if p = MacOS then
        os_bind getppid (\<lambda>parent.
          if parent \<le> 1 then os_fail (other ''Guest has no owning supervisor'')
          else
            os_bind (invoke Kqueue) (\<lambda>_.
            os_bind (invoke (WatchExit parent)) (\<lambda>_.
            os_bind getppid (\<lambda>now.
              if now \<noteq> parent then os_fail (other ''Supervisor exited during guest startup'')
              else invoke SpawnWatcher))))
      else os_return ())"

text \<open>
  The watcher thread: each wait returns a count, and an error kind when it is negative. Only an
  interrupted wait is repeated; everything else ends the process with code 126. \<open>None\<close>: still
  waiting.
\<close>

fun watcher :: "(int \<times> io_kind) list \<Rightarrow> int option" where
  "watcher [] = None"
| "watcher ((count, k) # ws) = (if count < 0 \<and> k = Interrupted then watcher ws else Some 126)"

section \<open>The system call filter\<close>

datatype syscall_name =
    SYS_read | SYS_write | SYS_close | SYS_fstat | SYS_brk | SYS_mmap | SYS_munmap | SYS_mprotect
  | SYS_madvise | SYS_mremap | SYS_clock_gettime | SYS_getrusage | SYS_rt_sigaction
  | SYS_rt_sigprocmask | SYS_rt_sigreturn | SYS_futex | SYS_getpid | SYS_gettid | SYS_tgkill
  | SYS_exit | SYS_exit_group | SYS_sched_yield

definition allow :: "syscall_name list" where
  "allow =
     [SYS_read, SYS_write, SYS_close, SYS_fstat, SYS_brk, SYS_mmap, SYS_munmap, SYS_mprotect,
      SYS_madvise, SYS_mremap, SYS_clock_gettime, SYS_getrusage, SYS_rt_sigaction,
      SYS_rt_sigprocmask, SYS_rt_sigreturn, SYS_futex, SYS_getpid, SYS_gettid, SYS_tgkill,
      SYS_exit, SYS_exit_group, SYS_sched_yield]"

datatype arch = X86_64 | Aarch64

fun ARCH :: "arch \<Rightarrow> u32" where
  "ARCH X86_64 = 0xc000003e"
| "ARCH Aarch64 = 0xc00000b7"

definition stmt :: "16 word \<Rightarrow> u32 \<Rightarrow> sock_filter" where
  "stmt c k = \<lparr>code = c, jt = 0, jf = 0, operand = k\<rparr>"

definition jump :: "u32 \<Rightarrow> 8 word \<Rightarrow> 8 word \<Rightarrow> sock_filter" where
  "jump k t f = \<lparr>code = 0x15, jt = t, jf = f, operand = k\<rparr>"

text \<open>The numbers of the system calls are the libc crate's and differ between architectures.\<close>

definition seccomp_filter :: "arch \<Rightarrow> (syscall_name \<Rightarrow> i64) \<Rightarrow> sock_filter list" where
  "seccomp_filter a nr =
     [stmt 0x20 4, jump (ARCH a) 1 0, stmt 0x06 0x80000000, stmt 0x20 0]
     @ concat (map (\<lambda>c. [jump (ucast (nr c)) 0 1, stmt 0x06 0x7fff0000]) allow)
     @ [stmt 0x06 0x80000000]"

definition memory_ceiling :: u64 where
  "memory_ceiling = 256 * 1024 * 1024"

definition sandbox_profile :: string where
  "sandbox_profile = ''(version 1)(deny default)(deny process-fork)(deny process-exec)(allow signal (target self))(allow sysctl-read)''"

definition apply_platform :: "platform \<Rightarrow> arch \<Rightarrow> (syscall_name \<Rightarrow> i64) \<Rightarrow> unit os" where
  "apply_platform p a nr =
     (case p of
        Linux \<Rightarrow> os_all [Setrlimit RLIMIT_AS memory_ceiling memory_ceiling, NoNewPrivs,
          Seccomp (seccomp_filter a nr)]
      | MacOS \<Rightarrow> (\<lambda>K tr. case invoke (SandboxInit sandbox_profile) K tr of
            (Inl _, tr) \<Rightarrow> (Inl (other ''macOS guest containment is unavailable''), tr)
          | (Inr _, tr) \<Rightarrow> (Inr (), tr))
      | OtherPlatform \<Rightarrow> os_fail (other ''Unsupported guest containment platform''))"

section \<open>Entering containment\<close>

definition enter :: "platform \<Rightarrow> arch \<Rightarrow> (syscall_name \<Rightarrow> i64) \<Rightarrow> u64 \<Rightarrow> u64 \<Rightarrow> unit os" where
  "enter p a nr wall_ms cpu_ms =
     os_bind (set_signal SIGALRM_default) (\<lambda>_.
     os_bind (invoke (Setitimer ITIMER_REAL (timer_after wall_ms))) (\<lambda>_.
     os_bind (set_signal SIGPROF_default) (\<lambda>_.
     os_bind (invoke (Setitimer ITIMER_PROF (timer_after cpu_ms))) (\<lambda>_.
     os_bind (invoke (Setrlimit RLIMIT_CPU (cpu_rlimit cpu_ms) (cpu_rlimit cpu_ms))) (\<lambda>_.
     os_bind (invoke (Setrlimit RLIMIT_CORE 0 0)) (\<lambda>_.
     os_bind (close_ambient_descriptors p) (\<lambda>_.
     os_bind (watch_parent p) (\<lambda>_.
     apply_platform p a nr))))))))"

section \<open>Processor time\<close>

text \<open>
  The processor time of a terminal event. \<open>getrusage\<close> answers \<open>None\<close> when it fails; the arithmetic of
  \<open>f64\<close> is the processor's and a parameter, as bit patterns. The sums of the integers wrap, as they
  do in a release build.
\<close>

record rusage =
  utime_sec :: i64
  utime_usec :: i64
  stime_sec :: i64
  stime_usec :: i64

record float_unit =
  float_of_int :: "i64 \<Rightarrow> f64"
  float_add :: "f64 \<Rightarrow> f64 \<Rightarrow> f64"
  float_mul :: "f64 \<Rightarrow> f64 \<Rightarrow> f64"
  float_div :: "f64 \<Rightarrow> f64 \<Rightarrow> f64"

definition thousand :: f64 where
  "thousand = 0x408F400000000000"

definition cpu_milliseconds :: "float_unit \<Rightarrow> rusage option \<Rightarrow> f64 option" where
  "cpu_milliseconds U getrusage =
     (case getrusage of
        None \<Rightarrow> None
      | Some u \<Rightarrow> Some (float_add U
          (float_mul U (float_of_int U (utime_sec u + stime_sec u)) thousand)
          (float_div U (float_of_int U (utime_usec u + stime_usec u)) thousand)))"

section \<open>The probe\<close>

text \<open>What the three attempts of a probe do inside containment.\<close>

datatype spawn_outcome = SpawnSucceeded | SpawnFailed | SpawnError io_error

record attempts =
  read_hosts :: "io_error option"
  connect_local :: "io_error option"
  spawn_true :: spawn_outcome

definition denied :: "io_error option \<Rightarrow> bool" where
  "denied r = (case r of None \<Rightarrow> False | Some e \<Rightarrow> error_kind e = PermissionDenied)"

definition probe :: "platform \<Rightarrow> arch \<Rightarrow> (syscall_name \<Rightarrow> i64) \<Rightarrow> bool \<Rightarrow> attempts \<Rightarrow> string \<Rightarrow> bool os" where
  "probe p a nr true_exists tries capability =
     (if capability = ''process'' \<and> \<not> true_exists then
        os_fail (IoError NotFound ''The fixed process probe executable is absent before containment'')
      else os_bind (enter p a nr 1000 1000) (\<lambda>_. os_return (
        if capability = ''file'' then denied (read_hosts tries)
        else if capability = ''network'' then denied (connect_local tries)
        else if capability = ''process'' then
          (case spawn_true tries of
             SpawnSucceeded \<Rightarrow> False
           | SpawnFailed \<Rightarrow> True
           | SpawnError e \<Rightarrow> error_kind e = PermissionDenied
               \<or> (p = MacOS \<and> error_kind e = NotFound))
        else False)))"

text \<open>The resident size of a process, from what \<open>proc_pidinfo\<close> returned on macOS.\<close>

definition resident_bytes :: "platform \<Rightarrow> int \<Rightarrow> int \<Rightarrow> u64 \<Rightarrow> u64 option" where
  "resident_bytes p expected got resident_size =
     (if p = MacOS then (if got = expected then Some resident_size else None) else None)"

section \<open>Running the filter\<close>

text \<open>
  The kernel's interpreter on the three instructions the filter uses: load a word of the call's
  data (its number at offset 0, its architecture at offset 4), jump on equality, return. The
  result is the action, \<open>None\<close> for a program that runs off its end or uses another instruction.
\<close>

fun bpf :: "sock_filter list \<Rightarrow> u32 \<Rightarrow> (u32 \<Rightarrow> u32) \<Rightarrow> u32 option" where
  "bpf [] acc load = None"
| "bpf (i # is) acc load =
     (if code i = 0x20 then bpf is (load (operand i)) load
      else if code i = 0x15 then
        bpf (drop (unat (if acc = operand i then jt i else jf i)) is) acc load
      else if code i = 0x06 then Some (operand i)
      else None)"

definition SECCOMP_RET_ALLOW :: u32 where "SECCOMP_RET_ALLOW = 0x7fff0000"
definition SECCOMP_RET_KILL_PROCESS :: u32 where "SECCOMP_RET_KILL_PROCESS = 0x80000000"

definition call_data :: "u32 \<Rightarrow> u32 \<Rightarrow> u32 \<Rightarrow> u32" where
  "call_data number foreign offset = (if offset = 0 then number else if offset = 4 then foreign else 0)"

lemma bpf_steps [simp]:
  "bpf (stmt 0x20 k # is) acc load = bpf is (load k) load"
  "bpf (stmt 0x06 k # is) acc load = Some k"
  "bpf (jump k t f # is) acc load = bpf (drop (unat (if acc = k then t else f)) is) acc load"
  by (simp_all add: stmt_def jump_def)

declare bpf.simps(2) [simp del]

lemma bpf_allow_list:
  "bpf (concat (map (\<lambda>c. [jump (ucast (nr c)) 0 1, stmt 0x06 0x7fff0000]) cs) @ rest) n load =
     (if n \<in> (\<lambda>c. ucast (nr c)) ` set cs then Some SECCOMP_RET_ALLOW else bpf rest n load)"
  by (induction cs) (auto simp: SECCOMP_RET_ALLOW_def)

section \<open>Runs of calls\<close>

text \<open>
  The calls whose answer the code looks at, and that a run of calls, made from trace \<open>tr\<close> on, was
  granted every one of them.
\<close>

fun checked :: "os_call \<Rightarrow> bool" where
  "checked (Signal _) = False"
| "checked (Close _) = False"
| "checked Getppid = False"
| "checked _ = True"

fun granted :: "kernel \<Rightarrow> os_call list \<Rightarrow> os_call list \<Rightarrow> bool" where
  "granted K tr [] = True"
| "granted K tr (c # cs) = ((checked c \<longrightarrow> outcome K tr c = Inr ()) \<and> granted K (tr @ [c]) cs)"

named_theorems os_simps

lemma os_bind_ok [os_simps]:
  "os_bind m f K tr = (Inr x, tr'') \<longleftrightarrow>
     (\<exists>y tr'. m K tr = (Inr y, tr') \<and> f y K tr' = (Inr x, tr''))"
  by (auto simp: os_bind_def split: prod.split sum.split)

lemma invoke_ok [os_simps]:
  "invoke c K tr = (Inr u, tr') \<longleftrightarrow> outcome K tr c = Inr () \<and> tr' = tr @ [c]"
  by (auto simp: invoke_def)

lemma os_all_ok [os_simps]:
  assumes "list_all checked cs"
  shows "os_all cs K tr = (Inr u, tr') \<longleftrightarrow> tr' = tr @ cs \<and> granted K tr cs"
  using assms by (induction cs arbitrary: tr) (auto simp: os_simps os_return_def)

lemma close_each_eq: "close_each fds K tr = (Inr (), tr @ map Close fds)"
  by (induction fds arbitrary: tr) (simp_all add: invoke_def)

lemma collect_ok: "collect rs = Inr xs \<longleftrightarrow> rs = map Inr xs"
  by (induction rs arbitrary: xs) (auto simp: result_simps Cons_eq_map_conv)

lemma collect_map_Inr [simp]: "collect (map Inr xs) = Inr xs"
  by (simp add: collect_ok)

definition ambient_closed :: "kernel \<Rightarrow> string \<Rightarrow> os_call list \<Rightarrow> os_call list \<Rightarrow> bool" where
  "ambient_closed K directory tr mid \<longleftrightarrow>
     (\<exists>fds. map entry_descriptor (listing K (tr @ [ReadDir directory])) = map Inr fds
        \<and> outcome K tr (ReadDir directory) = Inr ()
        \<and> mid = ReadDir directory # map Close (filter (\<lambda>fd. fd \<ge> 3) fds))"

lemma close_listed_ok:
  "close_listed d K tr = (Inr u, tr') \<longleftrightarrow> (\<exists>mid. tr' = tr @ mid \<and> ambient_closed K d tr mid)"
  by (auto simp: close_listed_def read_dir_def os_simps os_fail_def collect_ok close_each_eq
      ambient_closed_def split: sum.splits)

lemma close_ambient_linux:
  "close_ambient_descriptors Linux K tr = (Inr u, tr') \<longleftrightarrow>
     (if outcome K tr (CloseRange 3 (- 1) 0) = Inr () then tr' = tr @ [CloseRange 3 (- 1) 0]
      else \<exists>mid. tr' = tr @ CloseRange 3 (- 1) 0 # mid
             \<and> ambient_closed K ''/proc/self/fd'' (tr @ [CloseRange 3 (- 1) 0]) mid)"
  by (cases "outcome K tr (CloseRange 3 (- 1) 0)")
    (auto simp: close_ambient_descriptors_def invoke_def close_listed_ok)

definition guards :: "u64 \<Rightarrow> u64 \<Rightarrow> os_call list" where
  "guards wall_ms cpu_ms =
     [Signal SIGALRM_default, Setitimer ITIMER_REAL (timer_after wall_ms),
      Signal SIGPROF_default, Setitimer ITIMER_PROF (timer_after cpu_ms),
      Setrlimit RLIMIT_CPU (cpu_rlimit cpu_ms) (cpu_rlimit cpu_ms), Setrlimit RLIMIT_CORE 0 0]"

definition lockdown :: "arch \<Rightarrow> (syscall_name \<Rightarrow> i64) \<Rightarrow> os_call list" where
  "lockdown a nr = [Setrlimit RLIMIT_AS memory_ceiling memory_ceiling, NoNewPrivs,
     Seccomp (seccomp_filter a nr)]"

lemma set_signal_ok [os_simps]:
  "set_signal g K tr = (Inr u, tr') \<longleftrightarrow> tr' = tr @ [Signal g]"
  by (auto simp: set_signal_def invoke_def)

lemma os_return_ok [os_simps]: "os_return x K tr = (Inr y, tr') \<longleftrightarrow> y = x \<and> tr' = tr"
  by (auto simp: os_return_def)

definition descriptors_closed :: "kernel \<Rightarrow> os_call list \<Rightarrow> os_call list \<Rightarrow> bool" where
  "descriptors_closed K tr mid \<longleftrightarrow>
     (if outcome K tr (CloseRange 3 (- 1) 0) = Inr () then mid = [CloseRange 3 (- 1) 0]
      else \<exists>rest. mid = CloseRange 3 (- 1) 0 # rest
             \<and> ambient_closed K ''/proc/self/fd'' (tr @ [CloseRange 3 (- 1) 0]) rest)"

lemma close_ambient_linux_ok:
  "close_ambient_descriptors Linux K tr = (Inr u, tr') \<longleftrightarrow>
     (\<exists>mid. tr' = tr @ mid \<and> descriptors_closed K tr mid)"
  by (auto simp: close_ambient_linux descriptors_closed_def)

lemma enter_linux_ok:
  "enter Linux a nr wall_ms cpu_ms K [] = (Inr u, tr) \<longleftrightarrow>
     (\<exists>mid. tr = guards wall_ms cpu_ms @ mid @ lockdown a nr
        \<and> granted K [] (guards wall_ms cpu_ms)
        \<and> descriptors_closed K (guards wall_ms cpu_ms) mid
        \<and> granted K (guards wall_ms cpu_ms @ mid) (lockdown a nr))"
  unfolding enter_def apply_platform_def watch_parent_def
  by (auto simp: os_simps close_ambient_linux_ok guards_def lockdown_def)

lemma closes_spare_stdio:
  assumes "descriptors_closed K tr mid" "Close fd \<in> set mid"
  shows "3 \<le> fd"
  using assms by (auto simp: descriptors_closed_def ambient_closed_def split: if_splits)

section \<open>Arithmetic of the limits\<close>

lemma timer_parts:
  "unat (tv_sec (it_value (timer_after ms))) = unat ms div 1000"
  "unat (tv_usec (it_value (timer_after ms))) = unat ms mod 1000 * 1000"
  by (simp_all add: timer_after_def unat_div_distrib unat_mod_distrib unat_word_ariths)

lemma ceil_1000:
  "(n :: nat) + 1000 \<le> ((n + 999) div 1000 + 1) * 1000" "((n + 999) div 1000 + 1) * 1000 < n + 2000"
  using div_mult_mod_eq [of "n + 999" 1000] mod_less_divisor [of 1000 "n + 999"] by simp_all

lemma ceil_div_1000:
  "(n :: nat) mod 1000 = 0 \<Longrightarrow> (n + 999) div 1000 = n div 1000"
  "(n :: nat) mod 1000 \<noteq> 0 \<Longrightarrow> (n + 999) div 1000 = n div 1000 + 1"
proof -
  have e: "(n + 999) div 1000 = n div 1000 + (n mod 1000 + 999) div 1000"
    using div_add1_eq [of n 999 1000] by simp
  then show "n mod 1000 = 0 \<Longrightarrow> (n + 999) div 1000 = n div 1000" by simp
  have "n mod 1000 < 1000" by simp
  then have "n mod 1000 \<noteq> 0 \<Longrightarrow> (n mod 1000 + 999) div 1000 = 1"
    by (intro div_nat_eqI) simp_all
  with e show "n mod 1000 \<noteq> 0 \<Longrightarrow> (n + 999) div 1000 = n div 1000 + 1" by simp
qed

lemma unat_div_ceil: "unat (div_ceil ms 1000) = (unat ms + 999) div 1000"
proof -
  have r: "unat ms mod 1000 < 1000" by simp
  have small: "unat ms div 1000 + 1 < 2 ^ 64"
    using unat_u64_less [of ms] by simp
  show ?thesis
  proof (cases "unat ms mod 1000 = 0")
    case True
    then have "\<not> ms mod 1000 > 0"
      by (simp add: word_less_nat_alt unat_mod_distrib)
    moreover have "(unat ms + 999) div 1000 = unat ms div 1000" using True by (rule ceil_div_1000)
    ultimately show ?thesis by (simp add: div_ceil_def unat_div_distrib)
  next
    case False
    then have "ms mod 1000 > 0"
      by (simp add: word_less_nat_alt unat_mod_distrib)
    moreover have "(unat ms + 999) div 1000 = unat ms div 1000 + 1" using False by (rule ceil_div_1000)
    ultimately show ?thesis using small by (simp add: div_ceil_def unat_word_ariths unat_div_distrib)
  qed
qed

lemma unat_cpu_rlimit: "unat (cpu_rlimit ms) = (unat ms + 999) div 1000 + 1"
proof -
  have "(unat ms + 999) div 1000 + 1 < 2 ^ 64" using unat_u64_less [of ms] by simp
  then show ?thesis by (simp add: cpu_rlimit_def unat_word_ariths unat_div_ceil)
qed

lemma enter_macos_ok:
  assumes "enter MacOS a nr wall_ms cpu_ms K [] = (Inr u, tr)"
  shows "\<exists>mid parent. tr = guards wall_ms cpu_ms @ mid
      @ [Getppid, Kqueue, WatchExit parent, Getppid, SpawnWatcher, SandboxInit sandbox_profile]
    \<and> granted K [] (guards wall_ms cpu_ms) \<and> ambient_closed K ''/dev/fd'' (guards wall_ms cpu_ms) mid
    \<and> granted K (guards wall_ms cpu_ms @ mid)
        [Getppid, Kqueue, WatchExit parent, Getppid, SpawnWatcher, SandboxInit sandbox_profile]
    \<and> 1 < parent \<and> parent_id K (guards wall_ms cpu_ms @ mid) = parent
    \<and> parent_id K (guards wall_ms cpu_ms @ mid @ [Getppid, Kqueue, WatchExit parent]) = parent"
  using assms unfolding enter_def apply_platform_def watch_parent_def close_ambient_descriptors_def
  by (auto simp: os_simps close_listed_ok guards_def getppid_def os_fail_def invoke_def
      split: if_splits sum.splits)

text \<open>For the witnesses: a kernel that grants everything to the child of process 7.\<close>

definition granting :: kernel where
  "granting = \<lparr>outcome = (\<lambda>_ _. Inr ()), listing = (\<lambda>_. [Inr ''0'', Inr ''5'']), parent_id = (\<lambda>_. 7)\<rparr>"

lemma granted_always: "(\<And>tr c. outcome K tr c = Inr ()) \<Longrightarrow> granted K tr cs"
  by (induction cs arbitrary: tr) simp_all

section \<open>Properties\<close>



text \<open>
  C4: the filter is an allow list. Whatever numbers the system calls have, a call of the native
  architecture whose number is one of the listed calls is allowed, and every other call, also one
  with a listed number under a foreign architecture, ends the process.
\<close>
theorem filter_allows_only_listed:
  "bpf (seccomp_filter a nr) acc (call_data n foreign) =
     Some (if foreign = ARCH a \<and> n \<in> (\<lambda>c. ucast (nr c)) ` set allow
           then SECCOMP_RET_ALLOW else SECCOMP_RET_KILL_PROCESS)
   \<and> length (seccomp_filter a nr) < 2 ^ 16"
proof
  have kill: "bpf [stmt 0x06 0x80000000] n load = Some SECCOMP_RET_KILL_PROCESS" for load
    by (simp add: SECCOMP_RET_KILL_PROCESS_def)
  have data: "call_data n f 0 = n" "call_data n f 4 = f" for f
    by (simp_all add: call_data_def)
  show "bpf (seccomp_filter a nr) acc (call_data n foreign) =
     Some (if foreign = ARCH a \<and> n \<in> (\<lambda>c. ucast (nr c)) ` set allow
           then SECCOMP_RET_ALLOW else SECCOMP_RET_KILL_PROCESS)"
  proof (cases "foreign = ARCH a")
    case True
    have "bpf (concat (map (\<lambda>c. [jump (ucast (nr c)) 0 1, stmt 0x06 0x7fff0000]) allow)
        @ [stmt 0x06 0x80000000]) n (call_data n foreign) =
      Some (if n \<in> (\<lambda>c. ucast (nr c)) ` set allow then SECCOMP_RET_ALLOW
            else SECCOMP_RET_KILL_PROCESS)"
      by (subst bpf_allow_list) (simp only: kill split: if_split, blast)
    with True show ?thesis by (simp add: seccomp_filter_def data)
  next
    case False
    then show ?thesis by (simp add: seccomp_filter_def data SECCOMP_RET_KILL_PROCESS_def)
  qed
  show "length (seccomp_filter a nr) < 2 ^ 16"
    by (simp add: seccomp_filter_def allow_def)
qed

text \<open>
  The kernel timers are armed for exactly the requested time. The seconds and microseconds are
  in range and add up to the milliseconds asked for, only a zero limit would leave the timer off,
  and the hard limit on CPU seconds always lies more than a second behind the timer, so that the
  timer's signal is the one that is seen.
\<close>
theorem timers_are_exact:
  "unat (tv_sec (it_value (timer_after ms))) * 1000000 + unat (tv_usec (it_value (timer_after ms)))
     = unat ms * 1000
   \<and> unat (tv_usec (it_value (timer_after ms))) < 1000000
   \<and> (it_value (timer_after ms) = \<lparr>tv_sec = 0, tv_usec = 0\<rparr> \<longleftrightarrow> ms = 0)
   \<and> it_interval (timer_after ms) = \<lparr>tv_sec = 0, tv_usec = 0\<rparr>
   \<and> unat ms + 1000 \<le> unat (cpu_rlimit ms) * 1000 \<and> unat (cpu_rlimit ms) * 1000 < unat ms + 2000"
proof (intro conjI)
  have n: "unat ms div 1000 * 1000 + unat ms mod 1000 = unat ms" by simp
  then show "unat (tv_sec (it_value (timer_after ms))) * 1000000
      + unat (tv_usec (it_value (timer_after ms))) = unat ms * 1000"
    unfolding timer_parts by linarith
  show "unat (tv_usec (it_value (timer_after ms))) < 1000000"
    unfolding timer_parts by simp
  show "it_value (timer_after ms) = \<lparr>tv_sec = 0, tv_usec = 0\<rparr> \<longleftrightarrow> ms = 0"
  proof
    assume "it_value (timer_after ms) = \<lparr>tv_sec = 0, tv_usec = 0\<rparr>"
    then have "unat ms div 1000 = 0" "unat ms mod 1000 * 1000 = 0"
      unfolding timer_parts(1) [symmetric] timer_parts(2) [symmetric] by simp_all
    with n have "unat ms = 0" by simp
    then show "ms = 0" by (simp add: unat_eq_0)
  qed (simp add: timer_after_def)
  show "it_interval (timer_after ms) = \<lparr>tv_sec = 0, tv_usec = 0\<rparr>" by (simp add: timer_after_def)
  show "unat ms + 1000 \<le> unat (cpu_rlimit ms) * 1000" "unat (cpu_rlimit ms) * 1000 < unat ms + 2000"
    unfolding unat_cpu_rlimit by (rule ceil_1000)+
qed

text \<open>
  On macOS a contained guest is watched over. When \<open>enter\<close> succeeds, the trace ends with the
  watch on the supervisor, whose id was the same before and after the watch was registered, and
  with the sandbox; every step was granted.
\<close>
theorem macos_guest_is_watched:
  assumes "enter MacOS a nr wall_ms cpu_ms K [] = (Inr (), tr)"
  shows "\<exists>mid parent. tr = guards wall_ms cpu_ms @ mid
      @ [Getppid, Kqueue, WatchExit parent, Getppid, SpawnWatcher, SandboxInit sandbox_profile]
    \<and> granted K [] (guards wall_ms cpu_ms)
    \<and> granted K (guards wall_ms cpu_ms @ mid)
        [Getppid, Kqueue, WatchExit parent, Getppid, SpawnWatcher, SandboxInit sandbox_profile]
    \<and> 1 < parent \<and> parent_id K (guards wall_ms cpu_ms @ mid) = parent
    \<and> parent_id K (guards wall_ms cpu_ms @ mid @ [Getppid, Kqueue, WatchExit parent]) = parent
    \<and> list_all (\<lambda>c. case c of Close fd \<Rightarrow> 3 \<le> fd | _ \<Rightarrow> True) mid"
proof -
  from enter_macos_ok [OF assms] obtain mid parent where
    m: "tr = guards wall_ms cpu_ms @ mid
      @ [Getppid, Kqueue, WatchExit parent, Getppid, SpawnWatcher, SandboxInit sandbox_profile]"
    "granted K [] (guards wall_ms cpu_ms)" "ambient_closed K ''/dev/fd'' (guards wall_ms cpu_ms) mid"
    "granted K (guards wall_ms cpu_ms @ mid)
      [Getppid, Kqueue, WatchExit parent, Getppid, SpawnWatcher, SandboxInit sandbox_profile]"
    "1 < parent" "parent_id K (guards wall_ms cpu_ms @ mid) = parent"
    "parent_id K (guards wall_ms cpu_ms @ mid @ [Getppid, Kqueue, WatchExit parent]) = parent"
    by blast
  from m(3) have "list_all (\<lambda>c. case c of Close fd \<Rightarrow> 3 \<le> fd | _ \<Rightarrow> True) mid"
    by (auto simp: ambient_closed_def list_all_iff)
  with m show ?thesis by blast
qed

theorem macos_guest_is_watched_witness:
  "\<exists>tr mid parent. enter MacOS Aarch64 (\<lambda>_. 0) 5000 1000 granting [] = (Inr (), tr)
    \<and> tr = guards 5000 1000 @ mid
      @ [Getppid, Kqueue, WatchExit parent, Getppid, SpawnWatcher, SandboxInit sandbox_profile]"
proof -
  have l: "collect (map entry_descriptor [Inr ''0'', Inr ''5'']) = Inr [0, 5]"
    by code_simp
  obtain tr where e: "enter MacOS Aarch64 (\<lambda>_. 0) 5000 1000 granting [] = (Inr (), tr)"
    using l by (auto simp: enter_def apply_platform_def watch_parent_def os_bind_def invoke_def
        set_signal_def close_ambient_descriptors_def close_listed_def read_dir_def getppid_def
        os_return_def granting_def close_each_eq)
  from macos_guest_is_watched [OF e] e show ?thesis by blast
qed

text \<open>
  No guest runs uncontained. On a platform without a containment policy \<open>enter\<close> never succeeds,
  and on Linux not when the kernel refuses any one of the calls of the policy.
\<close>
theorem uncontained_never_succeeds:
  assumes "p = OtherPlatform \<or> p = Linux \<and> list_ex (\<lambda>c. \<forall>before. outcome K before c \<noteq> Inr ())
    [Setitimer ITIMER_REAL (timer_after wall_ms), Setitimer ITIMER_PROF (timer_after cpu_ms),
     Setrlimit RLIMIT_CPU (cpu_rlimit cpu_ms) (cpu_rlimit cpu_ms), Setrlimit RLIMIT_CORE 0 0,
     Setrlimit RLIMIT_AS memory_ceiling memory_ceiling, NoNewPrivs, Seccomp (seccomp_filter a nr)]"
  shows "\<exists>e. fst (enter p a nr wall_ms cpu_ms K []) = Inl e"
proof (rule ccontr)
  assume "\<not> ?thesis"
  then obtain tr where ok: "enter p a nr wall_ms cpu_ms K [] = (Inr (), tr)"
    by (metis old.unit.exhaust prod.collapse sum.exhaust)
  from assms show False
  proof
    assume "p = OtherPlatform"
    with ok show False
      by (auto simp: enter_def apply_platform_def os_simps os_fail_def)
  next
    assume r: "p = Linux \<and> list_ex (\<lambda>c. \<forall>before. outcome K before c \<noteq> Inr ())
      [Setitimer ITIMER_REAL (timer_after wall_ms), Setitimer ITIMER_PROF (timer_after cpu_ms),
       Setrlimit RLIMIT_CPU (cpu_rlimit cpu_ms) (cpu_rlimit cpu_ms), Setrlimit RLIMIT_CORE 0 0,
       Setrlimit RLIMIT_AS memory_ceiling memory_ceiling, NoNewPrivs, Seccomp (seccomp_filter a nr)]"
    with ok enter_linux_ok [of a nr wall_ms cpu_ms K "()" tr] obtain mid where
      "granted K [] (guards wall_ms cpu_ms)" "granted K (guards wall_ms cpu_ms @ mid) (lockdown a nr)"
      by auto
    then show False using r by (auto simp: guards_def lockdown_def)
  qed
qed

theorem uncontained_never_succeeds_witness:
  "\<exists>e. fst (enter Linux X86_64 (\<lambda>_. 0) 5000 1000
     (granting\<lparr>outcome := \<lambda>_ c. if c = NoNewPrivs then Inl (other ''refused'') else Inr ()\<rparr>) []) = Inl e"
  by (rule uncontained_never_succeeds) simp

text \<open>
  A positive probe is evidence. If the probe of a capability reports containment on Linux, the
  policy had been entered completely and the attempt was refused with a permission error, or the
  process that was started did not succeed.
\<close>
theorem positive_probe_is_evidence:
  assumes "probe Linux a nr true_exists tries capability K [] = (Inr True, tr)"
  shows "(\<exists>mid. tr = guards 1000 1000 @ mid @ lockdown a nr
      \<and> granted K (guards 1000 1000 @ mid) (lockdown a nr))
    \<and> (capability = ''file'' \<and> denied (read_hosts tries)
      \<or> capability = ''network'' \<and> denied (connect_local tries)
      \<or> capability = ''process'' \<and> true_exists
          \<and> (spawn_true tries = SpawnFailed
             \<or> (\<exists>e. spawn_true tries = SpawnError e \<and> error_kind e = PermissionDenied)))"
proof -
  have c: "capability = ''process'' \<longrightarrow> true_exists"
  proof (rule ccontr)
    assume "\<not> ?thesis"
    then have "capability = ''process'' \<and> \<not> true_exists" by blast
    with assms show False unfolding probe_def os_fail_def by simp
  qed
  from assms have b: "os_bind (enter Linux a nr 1000 1000) (\<lambda>_. os_return (
        if capability = ''file'' then denied (read_hosts tries)
        else if capability = ''network'' then denied (connect_local tries)
        else if capability = ''process'' then
          (case spawn_true tries of
             SpawnSucceeded \<Rightarrow> False
           | SpawnFailed \<Rightarrow> True
           | SpawnError e \<Rightarrow> error_kind e = PermissionDenied
               \<or> (Linux = MacOS \<and> error_kind e = NotFound))
        else False)) K [] = (Inr True, tr)"
    using c by (simp add: probe_def split: if_splits)
  then have e: "enter Linux a nr 1000 1000 K [] = (Inr (), tr)"
    by (auto simp: os_simps)
  from b have "if capability = ''file'' then denied (read_hosts tries)
        else if capability = ''network'' then denied (connect_local tries)
        else if capability = ''process'' then
          (case spawn_true tries of
             SpawnSucceeded \<Rightarrow> False
           | SpawnFailed \<Rightarrow> True
           | SpawnError e \<Rightarrow> error_kind e = PermissionDenied
               \<or> (Linux = MacOS \<and> error_kind e = NotFound))
        else False"
    by (simp only: os_simps) blast
  with c e enter_linux_ok [of a nr 1000 1000 K "()" tr] show ?thesis
    by (auto split: if_splits spawn_outcome.splits)
qed

theorem positive_probe_is_evidence_witness:
  "\<exists>tr. probe Linux X86_64 (\<lambda>_. 0) True
     \<lparr>read_hosts = Some (IoError PermissionDenied ''denied''), connect_local = None,
      spawn_true = SpawnSucceeded\<rparr> ''file'' granting [] = (Inr True, tr)
   \<and> (\<exists>mid. tr = guards 1000 1000 @ mid @ lockdown X86_64 (\<lambda>_. 0))"
proof -
  obtain tr where e: "enter Linux X86_64 (\<lambda>_. 0) 1000 1000 granting [] = (Inr (), tr)"
    unfolding enter_linux_ok descriptors_closed_def
    by (simp add: granting_def granted_always)
  then have p: "probe Linux X86_64 (\<lambda>_. 0) True
     \<lparr>read_hosts = Some (IoError PermissionDenied ''denied''), connect_local = None,
      spawn_true = SpawnSucceeded\<rparr> ''file'' granting [] = (Inr True, tr)"
    by (simp add: probe_def os_bind_def os_return_def denied_def)
  from positive_probe_is_evidence [OF p] p show ?thesis by blast
qed

end
