(* ===== verification/Runner.thy ===== *)
theory Runner
  imports Supervision GuestRun Isolation
begin

text \<open>
  \<open>src/main.rs\<close>: the modes of the one executable, with \<open>initial_request\<close> of \<open>src/supervisor.rs\<close>
  and \<open>nonblocking\<close> of \<open>src/transport.rs\<close>. A process is what it wrote to standard output and its
  exit code. The text of a serde error is a parameter.
\<close>

section \<open>Modes\<close>

datatype mode = ProbeMode string | VersionMode | GuestMode | SupervisorMode | UnknownMode

definition probe_flag :: string where "probe_flag = ''--isolation-probe=''"

definition mode_of :: "string option \<Rightarrow> mode" where
  "mode_of arg =
     (case arg of
        None \<Rightarrow> SupervisorMode
      | Some a \<Rightarrow>
          if take (length probe_flag) a = probe_flag then ProbeMode (drop (length probe_flag) a)
          else if a = ''--version'' then VersionMode
          else if a = ''--guest'' then GuestMode
          else UnknownMode)"

definition version_line :: "string \<Rightarrow> string" where
  "version_line package =
     ''ruby-engine '' @ package @ '' mruby=4.0.0 profile='' @ PROFILE @ '' protocol='' @ PROTOCOL @ [CHR 0x0A]"

definition probe_exit :: "io_error + bool \<Rightarrow> int" where
  "probe_exit r = (case r of Inr True \<Rightarrow> 0 | _ \<Rightarrow> 1)"

section \<open>The first frame\<close>

text \<open>
  \<open>fcntl\<close> returns a number, negative for an error, and the flags are set back with one more bit.
\<close>

definition nonblocking :: "int \<times> io_error \<Rightarrow> (int \<Rightarrow> int \<times> io_error) \<Rightarrow> int \<Rightarrow> io_error + unit" where
  "nonblocking getfl setfl o_nonblock =
     (if fst getfl < 0 then Inl (snd getfl)
      else if fst (setfl (or (fst getfl) o_nonblock)) < 0
        then Inl (snd (setfl (or (fst getfl) o_nonblock)))
      else Inr ())"

record first_turn =
  late :: bool \<comment> \<open>\<open>Instant::now() < deadline\<close> is false\<close>
  first_in :: sysread
  first_poll :: "io_error option"

text \<open>\<open>None\<close>: the turns given do not decide, the loop still waits.\<close>

fun await_request :: "serde \<Rightarrow> first_turn list \<Rightarrow> reader \<Rightarrow> (string + json) option" where
  "await_request S [] r = None"
| "await_request S (t # ts) r =
     (if late t then Some (Inl ''Initial request deadline exceeded'')
      else case receive S (first_in t) r of
        (Inl e, _) \<Rightarrow> Some (Inl (error_text e))
      | (Inr (Some v), _) \<Rightarrow> Some (Inr v)
      | (Inr None, r) \<Rightarrow>
          (case first_poll t of
             None \<Rightarrow> await_request S ts r
           | Some e \<Rightarrow>
               if error_kind e \<noteq> Interrupted then Some (Inl (error_text e))
               else await_request S ts r))"

definition initial_request :: "serde \<Rightarrow> io_error + unit \<Rightarrow> io_error + unit \<Rightarrow> first_turn list \<Rightarrow>
    (string + json) option" where
  "initial_request S stdin_flags stdout_flags ts =
     (case stdin_flags of
        Inl e \<Rightarrow> Some (Inl (error_text e))
      | Inr _ \<Rightarrow>
          (case stdout_flags of
             Inl e \<Rightarrow> Some (Inl (error_text e))
           | Inr _ \<Rightarrow> await_request S ts empty_reader))"

section \<open>Processes\<close>

text \<open>
  \<open>policy\<close> is \<open>enter\<close> of \<open>Isolation\<close> for the platform and architecture the program was built for.
  The end of \<open>main\<close>: an error is reported in one more frame, whose own failure is ignored, and
  turns into exit code 1.
\<close>

definition report :: "serde \<Rightarrow> string \<Rightarrow> string \<Rightarrow> sink \<Rightarrow> int \<times> sink" where
  "report S ex message k =
     (1, snd (write_frame S (failure ex ''engine_error'' message) k))"

definition parse_request :: "(json \<Rightarrow> string) \<Rightarrow> json \<Rightarrow> string + request" where
  "parse_request serde_text v =
     (case request_from_value v of None \<Rightarrow> Inl (serde_text v) | Some req \<Rightarrow> Inr req)"

definition guest_main :: "serde \<Rightarrow> native \<Rightarrow> nat \<Rightarrow> f64 option \<Rightarrow> (json \<Rightarrow> string) \<Rightarrow>
    (u64 \<Rightarrow> u64 \<Rightarrow> unit os) \<Rightarrow> kernel \<Rightarrow> bytes \<Rightarrow> sink \<Rightarrow> (int \<times> sink) option" where
  "guest_main S N fuel cpu serde_text policy K input k =
     (case read_frame S input of
        (Inl _, _) \<Rightarrow> Some (report S [] ''Invalid initial frame'' k)
      | (Inr v, input) \<Rightarrow>
        (case parse_request serde_text v of
           Inl message \<Rightarrow> Some (report S [] message k)
         | Inr req \<Rightarrow>
           (case validate req of
              Inl e \<Rightarrow> Some (report S (execution_id req) (request_error_text e) k)
            | Inr _ \<Rightarrow>
              (case fst (policy (wall_ms (req_limits req)) (cpu_ms (req_limits req)) K []) of
                 Inl e \<Rightarrow> Some (report S (execution_id req) (error_text e) k)
               | Inr _ \<Rightarrow>
                 (case guest_run S N fuel cpu req input k of
                    (None, _) \<Rightarrow> None
                  | (Some (ProcessExit c), w) \<Rightarrow> Some (c, stdout w)
                  | (Some (RunError message), w) \<Rightarrow>
                      Some (report S (execution_id req) message (stdout w))
                  | (Some (Event event), w) \<Rightarrow>
                      (case write_frame S event (stdout w) of
                         (Inl e, k) \<Rightarrow> Some (report S (execution_id req) (error_text e) k)
                       | (Inr _, k) \<Rightarrow> Some (0, k)))))))"

fun run_error_text :: "run_error \<Rightarrow> string" where
  "run_error_text (Rejected e) = request_error_text e"
| "run_error_text (NotSpawned e) = error_text e"
| "run_error_text (LoopFailed e) = error_text e"

text \<open>
  The supervisor writes through its own writer while it runs (\<open>host_wire\<close>); the final report goes
  to the same descriptor through standard output, described by the room it has left.
\<close>

definition supervisor_main :: "serde \<Rightarrow> (json \<Rightarrow> string) \<Rightarrow> (string + json) option \<Rightarrow>
    io_error + unit \<Rightarrow> io_error + unit \<Rightarrow> env list \<Rightarrow> nat option \<Rightarrow> io_error \<Rightarrow>
    (int \<times> bytes) option" where
  "supervisor_main S serde_text first spawned flags es left broken =
     (let finish_with = (\<lambda>ex message wire.
        map_prod id written (report S ex message
          \<lparr>written = wire, room = left, fault = broken\<rparr>))
      in case first of
        None \<Rightarrow> None
      | Some (Inl message) \<Rightarrow> Some (finish_with [] message [])
      | Some (Inr v) \<Rightarrow>
        (case parse_request serde_text v of
           Inl message \<Rightarrow> Some (finish_with [] message [])
         | Inr req \<Rightarrow>
           (case validate req of
              Inl e \<Rightarrow> Some (finish_with (execution_id req) (request_error_text e) [])
            | Inr _ \<Rightarrow>
              (case run S req spawned flags es of
                 (None, _) \<Rightarrow> None
               | (Some (Inl e), s) \<Rightarrow>
                   Some (finish_with (execution_id req) (run_error_text e) (host_wire s))
               | (Some (Inr _), s) \<Rightarrow> Some (0, host_wire s)))))"

text \<open>Any other argument: the first frame is still read, as a supervisor would, and then refused.\<close>

definition unknown_main :: "serde \<Rightarrow> (json \<Rightarrow> string) \<Rightarrow> (string + json) option \<Rightarrow> sink \<Rightarrow>
    (int \<times> sink) option" where
  "unknown_main S serde_text first k =
     (case first of
        None \<Rightarrow> None
      | Some (Inl message) \<Rightarrow> Some (report S [] message k)
      | Some (Inr v) \<Rightarrow>
        (case parse_request serde_text v of
           Inl message \<Rightarrow> Some (report S [] message k)
         | Inr req \<Rightarrow>
           (case validate req of
              Inl e \<Rightarrow> Some (report S (execution_id req) (request_error_text e) k)
            | Inr _ \<Rightarrow> Some (report S (execution_id req) ''Unknown runner mode'' k))))"

section \<open>Reports\<close>

lemma report_unbounded:
  assumes "room k = None" "frameable S (failure ex ''engine_error'' message)"
  shows "report S ex message k =
    (1, k\<lparr>written := written k @ frame S (failure ex ''engine_error'' message)\<rparr>)"
  using assms by (simp add: report_def write_frame_unbounded)

lemma run_streams:
  "run S req spawned flags es = (out, s) \<Longrightarrow>
     host_wire s @ backlog (to_host s) = concat (map (frame S) (to_host_values (history s)))"
  using run_end_inv [of S req spawned flags es] by (simp add: streams_def)

text \<open>For the witnesses: a guest that completes at once, and a host that hangs up in mid-frame.\<close>

definition sample_completed :: json where
  "sample_completed = object
     [(''protocol'', String PROTOCOL), (''execution_id'', String ''run''), (''kind'', String ''completed'')]"

definition hang_up :: "env list" where
  "hang_up =
     [quiet\<lparr>guest_out := Ready [0, 0, 0, 1]\<rparr>, quiet\<lparr>guest_out := Ready [116]\<rparr>, quiet,
      quiet\<lparr>host_in := Ready []\<rparr>]"

lemmas turn_defs = iterate_def check_deadline_def check_memory_def host_input_def send_both_def
  guest_send_def host_send_def guest_input_def guest_exit_def poll_def quiet_def

lemmas receive_defs = receive_def target_def want_def CHUNK_def frame_length_def MAX_FRAME_def
  empty_reader_def

lemmas send_defs = send_def pending_def CHUNK_def

lemma sample_completed_event:
  "guest_event (sample_codec sample_completed) sample_request sample_completed s =
     attempt (host_enqueue (sample_codec sample_completed) sample_completed (s\<lparr>completed := True\<rparr>)) Next"
  by (simp add: guest_event_def identified_def sample_completed_def json_simps sample_request_def)

definition started :: sup where
  "started = init_sup\<lparr>to_guest := \<lparr>wbytes = [0, 0, 0, 1, 116], woffset = 0\<rparr>,
     history := [ToGuest (request_value sample_request)]\<rparr>"

lemma guest_enqueue_request:
  "guest_enqueue (sample_codec v) (request_value sample_request) init_sup = (Inr (), started)"
  by (simp add: guest_enqueue_def enqueue_cases pending_def empty_writer_def init_sup_def started_def)

definition in_header :: sup where
  "in_header = started\<lparr>guest := \<lparr>rbytes = [0, 0, 0, 1]\<rparr>, guest_wire := [0],
     to_guest := \<lparr>wbytes = [0, 0, 0, 1, 116], woffset = 1\<rparr>\<rparr>"

lemma hang_up_1:
  "iterate (sample_codec sample_completed) sample_request (quiet\<lparr>guest_out := Ready [0, 0, 0, 1]\<rparr>) started
     = Next in_header"
  by (simp add: turn_defs receive_defs send_defs started_def init_sup_def retryable_def
      would_block_def empty_writer_def Let_def in_header_def)

definition heard :: sup where
  "heard = started\<lparr>guest := empty_reader, guest_wire := [0, 0],
     to_guest := \<lparr>wbytes = [0, 0, 0, 1, 116], woffset = 2\<rparr>, completed := True,
     to_host := \<lparr>wbytes = [0, 0, 0, 1, 116], woffset = 0\<rparr>,
     history := [ToGuest (request_value sample_request), ToHost sample_completed]\<rparr>"

lemma hang_up_2:
  "iterate (sample_codec sample_completed) sample_request (quiet\<lparr>guest_out := Ready [116]\<rparr>)
     in_header = Next heard"
proof -
  have p: "from_slice (sample_codec sample_completed) [116] = Inr sample_completed"
    by (simp add: sample_codec_def)
  show ?thesis
    by (simp add: turn_defs receive_defs send_defs started_def init_sup_def retryable_def
        would_block_def empty_writer_def Let_def p sample_completed_event host_enqueue_def
        enqueue_cases heard_def in_header_def)
qed

definition in_delivery :: sup where
  "in_delivery = heard\<lparr>guest_wire := [0, 0, 0], host_wire := [0],
     to_guest := \<lparr>wbytes = [0, 0, 0, 1, 116], woffset = 3\<rparr>,
     to_host := \<lparr>wbytes = [0, 0, 0, 1, 116], woffset = 1\<rparr>\<rparr>"

lemma hang_up_3:
  "iterate S sample_request quiet heard = Next in_delivery"
  by (simp add: turn_defs receive_defs send_defs started_def init_sup_def retryable_def
      would_block_def empty_writer_def Let_def heard_def in_delivery_def)

lemma hang_up_4:
  "iterate S sample_request (quiet\<lparr>host_in := Ready []\<rparr>) in_delivery
   = Failed disconnected in_delivery"
  by (simp add: turn_defs receive_defs started_def init_sup_def Let_def heard_def in_delivery_def)

lemma hang_up_run:
  "\<exists>s. run (sample_codec sample_completed) sample_request (Inr ()) (Inr ()) hang_up
      = (Some (Inl (LoopFailed disconnected)), s) \<and> host_wire s = [0] \<and> pending (to_host s)"
  by (simp add: run_def sample_request_valid guest_enqueue_request hang_up_def hang_up_1 hang_up_2
      hang_up_3 hang_up_4) (simp add: in_delivery_def pending_def)

section \<open>The guest process\<close>

lemma guest_run_sent:
  assumes "guest_run S N fuel cpu req input k = (out, w)" "validate req = Inr ()"
    and "room k = None" "written k = []"
  shows "room (stdout w) = None \<and> written (stdout w) = concat (map (frame S) (sent w))
    \<and> list_all (\<lambda>v. is_call v \<or> member v ''kind'' = String ''log'') (sent w)"
proof -
  let ?w = "start_world req input k"
  obtain cs where w: "w = host_calls S cs ?w"
    using guest_run_calls [of S N fuel cpu req input k] assms(1) by auto
  have "on_wire S [] ?w" using assms(3,4) by (simp add: on_wire_def start_world_def)
  then have "on_wire S [] w" unfolding w by (rule host_calls_on_wire)
  moreover have "numbered ?w" by (simp add: numbered_def start_world_def call_numbers_def)
  then have "numbered w" unfolding w by (rule host_calls_numbered [OF start_metered [OF assms(2)]])
  ultimately show ?thesis by (simp add: on_wire_def numbered_def)
qed

text \<open>One more frame at the end of such an output, or none if it could not be written.\<close>

lemma terminal_frame:
  assumes "room k = None" "written k = concat (map (frame S) events)"
    and "list_all (\<lambda>v. is_call v \<or> member v ''kind'' = String ''log'') events"
    and "member v ''kind'' = String ''completed''"
  shows "\<exists>events terminal. written (snd (write_frame S v k)) = concat (map (frame S) (events @ terminal))
    \<and> length terminal \<le> 1
    \<and> list_all (\<lambda>v. is_call v \<or> member v ''kind'' = String ''log'') events
    \<and> list_all (\<lambda>v. member v ''kind'' = String ''completed'') terminal"
  using assms
  by (intro exI [of _ events] exI [of _ "if frameable S v then [v] else []"])
    (simp add: write_frame_unbounded)

lemma completed_kind: "member (completed_event req r w cpu v) ''kind'' = String ''completed''"
  by (simp add: completed_event_def json_simps)

lemma guest_main_output:
  assumes "guest_main S N fuel cpu serde_text policy K input k = Some (c, k')"
    and "room k = None" "written k = []"
  shows "\<exists>events terminal. written k' = concat (map (frame S) (events @ terminal))
    \<and> length terminal \<le> 1
    \<and> list_all (\<lambda>v. is_call v \<or> member v ''kind'' = String ''log'') events
    \<and> list_all (\<lambda>v. member v ''kind'' = String ''completed'') terminal" (is ?goal)
proof -
  have rep: ?goal if "Some (report S ex m kb) = Some (c, k')" "room kb = None"
    "written kb = concat (map (frame S) events)"
    "list_all (\<lambda>v. is_call v \<or> member v ''kind'' = String ''log'') events" for ex m kb events
    using terminal_frame [OF that(2-4), of "failure ex ''engine_error'' m"] that(1)
    by (simp add: report_def)
  note early = rep [where kb = k and events = "[]"]
  obtain rd rest where rd: "read_frame S input = (rd, rest)" by force
  show ?goal
  proof (cases rd)
    case (Inl e)
    with early [of "[]" "''Invalid initial frame''"] assms rd show ?thesis by (simp add: guest_main_def)
  next
    case v: (Inr v)
    show ?thesis
    proof (cases "parse_request serde_text v")
      case (Inl m)
      with early [of "[]" m] assms rd v show ?thesis by (simp add: guest_main_def)
    next
      case q: (Inr req)
      show ?thesis
      proof (cases "validate req")
        case (Inl e)
        with early [of "execution_id req" "request_error_text e"] assms rd v q show ?thesis
          by (simp add: guest_main_def)
      next
        case valid: (Inr u)
        show ?thesis
        proof (cases "fst (policy (wall_ms (req_limits req)) (cpu_ms (req_limits req)) K [])")
          case (Inl e)
          with early [of "execution_id req" "error_text e"] assms rd v q valid show ?thesis
            by (simp add: guest_main_def)
        next
          case inside: (Inr u')
          obtain out w where run: "guest_run S N fuel cpu req rest k = (out, w)" by force
          have m: "guest_main S N fuel cpu serde_text policy K input k = (case out of
              None \<Rightarrow> None
            | Some (ProcessExit c) \<Rightarrow> Some (c, stdout w)
            | Some (RunError message) \<Rightarrow> Some (report S (execution_id req) message (stdout w))
            | Some (Event event) \<Rightarrow> (case write_frame S event (stdout w) of
                (Inl e, k) \<Rightarrow> Some (report S (execution_id req) (error_text e) k)
              | (Inr _, k) \<Rightarrow> Some (0, k)))"
            using rd v q valid inside run
            by (simp add: guest_main_def split: option.splits run_outcome.splits)
          from valid have "validate req = Inr ()" by simp
          note sent = guest_run_sent [OF run this assms(2,3)]
          show ?thesis
          proof (cases out)
            case None
            with m assms(1) show ?thesis by simp
          next
            case (Some last_step)
            show ?thesis
            proof (cases last_step)
              case (ProcessExit c')
              with m assms(1) Some sent show ?thesis
                by (intro exI [of _ "sent w"] exI [of _ "[]"]) simp
            next
              case (RunError message)
              with m assms(1) Some sent rep [of "execution_id req" message "stdout w" "sent w"]
              show ?thesis by simp
            next
              case (Event event)
              obtain res k1 where wf: "write_frame S event (stdout w) = (res, k1)" by force
              from run Some Event have "member event ''kind'' = String ''completed''"
                using guest_run_event completed_kind by blast
              note t = terminal_frame [of "stdout w" S "sent w" event] this
              show ?thesis
              proof (cases res)
                case (Inl e)
                with wf sent have "k1 = stdout w"
                  by (auto simp: write_frame_unbounded split: if_splits)
                with m assms(1) Some Event wf Inl sent
                  rep [of "execution_id req" "error_text e" k1 "sent w"]
                show ?thesis by simp
              next
                case (Inr u2)
                with m assms(1) Some Event wf sent t show ?thesis by simp
              qed
            qed
          qed
        qed
      qed
    qed
  qed
qed

section \<open>The first request\<close>

lemma await_ends: "list_ex late ts \<Longrightarrow> \<exists>out. await_request S ts r = Some out"
  by (induction ts arbitrary: r) (auto split: prod.splits sum.splits option.splits)

lemma await_reads:
  "await_request S ts r = Some (Inr v) \<Longrightarrow> \<exists>bs. read_frame S (rbytes r @ bs) = (Inr v, [])"
proof (induction ts arbitrary: r)
  case (Cons t ts)
  obtain res r' where rc: "receive S (first_in t) r = (res, r')" by force
  have step: "\<exists>bs. rbytes r' = rbytes r @ bs" if "res = Inr None"
    using that rc receive_fails(1) receive_more(1) by (cases "first_in t") fastforce+
  have whole: "\<exists>bs. read_frame S (rbytes r @ bs) = (Inr x, [])" if x: "res = Inr (Some x)" for x
  proof (cases "first_in t")
    case (Ready bs)
    then show ?thesis using rc x receive_whole(2) [where rest = "[]"] by fastforce
  next
    case (ReadFails e)
    then show ?thesis using rc x by (auto simp: receive_def split: sum.splits if_splits)
  qed
  show ?case
  proof (cases res)
    case (Inl e)
    with Cons.prems rc show ?thesis by (simp split: if_splits)
  next
    case (Inr next_value)
    show ?thesis
    proof (cases next_value)
      case None
      with Inr step obtain bs where bs: "rbytes r' = rbytes r @ bs" by blast
      from Cons.prems rc Inr None have "await_request S ts r' = Some (Inr v)"
        by (auto split: if_splits option.splits)
      from Cons.IH [OF this] bs show ?thesis by auto
    next
      case (Some x)
      with Cons.prems rc Inr have "x = v" by (simp split: if_splits)
      with whole Inr Some show ?thesis by blast
    qed
  qed
qed simp

text \<open>For the witnesses: the guest process on the sample request, granted its containment.\<close>

abbreviation "guest_codec \<equiv> sample_codec (request_value sample_request)"
abbreviation "fresh_sink \<equiv> \<lparr>written = [], room = None, fault = frame_limit_error\<rparr>"

lemma sample_guest_main:
  "\<exists>k'. guest_main guest_codec sample_native 2 None (\<lambda>_. []) (enter Linux X86_64 (\<lambda>_. 0)) granting
     (frame guest_codec (request_value sample_request)) fresh_sink = Some (0, k')"
proof -
  have "\<exists>tr. enter Linux X86_64 (\<lambda>_. 0) wall cpu granting [] = (Inr (), tr)" for wall cpu
    unfolding enter_linux_ok descriptors_closed_def by (simp add: granting_def granted_always)
  then have c: "fst (enter Linux X86_64 (\<lambda>_. 0) wall cpu granting []) = Inr ()" for wall cpu
    by (metis fst_conv)
  obtain v w where r: "guest_run guest_codec sample_native 2 None sample_request [] fresh_sink
      = (Some (Event v), w)" using sample_guest_run by blast
  have "room (stdout w) = None"
    using guest_run_sent [OF r sample_request_valid] by simp
  then have "\<exists>k'. write_frame guest_codec v (stdout w) = (Inr (), k')"
    by (simp add: write_frame_unbounded)
  then obtain k' where w: "write_frame guest_codec v (stdout w) = (Inr (), k')" by blast
  have "read_frame guest_codec (frame guest_codec (request_value sample_request) @ [])
      = (Inr (request_value sample_request), [])"
    by (rule read_frame_frame) simp_all
  then show ?thesis
    using c r w
    by (simp add: guest_main_def parse_request_def request_from_request_value sample_request_valid)
qed

section \<open>Properties\<close>

text \<open>
  C38: a failing run reports behind whatever was on its way. When the loop ends in an error while a
  frame is only partly delivered, the process appends its diagnostic frame to the bytes sent so
  far and exits with 1: the rest of the interrupted frame is missing in between, so the
  diagnostic does not start at a frame boundary. (The loop itself takes care not to do this when
  the deadline passes.)
\<close>
theorem report_follows_partial_frame:
  assumes "parse_request serde_text v = Inr req" "validate req = Inr ()"
    and "run S req spawned flags es = (Some (Inl e), s)" "pending (to_host s)"
    and "frameable S (failure (execution_id req) ''engine_error'' (run_error_text e))"
  shows "\<exists>missing. missing \<noteq> []
    \<and> host_wire s @ missing = concat (map (frame S) (to_host_values (history s)))
    \<and> supervisor_main S serde_text (Some (Inr v)) spawned flags es None broken
        = Some (1, host_wire s @ frame S (failure (execution_id req) ''engine_error'' (run_error_text e)))"
proof (intro exI [of _ "backlog (to_host s)"] conjI)
  show "backlog (to_host s) \<noteq> []" using assms(4) by (simp add: pending_backlog)
  show "host_wire s @ backlog (to_host s) = concat (map (frame S) (to_host_values (history s)))"
    using assms(3) by (rule run_streams)
  show "supervisor_main S serde_text (Some (Inr v)) spawned flags es None broken
        = Some (1, host_wire s @ frame S (failure (execution_id req) ''engine_error'' (run_error_text e)))"
    using assms by (simp add: supervisor_main_def report_unbounded)
qed

theorem report_follows_partial_frame_witness:
  "supervisor_main (sample_codec sample_completed) (\<lambda>_. []) (Some (Inr (request_value sample_request)))
      (Inr ()) (Inr ()) hang_up None disconnected = Some (1, [0, 0, 0, 0, 1, 116])
   \<and> read_frame (sample_codec sample_completed) [0, 0, 0, 0, 1, 116] = (Inl frame_limit_error, [1, 116])"
proof
  have p: "parse_request (\<lambda>_. []) (request_value sample_request) = Inr sample_request"
    by (simp add: parse_request_def request_from_request_value)
  obtain s where r: "run (sample_codec sample_completed) sample_request (Inr ()) (Inr ()) hang_up
      = (Some (Inl (LoopFailed disconnected)), s)" "host_wire s = [0]" "pending (to_host s)"
    using hang_up_run by blast
  from report_follows_partial_frame [OF p sample_request_valid r(1,3), where broken = disconnected] r(2)
  show "supervisor_main (sample_codec sample_completed) (\<lambda>_. []) (Some (Inr (request_value sample_request)))
      (Inr ()) (Inr ()) hang_up None disconnected = Some (1, [0, 0, 0, 0, 1, 116])"
    by auto
  show "read_frame (sample_codec sample_completed) [0, 0, 0, 0, 1, 116] = (Inl frame_limit_error, [1, 116])"
    by (simp add: read_frame_def read_exact_def)
qed

text \<open>
  C24: what a guest process leaves on standard output is a sequence of whole frames, whatever its
  input and however it ends: log and call events, and behind them at most one terminal frame.
\<close>
theorem guest_process_output:
  assumes "guest_main S N fuel cpu serde_text policy K input k = Some (c, k')"
    and "room k = None" "written k = []"
  shows "\<exists>events terminal. written k' = concat (map (frame S) (events @ terminal))
    \<and> length terminal \<le> 1
    \<and> list_all (\<lambda>v. is_call v \<or> member v ''kind'' = String ''log'') events
    \<and> list_all (\<lambda>v. member v ''kind'' = String ''completed'') terminal"
  using guest_main_output [OF assms] .

theorem guest_process_output_witness:
  "\<exists>k' events terminal. guest_main guest_codec sample_native 2 None (\<lambda>_. []) (enter Linux X86_64 (\<lambda>_. 0))
      granting (frame guest_codec (request_value sample_request)) fresh_sink = Some (0, k')
    \<and> written k' = concat (map (frame guest_codec) (events @ terminal)) \<and> length terminal \<le> 1"
proof -
  obtain k' where g: "guest_main guest_codec sample_native 2 None (\<lambda>_. []) (enter Linux X86_64 (\<lambda>_. 0))
      granting (frame guest_codec (request_value sample_request)) fresh_sink = Some (0, k')"
    using sample_guest_main by blast
  from guest_process_output [OF g] g show ?thesis by auto
qed



text \<open>
  The wait for the first request ends. Once the deadline has passed in some turn the loop has
  decided, and if it returns a value, that value is the one frame made of the bytes it has read.
\<close>
theorem first_request_is_decided:
  assumes "list_ex late ts"
  shows "\<exists>out. await_request S ts empty_reader = Some out
    \<and> (case out of Inl _ \<Rightarrow> True | Inr v \<Rightarrow> \<exists>bs. read_frame S bs = (Inr v, []))"
  using await_ends [OF assms] await_reads by (fastforce split: sum.splits)

theorem first_request_is_decided_witness:
  "\<exists>out. await_request (sample_codec Null)
     [\<lparr>late = False, first_in = Ready [0, 0], first_poll = None\<rparr>,
      \<lparr>late = True, first_in = ReadFails would_block, first_poll = None\<rparr>] empty_reader = Some out"
  using first_request_is_decided [of "[\<lparr>late = False, first_in = Ready [0, 0], first_poll = None\<rparr>,
      \<lparr>late = True, first_in = ReadFails would_block, first_poll = None\<rparr>]" "sample_codec Null"]
  by auto

end
