(* ===== verification/Native.thy ===== *)
theory Native
  imports GuestHost
begin

text \<open>
  The parts of \<open>native/guest.c\<close> that are the repository's own: the metered allocator, the
  instruction hook, the bounded encoder of Ruby values, the resolution of capability paths and
  the admission of compiled code. mruby is not part of the repository; what the code asks of it
  (the class of a value, the decoded instructions of a procedure) is data here.
\<close>

section \<open>The allocator\<close>

text \<open>
  A live block is a pointer with the bytes_asked its header records. An operation is a request to
  \<open>mrb_basic_alloc_func\<close> together with the pointer \<open>realloc\<close> would give, \<open>None\<close> when it fails.
\<close>

record heap =
  allocated :: usize
  peak :: usize
  ceiling :: usize
  blocks :: "(nat \<times> usize) list"
  heap_exit :: "int option"

definition block_size :: "heap \<Rightarrow> nat option \<Rightarrow> usize" where
  "block_size h pointer =
     (case pointer of
        None \<Rightarrow> 0
      | Some p \<Rightarrow> (case map_of (blocks h) p of None \<Rightarrow> 0 | Some n \<Rightarrow> n))"

definition other_blocks :: "heap \<Rightarrow> nat option \<Rightarrow> (nat \<times> usize) list" where
  "other_blocks h pointer = filter (\<lambda>(p, _). Some p \<noteq> pointer) (blocks h)"

definition header_size :: usize where "header_size = 16"

definition allocate :: "nat option \<Rightarrow> nat option \<Rightarrow> usize \<Rightarrow> heap \<Rightarrow> nat option \<times> heap" where
  "allocate realloc pointer bytes_asked h =
     (let previous = block_size h pointer in
      if bytes_asked = 0 then
        (None, h\<lparr>allocated := allocated h - previous, blocks := other_blocks h pointer\<rparr>)
      else if bytes_asked > ceiling h
          \<or> allocated h - previous > ceiling h - bytes_asked
          \<or> bytes_asked > - 1 - header_size
        then (None, h\<lparr>heap_exit := Some 125\<rparr>)
      else case realloc of
        None \<Rightarrow> (None, h\<lparr>heap_exit := Some 125\<rparr>)
      | Some next \<Rightarrow>
          (let total = allocated h - previous + bytes_asked in
           (Some next, h\<lparr>allocated := total, peak := (if total > peak h then total else peak h),
              blocks := (next, bytes_asked) # other_blocks h pointer\<rparr>)))"

text \<open>
  What the C library and mruby owe the allocator: the pointer passed is null or live, and the one
  \<open>realloc\<close> returns is no other live block. After an exit nothing happens any more.
\<close>

type_synonym request_op = "nat option \<times> nat option \<times> usize"

fun proper :: "request_op \<Rightarrow> heap \<Rightarrow> bool" where
  "proper (realloc, pointer, bytes_asked) h \<longleftrightarrow>
     heap_exit h = None
     \<and> (case pointer of None \<Rightarrow> True | Some p \<Rightarrow> p \<in> fst ` set (blocks h))
     \<and> (case realloc of None \<Rightarrow> True | Some p \<Rightarrow> p \<notin> fst ` set (other_blocks h pointer))"

fun heap_step :: "request_op \<Rightarrow> heap \<Rightarrow> heap" where
  "heap_step (realloc, pointer, bytes_asked) h =
     (if proper (realloc, pointer, bytes_asked) h then snd (allocate realloc pointer bytes_asked h) else h)"

definition total_size :: "(nat \<times> usize) list \<Rightarrow> nat" where
  "total_size bs = sum_list (map (\<lambda>(_, n). unat n) bs)"

definition accounted :: "heap \<Rightarrow> bool" where
  "accounted h \<longleftrightarrow> distinct (map fst (blocks h)) \<and> unat (allocated h) = total_size (blocks h)
     \<and> allocated h \<le> ceiling h \<and> allocated h \<le> peak h \<and> peak h \<le> ceiling h"

lemma total_size_filter:
  assumes "distinct (map fst bs)"
  shows "total_size (filter (\<lambda>(p, _). Some p \<noteq> pointer) bs)
      + unat (case pointer of None \<Rightarrow> 0 | Some p \<Rightarrow> (case map_of bs p of None \<Rightarrow> 0 | Some n \<Rightarrow> n))
    = total_size bs"
  using assms
proof (induction bs)
  case Nil
  then show ?case by (auto simp: total_size_def split: option.splits)
next
  case (Cons b bs)
  obtain p n where b: "b = (p, n)" by (cases b)
  show ?case
  proof (cases "pointer = Some p")
    case True
    have "filter (\<lambda>(q, _). Some q \<noteq> pointer) bs = bs"
      using Cons.prems True by (force simp: b filter_id_conv)
    with True show ?thesis by (simp add: b total_size_def)
  next
    case False
    with Cons show ?thesis by (cases pointer) (auto simp: b total_size_def)
  qed
qed

lemma other_blocks_total:
  assumes "accounted h"
  shows "total_size (other_blocks h pointer) + unat (block_size h pointer) = unat (allocated h)"
  using total_size_filter [of "blocks h" pointer] assms
  by (simp add: accounted_def other_blocks_def block_size_def)

lemma heap_step_accounted:
  assumes "accounted h"
  shows "accounted (heap_step op h) \<and> ceiling (heap_step op h) = ceiling h"
proof -
  obtain realloc pointer bytes_asked where op: "op = (realloc, pointer, bytes_asked)" by (cases op) auto
  define rest where "rest = allocated h - block_size h pointer"
  have le: "block_size h pointer \<le> allocated h"
    using other_blocks_total [OF assms, of pointer] by (simp add: word_le_nat_alt)
  then have rest: "unat rest = total_size (other_blocks h pointer)"
    using other_blocks_total [OF assms, of pointer] by (simp add: rest_def unat_sub)
  have dist: "distinct (map fst (other_blocks h pointer))"
    using assms by (simp add: accounted_def other_blocks_def distinct_map_filter)
  have rle: "rest \<le> allocated h"
    using rest other_blocks_total [OF assms, of pointer] by (simp add: word_le_nat_alt)
  show ?thesis
  proof (cases "proper op h")
    case False
    with assms show ?thesis by (simp add: op del: proper.simps)
  next
    case proper: True
    show ?thesis
    proof (cases "bytes_asked = 0")
      case True
      with proper assms rest dist rle show ?thesis
        by (auto simp: op allocate_def accounted_def Let_def rest_def)
    next
      case nonzero: False
      show ?thesis
      proof (cases "bytes_asked > ceiling h \<or> rest > ceiling h - bytes_asked \<or> bytes_asked > - 1 - header_size \<or> realloc = None")
        case True
        with proper nonzero assms show ?thesis
          by (auto simp: op allocate_def accounted_def Let_def rest_def split: option.split)
      next
        case False
        then obtain p where p: "realloc = Some p" and fits: "bytes_asked \<le> ceiling h" "rest \<le> ceiling h - bytes_asked"
          by auto
        from fits have sum: "unat rest + unat bytes_asked \<le> unat (ceiling h)"
          by (simp add: word_le_nat_alt unat_sub)
        then have n: "unat (rest + bytes_asked) = unat rest + unat bytes_asked"
          using unat_u64_less [of "ceiling h"] by (simp add: unat_word_ariths)
        have "p \<notin> fst ` set (other_blocks h pointer)" using proper p by (simp add: op)
        then show ?thesis
          using proper nonzero False p assms dist n rest sum
          by (auto simp: op allocate_def accounted_def Let_def total_size_def word_le_nat_alt
              word_less_nat_alt not_less simp flip: rest_def)
      qed
    qed
  qed
qed

interpretation memory_bound: bounded heap_step "\<lambda>h. unat (allocated h)" "\<lambda>h. unat (ceiling h)" accounted
proof unfold_locales
  fix op h
  show "accounted h \<Longrightarrow> accounted (heap_step op h)" using heap_step_accounted by blast
  show "unat (ceiling (heap_step op h)) = unat (ceiling h)"
    by (cases op) (auto simp: allocate_def Let_def split: option.splits)
  show "accounted h \<Longrightarrow> unat (allocated (heap_step op h)) \<le> unat (ceiling h)"
    using heap_step_accounted [of h op] by (auto simp: accounted_def word_le_nat_alt)
qed

section \<open>The instruction hook\<close>

text \<open>
  The hook runs before every instruction: it counts, and ends the process with 124 when the count
  passes the limit. \<open>executed\<close> counts the instructions that were run after it.
\<close>

record machine =
  counted :: u64
  hook_limit :: u64
  hook_exit :: "int option"
  executed :: nat

definition instruction_hook :: "machine \<Rightarrow> machine" where
  "instruction_hook m =
     (let n = counted m + 1 in
      if n > hook_limit m then m\<lparr>counted := n, hook_exit := Some 124\<rparr> else m\<lparr>counted := n\<rparr>)"

definition machine_step :: "unit \<Rightarrow> machine \<Rightarrow> machine" where
  "machine_step u m =
     (if hook_exit m \<noteq> None then m
      else let m = instruction_hook m in
        if hook_exit m \<noteq> None then m else m\<lparr>executed := Suc (executed m)\<rparr>)"

definition in_count :: "machine \<Rightarrow> bool" where
  "in_count m \<longleftrightarrow> hook_limit m < - 1 \<and>
     (hook_exit m = None \<longrightarrow> executed m = unat (counted m) \<and> counted m \<le> hook_limit m)"

lemma hook_next:
  assumes "c \<le> l" "l < (- 1 :: u64)"
  shows "unat (c + 1) = Suc (unat c)"
proof -
  from assms have "c < - 1" by simp
  then show ?thesis by (rule calls_step(1))
qed

lemma machine_step_count:
  assumes "in_count m"
  shows "in_count (machine_step u m) \<and> executed m \<le> executed (machine_step u m)
    \<and> hook_limit (machine_step u m) = hook_limit m
    \<and> (executed m \<le> unat (hook_limit m) \<longrightarrow> executed (machine_step u m) \<le> unat (hook_limit m))"
  using assms hook_next [of "counted m" "hook_limit m"]
  by (auto simp: machine_step_def instruction_hook_def in_count_def Let_def word_le_nat_alt not_less)

interpretation instruction_budget: budget machine_step executed "\<lambda>m. unat (hook_limit m)" in_count
  using machine_step_count
  by unfold_locales (auto simp: machine_step_def instruction_hook_def Let_def)

section \<open>The encoder\<close>

text \<open>
  What \<open>encode\<close> tells apart: the wrapper class \<open>Record\<close> (whose data may be missing, since Ruby code
  can make an empty instance), the built-in classes, and everything else.
\<close>

datatype rvalue =
    VNil | VFalse | VTrue | VInt i64 | VFloat f64 | VString string | VSymbol string
  | VArray "rvalue list" | VHash "(rvalue \<times> rvalue) list"
  | VRecord "(rvalue \<times> rvalue) list option" | VOther

datatype encode_error =
    TooLong | TooDeep | NonFinite | BadKey | DuplicateKey | InvalidRecord | UnsupportedType

definition append_text :: "nat \<Rightarrow> string \<Rightarrow> string \<Rightarrow> encode_error + string" where
  "append_text limit out bs =
     (if length bs > limit \<or> length out > limit - length bs then Inl TooLong else Inr (out @ bs))"

definition hex_digit :: "nat \<Rightarrow> char" where
  "hex_digit n = (if n < 10 then char_of (48 + n) else char_of (87 + n))"

definition escape :: "char \<Rightarrow> string" where
  "escape c =
     (if c = CHR 0x22 \<or> c = CHR 0x5C then [CHR 0x5C, c]
      else if of_char c < (32 :: nat) then
        CHR 0x5C # ''u00'' @ [hex_digit (of_char c div 16), hex_digit (of_char c mod 16)]
      else [c])"

fun quote_bytes :: "nat \<Rightarrow> string \<Rightarrow> string \<Rightarrow> encode_error + string" where
  "quote_bytes limit out [] = append_text limit out [CHR 0x22]"
| "quote_bytes limit out (c # cs) =
     and_then (append_text limit out (escape c)) (\<lambda>out. quote_bytes limit out cs)"

definition quote :: "nat \<Rightarrow> string \<Rightarrow> string \<Rightarrow> encode_error + string" where
  "quote limit out t = and_then (append_text limit out [CHR 0x22]) (\<lambda>out. quote_bytes limit out t)"

fun text_key :: "rvalue \<Rightarrow> encode_error + string" where
  "text_key (VSymbol s) = Inr s"
| "text_key (VString s) = Inr s"
| "text_key _ = Inl BadKey"

text \<open>\<open>%lld\<close>; \<open>%.17g\<close> is the C library's and a parameter. A float is finite unless its exponent is all ones.\<close>

fun decimal_nat :: "nat \<Rightarrow> string" where
  "decimal_nat n = (if n < 10 then [char_of (48 + n)] else decimal_nat (n div 10) @ [char_of (48 + n mod 10)])"

definition decimal :: "i64 \<Rightarrow> string" where
  "decimal i = (if sint i < 0 then CHR ''-'' # decimal_nat (nat (- sint i)) else decimal_nat (nat (sint i)))"

definition finite_float :: "f64 \<Rightarrow> bool" where
  "finite_float f \<longleftrightarrow> and (drop_bit 52 f) 0x7ff \<noteq> 0x7ff"

definition float_suffix :: "string \<Rightarrow> string" where
  "float_suffix s =
     (if CHR ''.'' \<notin> set s \<and> CHR ''e'' \<notin> set s \<and> CHR ''E'' \<notin> set s then ''.0'' else [])"

text \<open>
  The mutual recursion of \<open>encode\<close> over a value, the elements of an array (\<open>first\<close> tells whether
  to write a comma) and the pairs of a hash, with the normalized keys seen so far.
\<close>

fun encode :: "(f64 \<Rightarrow> string) \<Rightarrow> nat \<Rightarrow> string \<Rightarrow> rvalue \<Rightarrow> nat \<Rightarrow> encode_error + string"
  and encode_items :: "(f64 \<Rightarrow> string) \<Rightarrow> nat \<Rightarrow> bool \<Rightarrow> string \<Rightarrow> rvalue list \<Rightarrow> nat \<Rightarrow> encode_error + string"
  and encode_pairs :: "(f64 \<Rightarrow> string) \<Rightarrow> nat \<Rightarrow> string list \<Rightarrow> string \<Rightarrow> (rvalue \<times> rvalue) list \<Rightarrow> nat \<Rightarrow>
        encode_error + string" where
  "encode F limit out VNil depth =
     (if depth > 64 then Inl TooDeep else append_text limit out ''null'')"
| "encode F limit out VFalse depth =
     (if depth > 64 then Inl TooDeep else append_text limit out ''false'')"
| "encode F limit out VTrue depth =
     (if depth > 64 then Inl TooDeep else append_text limit out ''true'')"
| "encode F limit out (VInt i) depth =
     (if depth > 64 then Inl TooDeep else append_text limit out (decimal i))"
| "encode F limit out (VFloat f) depth =
     (if depth > 64 then Inl TooDeep
      else if \<not> finite_float f then Inl NonFinite
      else and_then (append_text limit out (F f)) (\<lambda>out.
        if float_suffix (F f) \<noteq> [] then append_text limit out (float_suffix (F f)) else Inr out))"
| "encode F limit out (VString s) depth =
     (if depth > 64 then Inl TooDeep else quote limit out s)"
| "encode F limit out (VSymbol s) depth =
     (if depth > 64 then Inl TooDeep else quote limit out s)"
| "encode F limit out (VArray vs) depth =
     (if depth > 64 then Inl TooDeep
      else and_then (append_text limit out ''['') (\<lambda>out.
        and_then (encode_items F limit True out vs (depth + 1)) (\<lambda>out. append_text limit out '']'')))"
| "encode F limit out (VHash kvs) depth =
     (if depth > 64 then Inl TooDeep
      else and_then (append_text limit out ''{'') (\<lambda>out.
        and_then (encode_pairs F limit [] out kvs (depth + 1)) (\<lambda>out. append_text limit out ''}'')))"
| "encode F limit out (VRecord data) depth =
     (if depth > 64 then Inl TooDeep
      else case data of
        None \<Rightarrow> Inl InvalidRecord
      | Some kvs \<Rightarrow> and_then (append_text limit out ''{'') (\<lambda>out.
          and_then (encode_pairs F limit [] out kvs (depth + 1)) (\<lambda>out. append_text limit out ''}'')))"
| "encode F limit out VOther depth =
     (if depth > 64 then Inl TooDeep else Inl UnsupportedType)"
| "encode_items F limit first out [] depth = Inr out"
| "encode_items F limit first out (v # vs) depth =
     and_then (if first then Inr out else append_text limit out '','') (\<lambda>out.
     and_then (encode F limit out v depth) (\<lambda>out. encode_items F limit False out vs depth))"
| "encode_pairs F limit seen out [] depth = Inr out"
| "encode_pairs F limit seen out ((raw, v) # kvs) depth =
     and_then (text_key raw) (\<lambda>key.
     if key \<in> set seen then Inl DuplicateKey
     else and_then (if seen = [] then Inr out else append_text limit out '','') (\<lambda>out.
       and_then (quote limit out key) (\<lambda>out.
       and_then (append_text limit out '':'') (\<lambda>out.
       and_then (encode F limit out v depth) (\<lambda>out.
         encode_pairs F limit (key # seen) out kvs depth)))))"

text \<open>The same without the limit: the text of a value, and which values have one.\<close>

definition quoted :: "string \<Rightarrow> string" where
  "quoted t = [CHR 0x22] @ concat (map escape t) @ [CHR 0x22]"

fun key_of :: "rvalue \<Rightarrow> string" where
  "key_of (VSymbol s) = s"
| "key_of (VString s) = s"
| "key_of _ = []"

fun is_key :: "rvalue \<Rightarrow> bool" where
  "is_key (VSymbol _) = True"
| "is_key (VString _) = True"
| "is_key _ = False"

fun render :: "(f64 \<Rightarrow> string) \<Rightarrow> rvalue \<Rightarrow> string"
  and render_items :: "(f64 \<Rightarrow> string) \<Rightarrow> bool \<Rightarrow> rvalue list \<Rightarrow> string"
  and render_pairs :: "(f64 \<Rightarrow> string) \<Rightarrow> bool \<Rightarrow> (rvalue \<times> rvalue) list \<Rightarrow> string" where
  "render F VNil = ''null''"
| "render F VFalse = ''false''"
| "render F VTrue = ''true''"
| "render F (VInt i) = decimal i"
| "render F (VFloat f) = F f @ float_suffix (F f)"
| "render F (VString s) = quoted s"
| "render F (VSymbol s) = quoted s"
| "render F (VArray vs) = ''['' @ render_items F True vs @ '']''"
| "render F (VHash kvs) = ''{'' @ render_pairs F True kvs @ ''}''"
| "render F (VRecord data) = (case data of None \<Rightarrow> [] | Some kvs \<Rightarrow> ''{'' @ render_pairs F True kvs @ ''}'')"
| "render F VOther = []"
| "render_items F first [] = []"
| "render_items F first (v # vs) = (if first then [] else '','') @ render F v @ render_items F False vs"
| "render_pairs F first [] = []"
| "render_pairs F first ((raw, v) # kvs) =
     (if first then [] else '','') @ quoted (key_of raw) @ '':'' @ render F v @ render_pairs F False kvs"

fun encodable :: "nat \<Rightarrow> rvalue \<Rightarrow> bool"
  and encodable_pairs :: "nat \<Rightarrow> string list \<Rightarrow> (rvalue \<times> rvalue) list \<Rightarrow> bool" where
  "encodable depth (VFloat f) = (depth \<le> 64 \<and> finite_float f)"
| "encodable depth (VArray vs) = (depth \<le> 64 \<and> list_all (encodable (depth + 1)) vs)"
| "encodable depth (VHash kvs) = (depth \<le> 64 \<and> encodable_pairs (depth + 1) [] kvs)"
| "encodable depth (VRecord data) =
     (depth \<le> 64 \<and> (case data of None \<Rightarrow> False | Some kvs \<Rightarrow> encodable_pairs (depth + 1) [] kvs))"
| "encodable depth VOther = False"
| "encodable depth _ = (depth \<le> 64)"
| "encodable_pairs depth seen [] = True"
| "encodable_pairs depth seen ((raw, v) # kvs) =
     (is_key raw \<and> key_of raw \<notin> set seen \<and> encodable depth v
      \<and> encodable_pairs depth (key_of raw # seen) kvs)"

lemma append_text_ok [simp]:
  "append_text limit out bs = Inr out' \<longleftrightarrow> out' = out @ bs \<and> length out + length bs \<le> limit"
  by (auto simp: append_text_def)

lemma quote_bytes_ok:
  "quote_bytes limit out cs = Inr out' \<longleftrightarrow>
     out' = out @ concat (map escape cs) @ [CHR 0x22] \<and> length out' \<le> limit"
  by (induction cs arbitrary: out) (auto simp: result_simps)

lemma quote_ok [simp]:
  "quote limit out t = Inr out' \<longleftrightarrow> out' = out @ quoted t \<and> length out' \<le> limit"
  by (auto simp: quote_def quoted_def result_simps quote_bytes_ok)

lemma text_key_ok [simp]: "text_key raw = Inr key \<longleftrightarrow> is_key raw \<and> key = key_of raw"
  by (cases raw) auto

lemma comma_ok [simp]:
  "(if first then Inr out else append_text limit out bs) = Inr out' \<longleftrightarrow>
     out' = out @ (if first then [] else bs) \<and> (first \<or> length out' \<le> limit)"
  by auto

lemma encode_ok:
  "length out \<le> limit \<Longrightarrow> encode F limit out v depth = Inr out' \<longleftrightarrow>
     encodable depth v \<and> out' = out @ render F v \<and> length out' \<le> limit"
  "length out \<le> limit \<Longrightarrow> encode_items F limit first out vs depth = Inr out' \<longleftrightarrow>
     list_all (encodable depth) vs \<and> out' = out @ render_items F first vs \<and> length out' \<le> limit"
  "length out \<le> limit \<Longrightarrow> encode_pairs F limit seen out kvs depth = Inr out' \<longleftrightarrow>
     encodable_pairs depth seen kvs \<and> out' = out @ render_pairs F (seen = []) kvs
     \<and> length out' \<le> limit"
proof (induction F limit out v depth and F limit first out vs depth and F limit seen out kvs depth
    arbitrary: out' and out' and out' rule: encode_encode_items_encode_pairs.induct)
  case (13 F limit first out v vs depth)
  then show ?case by (auto simp: result_simps)
next
  case (15 F limit seen out raw v kvs depth)
  then show ?case by (auto simp: result_simps)
qed (auto simp: result_simps split: option.splits)

section \<open>Capability paths\<close>

text \<open>
  What a method call on \<open>app\<close> or on a navigated path leads to: a call of the host, the report of an
  unknown path, or a path object to navigate on. \<open>count\<close> is the number of arguments.
\<close>

datatype resolution = CallHost string | UnknownPath string | Navigate string

definition dispatch_path :: "string \<Rightarrow> string \<Rightarrow> string" where
  "dispatch_path prefix name = (if prefix \<noteq> [] then prefix @ ''.'' @ name else name)"

definition below :: "string \<Rightarrow> string \<Rightarrow> bool" where
  "below path candidate \<longleftrightarrow> length candidate > length path
     \<and> take (length path) candidate = path \<and> candidate ! length path = CHR ''.''"

definition app_dispatch :: "string list \<Rightarrow> string \<Rightarrow> string \<Rightarrow> nat \<Rightarrow> resolution" where
  "app_dispatch cat prefix name count =
     (let path = dispatch_path prefix name in
      if list_ex (\<lambda>candidate. path = candidate) cat then CallHost path
      else if \<not> (count = 0 \<and> list_ex (below path) cat) then UnknownPath path
      else Navigate path)"

definition app_call :: "string list \<Rightarrow> string \<Rightarrow> resolution" where
  "app_call cat path =
     (if list_ex (\<lambda>candidate. path = candidate) cat then CallHost path else UnknownPath path)"

text \<open>A chain \<open>app.a.b.c(...)\<close>: every name but the last is a call without arguments.\<close>

fun navigate :: "string list \<Rightarrow> string \<Rightarrow> string list \<Rightarrow> nat \<Rightarrow> resolution" where
  "navigate cat prefix [] count = Navigate prefix"
| "navigate cat prefix [name] count = app_dispatch cat prefix name count"
| "navigate cat prefix (name # names) count =
     (case app_dispatch cat prefix name 0 of
        Navigate path \<Rightarrow> navigate cat path names count
      | r \<Rightarrow> r)"

lemma below_append: "below path (path @ ''.'' @ rest)"
  by (simp add: below_def)

lemma dispatch_path_join:
  "names \<noteq> [] \<Longrightarrow> dispatch_path (dispatch_path prefix name) (join ''.'' names)
     = dispatch_path prefix (join ''.'' (name # names))" if "name \<noteq> []"
  using that by (cases names) (simp_all add: dispatch_path_def)

section \<open>Admission of compiled code\<close>

text \<open>
  A decoded instruction is its opcode with the index of its symbol, and whether the next
  instruction boundary is inside the code; mruby decodes them.
\<close>

datatype opcode =
    OP_CLASS | OP_MODULE | OP_SCLASS | OP_SDEF | OP_ALIAS | OP_UNDEF | OP_SETCONST | OP_SETMCNST
  | OP_SETGV | OP_GETGV | OP_GETCONST | OP_GETMCNST | OP_TDEF | OP_SSEND | OP_SSEND0 | OP_SSENDB
  | OP_SEND | OP_SEND0 | OP_SENDB | OP_other

record instruction =
  insn :: opcode
  operand_b :: nat
  in_bounds :: bool

datatype irep = Irep (iseq: "instruction list") (syms: "string list") (reps: "irep list")

datatype admit_error =
    NestingLimitExceeded | GlobalMutation | InvalidSymbol | Forbidden string | InvalidBoundary

definition forbidden :: "string list" where
  "forbidden =
     [''eval'', ''instance_eval'', ''class_eval'', ''module_eval'', ''require'',
      ''load'', ''autoload'', ''send'', ''__send__'', ''public_send'', ''define_method'',
      ''define_singleton_method'', ''const_get'', ''const_set'', ''remove_const'',
      ''instance_variable_set'', ''instance_variable_get'', ''class_variable_set'',
      ''class_variable_get'', ''singleton_class'', ''extend'', ''include'', ''prepend'',
      ''method_missing'', ''remove_method'', ''alias_method'', ''undef_method'', ''system'', ''exec'',
      ''spawn'', ''fork'', ''sleep'', ''rand'', ''srand'', ''binding'', ''ENV'', ''IO'', ''File'',
      ''Dir'', ''Process'', ''Thread'', ''Fiber'', ''Socket'', ''ObjectSpace'', ''Marshal'', ''Time'',
      ''Random'']"

fun redefines :: "opcode \<Rightarrow> bool" where
  "redefines op = (op \<in> set [OP_CLASS, OP_MODULE, OP_SCLASS, OP_SDEF, OP_ALIAS, OP_UNDEF, OP_SETCONST,
     OP_SETMCNST, OP_SETGV])"

fun named :: "opcode \<Rightarrow> bool" where
  "named op = (op \<in> set [OP_GETGV, OP_GETCONST, OP_GETMCNST, OP_TDEF, OP_SSEND, OP_SSEND0, OP_SSENDB,
     OP_SEND, OP_SEND0, OP_SENDB])"

definition admit_instruction :: "string list \<Rightarrow> instruction \<Rightarrow> admit_error + unit" where
  "admit_instruction ss i =
     (if redefines (insn i) then Inl GlobalMutation
      else if named (insn i) \<and> operand_b i \<ge> length ss then Inl InvalidSymbol
      else if named (insn i) \<and> list_ex (\<lambda>deny. ss ! operand_b i = deny) forbidden
        then Inl (Forbidden (ss ! operand_b i))
      else if \<not> in_bounds i then Inl InvalidBoundary
      else Inr ())"

fun admit_code :: "string list \<Rightarrow> instruction list \<Rightarrow> admit_error + unit" where
  "admit_code ss [] = Inr ()"
| "admit_code ss (i # is) = and_then (admit_instruction ss i) (\<lambda>_. admit_code ss is)"

fun admit :: "irep \<Rightarrow> nat \<Rightarrow> admit_error + unit"
  and admit_all :: "irep list \<Rightarrow> nat \<Rightarrow> admit_error + unit" where
  "admit (Irep code ss rs) depth =
     (if depth > 128 then Inl NestingLimitExceeded
      else and_then (admit_code ss code) (\<lambda>_. admit_all rs (depth + 1)))"
| "admit_all [] depth = Inr ()"
| "admit_all (r # rs) depth = and_then (admit r depth) (\<lambda>_. admit_all rs depth)"

text \<open>All the procedures of a program: itself and those nested in it.\<close>

fun procedures :: "irep \<Rightarrow> irep list" where
  "procedures (Irep code ss rs) = Irep code ss rs # concat (map procedures rs)"

definition harmless :: "string list \<Rightarrow> instruction \<Rightarrow> bool" where
  "harmless ss i \<longleftrightarrow> \<not> redefines (insn i)
     \<and> (named (insn i) \<longrightarrow> operand_b i < length ss \<and> ss ! operand_b i \<notin> set forbidden)"

lemma admit_instruction_ok:
  "admit_instruction ss i = Inr u \<longleftrightarrow> harmless ss i \<and> in_bounds i"
  unfolding admit_instruction_def harmless_def list_ex_iff by auto

lemma admit_code_ok: "admit_code ss is = Inr u \<longleftrightarrow> list_all (\<lambda>i. harmless ss i \<and> in_bounds i) is"
  by (induction "is") (auto simp: result_simps admit_instruction_ok)

definition clean :: "irep \<Rightarrow> bool" where
  "clean r \<longleftrightarrow> list_all (\<lambda>i. harmless (syms r) i \<and> in_bounds i) (iseq r)"

lemma admit_clean:
  "admit r depth = Inr u \<Longrightarrow> list_all clean (procedures r)"
  "admit_all rs depth = Inr u \<Longrightarrow> list_all clean (concat (map procedures rs))"
  by (induction r depth and rs depth arbitrary: u and u rule: admit_admit_all.induct)
    (auto simp: result_simps admit_code_ok clean_def split: if_splits)

section \<open>Lemmas on runs and chains\<close>

definition fresh_heap :: "usize \<Rightarrow> heap" where
  "fresh_heap limit = \<lparr>allocated = 0, peak = 0, ceiling = limit, blocks = [], heap_exit = None\<rparr>"

lemma fresh_heap_accounted: "accounted (fresh_heap limit)"
  by (simp add: accounted_def fresh_heap_def total_size_def)

definition fresh_machine :: "u64 \<Rightarrow> machine" where
  "fresh_machine limit = \<lparr>counted = 0, hook_limit = limit, hook_exit = None, executed = 0\<rparr>"

lemma machine_stopped: "hook_exit m \<noteq> None \<Longrightarrow> fold machine_step us m = m"
  by (induction us arbitrary: m) (simp_all add: machine_step_def)

lemma machine_runs:
  assumes "in_count m" "hook_exit m = None"
  shows "hook_exit (fold machine_step us m) =
      (if executed m + length us \<le> unat (hook_limit m) then None else Some 124)
    \<and> executed (fold machine_step us m) = min (executed m + length us) (unat (hook_limit m))"
  using assms
proof (induction us arbitrary: m)
  case Nil
  then show ?case by (auto simp: in_count_def word_le_nat_alt)
next
  case (Cons u us)
  from Cons.prems have c: "executed m = unat (counted m)" "counted m \<le> hook_limit m" "hook_limit m < - 1"
    by (simp_all add: in_count_def)
  then have n: "unat (counted m + 1) = Suc (unat (counted m))" by (intro hook_next)
  show ?case
  proof (cases "counted m + 1 > hook_limit m")
    case True
    then have "machine_step u m = m\<lparr>counted := counted m + 1, hook_exit := Some 124\<rparr>"
      using Cons.prems by (simp add: machine_step_def instruction_hook_def)
    with True c n show ?thesis
      by (auto simp: machine_stopped word_less_nat_alt word_le_nat_alt min_def)
  next
    case False
    then have s: "machine_step () m = m\<lparr>counted := counted m + 1, executed := Suc (executed m)\<rparr>"
      using Cons.prems by (simp add: machine_step_def instruction_hook_def)
    have "in_count (machine_step () m)" using machine_step_count [OF Cons.prems(1)] by simp
    with Cons.IH [of "machine_step () m"] Cons.prems(2) show ?thesis by (simp add: s)
  qed
qed

lemma app_dispatch_sound:
  "case app_dispatch cat prefix name count of
     CallHost p \<Rightarrow> p \<in> set cat
   | UnknownPath p \<Rightarrow> p \<notin> set cat
   | Navigate p \<Rightarrow> p \<notin> set cat \<and> list_ex (below p) cat"
  by (auto simp: app_dispatch_def Let_def list_ex_iff)

lemma below_join:
  assumes "names \<noteq> []"
  shows "below path (dispatch_path path (join ''.'' names)) \<or> path = []"
  using below_append [of path "join ''.'' names"] by (simp add: dispatch_path_def)

text \<open>One step of a chain along a path of the catalog that no shorter path shadows.\<close>

lemma navigate_chain:
  assumes "names \<noteq> []" "[] \<notin> set names"
    and "dispatch_path prefix (join ''.'' names) \<in> set cat"
    and "\<And>k. 0 < k \<Longrightarrow> k < length names \<Longrightarrow> dispatch_path prefix (join ''.'' (take k names)) \<notin> set cat"
  shows "navigate cat prefix names count = CallHost (dispatch_path prefix (join ''.'' names))"
  using assms
proof (induction cat prefix names count rule: navigate.induct)
  case (1 cat prefix count)
  then show ?case by simp
next
  case (2 cat prefix name count)
  then show ?case by (auto simp: app_dispatch_def Let_def list_ex_iff)
next
  case (3 cat prefix name name' names count)
  let ?path = "dispatch_path prefix name"
  have name: "name \<noteq> []" using "3.prems"(2) by auto
  then have path: "?path \<noteq> []" by (simp add: dispatch_path_def)
  have split: "dispatch_path ?path (join ''.'' ns) = dispatch_path prefix (join ''.'' (name # ns))"
    if "ns \<noteq> []" for ns
    using that name by (rule dispatch_path_join [rotated])
  have target: "dispatch_path ?path (join ''.'' (name' # names)) \<in> set cat"
    using "3.prems"(3) by (subst split) simp_all
  have "?path \<notin> set cat" using "3.prems"(4) [of 1] by simp
  moreover have "list_ex (below ?path) cat"
    using below_join [of "name' # names" ?path] path target by (auto simp: list_ex_iff)
  ultimately have d: "app_dispatch cat prefix name 0 = Navigate ?path"
    by (auto simp: app_dispatch_def Let_def list_ex_iff)
  have "navigate cat ?path (name' # names) count =
      CallHost (dispatch_path ?path (join ''.'' (name' # names)))"
  proof (rule "3.IH" [OF d])
    fix k assume k: "0 < k" "k < length (name' # names)"
    then have "take k (name' # names) \<noteq> []" by simp
    then have "dispatch_path ?path (join ''.'' (take k (name' # names))) =
        dispatch_path prefix (join ''.'' (take (Suc k) (name # name' # names)))"
      by (subst split) simp_all
    then show "dispatch_path ?path (join ''.'' (take k (name' # names))) \<notin> set cat"
      using "3.prems"(4) [of "Suc k"] k by simp
  qed (use "3.prems"(2) target in simp_all)
  also have "\<dots> = CallHost (dispatch_path prefix (join ''.'' (name # name' # names)))"
    by (subst split) simp_all
  finally show ?case by (simp add: d)
qed

section \<open>Properties\<close>

text \<open>
  C28: the native side's memory is accounted for to the byte. After any sequence of allocations,
  reallocations and frees the counter is the total size of the live blocks and, as the peak that
  is reported, never more than the limit.
\<close>
theorem memory_is_accounted:
  "let h = fold heap_step ops (fresh_heap limit) in
     unat (allocated h) = total_size (blocks h) \<and> unat (allocated h) \<le> unat limit
     \<and> allocated h \<le> peak h \<and> peak h \<le> limit"
proof -
  have "accounted (fold heap_step ops (fresh_heap limit))"
    by (rule memory_bound.run_sound [OF fresh_heap_accounted])
  moreover have "unat (allocated (fold heap_step ops (fresh_heap limit))) \<le> unat limit"
    using memory_bound.run_within [OF fresh_heap_accounted [of limit], of ops]
    by (simp add: fresh_heap_def)
  moreover have "unat (ceiling (fold heap_step ops (fresh_heap limit))) = unat limit"
    using memory_bound.run_limit [of ops "fresh_heap limit"] by (simp add: fresh_heap_def)
  ultimately show ?thesis by (simp add: accounted_def Let_def word_le_nat_alt)
qed

text \<open>
  C29: the instruction budget is exact. A program runs as many instructions as its limit allows, and
  the one after the last ends the process with the exit code the supervisor reads as such.
\<close>
theorem instruction_budget_exact:
  assumes "limit < - 1"
  shows "let m = fold machine_step steps (fresh_machine limit) in
    executed m = min (length steps) (unat limit)
    \<and> hook_exit m = (if length steps \<le> unat limit then None else Some 124)"
proof -
  have "in_count (fresh_machine limit)" "hook_exit (fresh_machine limit) = None"
    using assms by (simp_all add: in_count_def fresh_machine_def)
  from machine_runs [OF this, of steps] show ?thesis by (simp add: fresh_machine_def Let_def)
qed

theorem instruction_budget_exact_witness:
  "let m = fold machine_step [(), ()] (fresh_machine 1) in executed m = 1 \<and> hook_exit m = Some 124"
proof -
  have "(1 :: u64) < - 1"
    by (simp add: word_less_nat_alt unsigned_minus_1_eq_mask mask_eq_exp_minus_1)
  from instruction_budget_exact [OF this, of "[(), ()]"] show ?thesis by simp
qed

text \<open>
  C27: the bounded encoder is the unbounded one cut off, never a truncated text. It returns exactly
  the text of the value, and exactly when the value has one (built-in classes, finite floats,
  distinct keys, at most 64 levels) that fits the byte limit.
\<close>
theorem encoder_is_exact:
  "encode F limit [] v 0 = Inr t \<longleftrightarrow> encodable 0 v \<and> t = render F v \<and> length t \<le> limit"
  using encode_ok(1) [of "[]" limit F v 0 t] by simp

text \<open>
  A path of the catalog can be called by its dotted names. Following the names one by one leads
  to the call of exactly that path, unless a shorter prefix of it is itself in the catalog.
\<close>
theorem catalog_path_is_reachable:
  assumes "names \<noteq> []" "[] \<notin> set names" "join ''.'' names \<in> set cat"
    and "list_all (\<lambda>k. join ''.'' (take k names) \<notin> set cat) [1..<length names]"
  shows "navigate cat [] names count = CallHost (join ''.'' names)"
  using navigate_chain [of names "[]" cat count] assms
  by (simp add: dispatch_path_def list_all_iff)

theorem catalog_path_is_reachable_witness:
  "navigate [''records.all'', ''records.list''] [] [''records'', ''list''] 2 = CallHost ''records.list''"
  using catalog_path_is_reachable [of "[''records'', ''list'']" "[''records.all'', ''records.list'']" 2]
  by (simp add: upt_rec)

text \<open>
  Only the catalog is ever called. However a program navigates, a call it causes is of a path
  of the catalog, a path reported unknown is not in it, and a path object is handed out only
  above a path that can be called.
\<close>
theorem only_catalog_is_called:
  "case navigate cat prefix (name # names) count of
     CallHost p \<Rightarrow> p \<in> set cat
   | UnknownPath p \<Rightarrow> p \<notin> set cat
   | Navigate p \<Rightarrow> p \<notin> set cat \<and> list_ex (below p) cat"
proof (induction names arbitrary: prefix name)
  case Nil
  show ?case using app_dispatch_sound by simp
next
  case (Cons n names)
  from app_dispatch_sound [of cat prefix name 0] Cons.IH show ?case
    by (cases "app_dispatch cat prefix name 0") simp_all
qed



end
