(* ===== verification/Executor.thy ===== *)
theory Executor
  imports GuestRun Native
begin

text \<open>
  \<open>ruby_execute\<close> of \<open>src/native/guest.c\<close>: the C layer between mruby and the Rust side, as an
  instance of \<open>native\<close>. The interpreter is a parameter, the record \<open>mruby\<close>: what it allocates, what its
  compiler returns, and the program it runs, a strategy that looks at what the native methods have
  answered so far. What the C code does with all this is modelled: the set-up and admission in
  \<open>run\<close>, every native method, the exchange with the host, and the presentation of errors.
\<close>

section \<open>Values and exceptions\<close>

fun of_ruby :: "ruby \<Rightarrow> rvalue" where
  "of_ruby RNil = VNil"
| "of_ruby RFalse = VFalse"
| "of_ruby RTrue = VTrue"
| "of_ruby (RInt i) = VInt i"
| "of_ruby (RFloat f) = VFloat f"
| "of_ruby (RString s) = VString s"
| "of_ruby (RArray vs) = VArray (map of_ruby vs)"
| "of_ruby (RHash h) = VHash (map (\<lambda>(k, v). (of_ruby k, of_ruby v)) h)"
| "of_ruby (RRecord h) = VRecord (Some (map (\<lambda>(k, v). (of_ruby k, of_ruby v)) h))"

text \<open>
  \<open>Error_class\<close> is the anonymous class of failed capability calls; \<open>Guest_class\<close> stands for every
  class the C code does not name. The message and the \<open>@code\<close> are there when they are strings.
\<close>

datatype exn_class =
    E_TYPE_ERROR | E_KEY_ERROR | E_NOMETHOD_ERROR | E_RANGE_ERROR | E_RUNTIME_ERROR
  | E_ARGUMENT_ERROR | E_SYNTAX_ERROR | Error_class | Guest_class string

record exn =
  x_class :: exn_class
  x_message :: "string option"
  x_code :: "string option"

definition raised :: "exn_class \<Rightarrow> string \<Rightarrow> exn" where
  "raised c message = \<lparr>x_class = c, x_message = Some message, x_code = None\<rparr>"

fun encode_exn :: "encode_error \<Rightarrow> exn" where
  "encode_exn TooLong =
     raised E_RANGE_ERROR ''Encoded value exceeds byte limit; return a smaller summary''"
| "encode_exn TooDeep = raised E_RANGE_ERROR ''Cyclic or excessively nested result''"
| "encode_exn NonFinite =
     raised E_TYPE_ERROR ''Non-finite numbers cannot cross the host boundary''"
| "encode_exn BadKey = raised E_TYPE_ERROR ''Object keys must be strings or symbols''"
| "encode_exn DuplicateKey = raised E_TYPE_ERROR ''Duplicate normalized string/symbol key''"
| "encode_exn InvalidRecord = raised E_TYPE_ERROR ''Invalid Record''"
| "encode_exn UnsupportedType =
     raised E_TYPE_ERROR ''Unsupported result type; return structured data''"

fun decode_exn :: "decode_error \<Rightarrow> exn" where
  "decode_exn NestingLimit = raised E_RANGE_ERROR ''Value exceeds nesting limit''"
| "decode_exn InvalidNode = raised E_TYPE_ERROR ''Invalid host value''"
| "decode_exn EndOfNodes = raised E_TYPE_ERROR ''Invalid host value''"

fun admit_exn :: "admit_error \<Rightarrow> exn" where
  "admit_exn NestingLimitExceeded = raised E_RANGE_ERROR ''Compiler nesting limit exceeded''"
| "admit_exn GlobalMutation = raised E_SYNTAX_ERROR
     ''Classes, monkey-patching and global mutation are outside opencompany-code-v1''"
| "admit_exn InvalidSymbol = raised E_SYNTAX_ERROR ''Invalid symbol reference''"
| "admit_exn (Forbidden name) =
     raised E_SYNTAX_ERROR (''Unsupported Ruby profile capability: '' @ name)"
| "admit_exn InvalidBoundary = raised E_SYNTAX_ERROR ''Invalid compiler instruction boundary''"

text \<open>What a native method gives back to the Ruby code: a value, a path object, or an exception.\<close>

datatype answer = Value rvalue | Path string | Raised exn

section \<open>Records\<close>

text \<open>
  A record is the hash in its \<open>@data\<close>, if it has one. Hash look-up compares with \<open>eql?\<close>, under
  which a string is equal to the strings with its bytes only; a missing key reads as nil.
\<close>

type_synonym pairs = "(rvalue \<times> rvalue) list"

definition hash_get :: "pairs \<Rightarrow> string \<Rightarrow> rvalue" where
  "hash_get h k = (case map_of h (VString k) of Some v \<Rightarrow> v | None \<Rightarrow> VNil)"

definition hash_key :: "pairs \<Rightarrow> string \<Rightarrow> bool" where
  "hash_key h k \<longleftrightarrow> map_of h (VString k) \<noteq> None"

definition record_data :: "pairs option \<Rightarrow> exn + pairs" where
  "record_data data = (case data of Some h \<Rightarrow> Inr h | None \<Rightarrow> Inl (encode_exn InvalidRecord))"

fun keyed :: "rvalue \<Rightarrow> exn + string" where
  "keyed key = (case text_key key of Inl e \<Rightarrow> Inl (encode_exn e) | Inr k \<Rightarrow> Inr k)"

fun answered :: "exn + answer \<Rightarrow> answer" where
  "answered (Inl x) = Raised x"
| "answered (Inr a) = a"

text \<open>
  In \<open>record_get\<close> C leaves open which of the two arguments is evaluated first, hence which of two
  errors is raised; here it is the record's.
\<close>

definition record_get :: "pairs option \<Rightarrow> rvalue \<Rightarrow> answer" where
  "record_get self key = answered
     (and_then (record_data self) (\<lambda>h. and_then (keyed key) (\<lambda>k. Inr (Value (hash_get h k)))))"

definition record_fetch :: "pairs option \<Rightarrow> rvalue \<Rightarrow> rvalue option \<Rightarrow> answer" where
  "record_fetch self key fallback = answered
     (and_then (keyed key) (\<lambda>k. and_then (record_data self) (\<lambda>h.
        if hash_key h k then Inr (Value (hash_get h k))
        else case fallback of
          Some v \<Rightarrow> Inr (Value v)
        | None \<Rightarrow> Inl (raised E_KEY_ERROR ''Record key is missing; use [] for an optional field''))))"

definition record_field :: "pairs option \<Rightarrow> string \<Rightarrow> answer" where
  "record_field self name = answered
     (and_then (record_data self) (\<lambda>h.
        if hash_key h name then Inr (Value (hash_get h name))
        else Inl (raised E_NOMETHOD_ERROR ''Unknown Record field; inspect keys'')))"

definition record_keys :: "pairs option \<Rightarrow> answer" where
  "record_keys self = answered
     (and_then (record_data self) (\<lambda>h. Inr (Value (VArray (map fst h)))))"

definition record_values :: "pairs option \<Rightarrow> answer" where
  "record_values self = answered
     (and_then (record_data self) (\<lambda>h. Inr (Value (VArray (map snd h)))))"

definition record_length :: "pairs option \<Rightarrow> answer" where
  "record_length self = answered
     (and_then (record_data self) (\<lambda>h. Inr (Value (VInt (of_nat (length h))))))"

definition record_pairs :: "pairs option \<Rightarrow> answer" where
  "record_pairs self = answered
     (and_then (record_data self) (\<lambda>h. Inr (Value (VArray (map (\<lambda>(key, _).
        VArray [key, case map_of h key of Some v \<Rightarrow> v | None \<Rightarrow> VNil]) h)))))"

section \<open>The exchange with the host\<close>

text \<open>The envelope of a reply: its \<open>value\<close>, or an exception with its \<open>message\<close> and \<open>code\<close>.\<close>

definition envelope_answer :: "pairs \<Rightarrow> answer" where
  "envelope_answer h =
     (if hash_get h ''ok'' \<noteq> VTrue then Raised
        \<lparr>x_class = Error_class,
         x_message = Some (case hash_get h ''message'' of VString s \<Rightarrow> s | _ \<Rightarrow> ''Capability call failed''),
         x_code = (case hash_get h ''code'' of VString s \<Rightarrow> Some s | _ \<Rightarrow> None)\<rparr>
      else Value (hash_get h ''value''))"

definition decode_record :: "tree \<Rightarrow> exn + pairs" where
  "decode_record t =
     (case decode (strings t) (nodes t) 0 True of
        Inl e \<Rightarrow> Inl (decode_exn e)
      | Inr (v, _) \<Rightarrow> record_data (case of_ruby v of VRecord data \<Rightarrow> data | _ \<Rightarrow> None))"

definition exchange_answer :: "int \<times> tree option \<Rightarrow> answer" where
  "exchange_answer a =
     (case a of
        (status, Some t) \<Rightarrow>
          if status \<noteq> 0 then Raised (raised E_RUNTIME_ERROR ''Host protocol failed'')
          else answered (and_then (decode_record t) (\<lambda>h. Inr (envelope_answer h)))
      | (status, None) \<Rightarrow> Raised (raised E_RUNTIME_ERROR ''Host protocol failed''))"

text \<open>A native method either answers by itself or asks the host; \<open>Ask\<close> has the callback's arguments.\<close>

datatype reaction = Local answer | Ask string string string

definition exchange_ask :: "(f64 \<Rightarrow> string) \<Rightarrow> native_request \<Rightarrow> string \<Rightarrow> string \<Rightarrow> rvalue \<Rightarrow> reaction" where
  "exchange_ask F q what path args =
     (case encode F (unat (result_limit q)) [] args 0 of
        Inl e \<Rightarrow> Local (Raised (encode_exn e))
      | Inr json \<Rightarrow>
          if CHR 0x00 \<in> set path
          then Local (Raised (raised E_ARGUMENT_ERROR ''string contains null byte''))
          else Ask what path json)"

section \<open>The native methods\<close>

text \<open>
  The methods \<open>run\<close> registers, with the receiver and the arguments after \<open>mrb_get_args\<close>. \<open>Dispatch\<close> is
  a call on a path object, with its \<open>@path\<close> if that is a string.
\<close>

datatype native_call =
    Dispatch "string option" string "rvalue list"
  | Call string "rvalue list"
  | App | Ctx
  | Capture "rvalue list"
  | Generate rvalue
  | Parse string
  | Record_get "pairs option" rvalue
  | Record_fetch "pairs option" rvalue "rvalue option"
  | Record_field "pairs option" string
  | Record_keys "pairs option" | Record_values "pairs option"
  | Record_pairs "pairs option" | Record_length "pairs option"

fun resolve :: "(f64 \<Rightarrow> string) \<Rightarrow> native_request \<Rightarrow> rvalue list \<Rightarrow> resolution \<Rightarrow> reaction" where
  "resolve F q args (CallHost path) = exchange_ask F q ''call'' path (VArray args)"
| "resolve F q args (UnknownPath path) = exchange_ask F q ''unknown'' path VNil"
| "resolve F q args (Navigate path) = Local (Path path)"

fun react :: "(f64 \<Rightarrow> string) \<Rightarrow> native_request \<Rightarrow> string list \<Rightarrow> pairs \<Rightarrow> native_call \<Rightarrow> reaction" where
  "react F q cat globs (Dispatch None name args) =
     Local (Raised (raised E_TYPE_ERROR ''Invalid capability path''))"
| "react F q cat globs (Dispatch (Some prefix) name args) =
     resolve F q args (app_dispatch cat prefix name (length args))"
| "react F q cat globs (Call path args) = resolve F q args (app_call cat path)"
| "react F q cat globs App =
     (if capabilities q = 0
      then Local (Raised (raised E_RUNTIME_ERROR ''app capabilities are unavailable in this profile''))
      else Local (Path []))"
| "react F q cat globs Ctx = Local (Value (hash_get globs ''ctx''))"
| "react F q cat globs (Capture args) = exchange_ask F q ''log'' [] (VArray args)"
| "react F q cat globs (Generate v) =
     (case encode F (unat (result_limit q)) [] v 0 of
        Inl e \<Rightarrow> Local (Raised (encode_exn e))
      | Inr json \<Rightarrow> Local (Value (VString json)))"
| "react F q cat globs (Parse s) = exchange_ask F q ''json'' [] (VString s)"
| "react F q cat globs (Record_get self key) = Local (record_get self key)"
| "react F q cat globs (Record_fetch self key fallback) = Local (record_fetch self key fallback)"
| "react F q cat globs (Record_field self name) = Local (record_field self name)"
| "react F q cat globs (Record_keys self) = Local (record_keys self)"
| "react F q cat globs (Record_values self) = Local (record_values self)"
| "react F q cat globs (Record_pairs self) = Local (record_pairs self)"
| "react F q cat globs (Record_length self) = Local (record_length self)"

section \<open>The interpreter\<close>

text \<open>
  A turn of the program is the work up to the next native call or the end: instructions and memory
  requests in their order, those a native method makes included. A program that never gets there
  is one whose turn has more instructions than the limit. A native method is entered by an
  instruction of its own. \<open>trace\<close> is an exception's backtrace: the entries that are strings.
\<close>

type_synonym trace = "string option list option"

datatype tick = Instruction | Memory request_op

datatype event = Invoke native_call | Leave "(exn \<times> trace) + rvalue"

datatype parse = ParserNull | ParseErrors int int string | CompileFailed | Compiled irep

record mruby =
  boot :: "native_request \<Rightarrow> request_op list \<times> bool"
  set_up :: "native_request \<Rightarrow> request_op list"
  parsed :: "native_request \<Rightarrow> request_op list \<times> parse"
  program :: "native_request \<Rightarrow> answer list \<Rightarrow> tick list \<times> event"
  show_float :: "f64 \<Rightarrow> string"
  backtrace :: "exn \<Rightarrow> trace"
  presentation :: "native_request \<Rightarrow> exn \<Rightarrow> request_op list"
  result_malloc :: "bytes \<Rightarrow> bool"

text \<open>The metered state: the instruction counter and the heap. \<open>stopped\<close> is a process exit.\<close>

type_synonym meters = "machine \<times> heap"

fun stopped :: "meters \<Rightarrow> int option" where
  "stopped (m, h) = (case hook_exit m of Some c \<Rightarrow> Some c | None \<Rightarrow> heap_exit h)"

fun tick_step :: "tick \<Rightarrow> meters \<Rightarrow> meters" where
  "tick_step Instruction (m, h) = (if stopped (m, h) \<noteq> None then (m, h) else (machine_step () m, h))"
| "tick_step (Memory op) (m, h) = (if stopped (m, h) \<noteq> None then (m, h) else (m, heap_step op h))"

definition fresh_meters :: "native_request \<Rightarrow> meters" where
  "fresh_meters q = (fresh_machine (instruction_limit q), fresh_heap (memory_limit q))"

section \<open>Presentation of the result\<close>

text \<open>\<open>snprintf\<close> into a buffer of \<open>n\<close> bytes: the text up to its first zero byte, cut, and a zero byte.\<close>

definition c_buffer :: "nat \<Rightarrow> string \<Rightarrow> string" where
  "c_buffer n s = take (n - 1) (c_string s) @ [CHR 0x00]"

definition blank_result :: "meters \<Rightarrow> native_result" where
  "blank_result s =
     \<lparr>r_json = None, error_buffer = [CHR 0x00], error_type = [CHR 0x00], r_line = 0, r_column = 0,
      r_status = 0, peak_memory = peak (snd s), r_instructions = counted (fst s)\<rparr>"

text \<open>\<open>atoi\<close>, undefined in C beyond the range of \<open>int\<close>.\<close>

definition digit :: "char \<Rightarrow> bool" where
  "digit c \<longleftrightarrow> 48 \<le> (of_char c :: nat) \<and> (of_char c :: nat) \<le> 57"

definition space :: "char \<Rightarrow> bool" where
  "space c \<longleftrightarrow> of_char c = (32 :: nat) \<or> 9 \<le> (of_char c :: nat) \<and> (of_char c :: nat) \<le> 13"

fun atoi_digits :: "int \<Rightarrow> string \<Rightarrow> int" where
  "atoi_digits n [] = n"
| "atoi_digits n (c # cs) = (if digit c then atoi_digits (10 * n + (of_char c - 48)) cs else n)"

definition atoi :: "string \<Rightarrow> int" where
  "atoi s =
     (case dropWhile space s of
        [] \<Rightarrow> 0
      | c # cs \<Rightarrow>
          if c = CHR ''-'' then - atoi_digits 0 cs
          else if c = CHR ''+'' then atoi_digits 0 cs
          else atoi_digits 0 (c # cs))"

definition trace_entry :: "string \<Rightarrow> string \<Rightarrow> bool" where
  "trace_entry name entry \<longleftrightarrow> \<not> (length entry \<le> length name + 1)
     \<and> \<not> (take (length name) entry \<noteq> name \<or> entry ! length name \<noteq> CHR '':'')"

fun trace_line :: "string \<Rightarrow> string option list \<Rightarrow> int option" where
  "trace_line name [] = None"
| "trace_line name (None # es) = trace_line name es"
| "trace_line name (Some e # es) =
     (if trace_entry name e then Some (atoi (drop (length name + 1) e)) else trace_line name es)"

definition error_details :: "native_request \<Rightarrow> exn \<Rightarrow> trace \<Rightarrow> native_result \<Rightarrow> native_result" where
  "error_details q x tr r =
     (let r = (case x_code x of
                 Some c \<Rightarrow> if x_class x = Error_class then r\<lparr>error_type := c_buffer 64 c\<rparr> else r
               | None \<Rightarrow> r);
          r = (case x_message x of Some m \<Rightarrow> r\<lparr>error_buffer := c_buffer 2048 m\<rparr> | None \<Rightarrow> r) in
      case tr of
        None \<Rightarrow> r
      | Some es \<Rightarrow>
          (case trace_line (n_filename q) es of
             Some n \<Rightarrow> r\<lparr>r_line := n, r_column := -1\<rparr>
           | None \<Rightarrow> r))"

text \<open>The failure branch of \<open>ruby_execute\<close>; \<open>status\<close> is what \<open>run\<close> had set when it was left.\<close>

definition failed :: "mruby \<Rightarrow> native_request \<Rightarrow> int \<Rightarrow> exn \<Rightarrow> trace \<Rightarrow> meters \<Rightarrow> native_end" where
  "failed V q status x tr s =
     (let s = fold tick_step (map Memory (presentation V q x)) s in
      case stopped s of
        Some c \<Rightarrow> Exited c
      | None \<Rightarrow> Finished (error_details q x tr ((blank_result s)
          \<lparr>r_status := (if status = 0 then 2 else status),
           error_buffer := c_buffer 2048 ''Ruby execution failed''\<rparr>)))"

definition finished :: "mruby \<Rightarrow> native_request \<Rightarrow> rvalue \<Rightarrow> meters \<Rightarrow> native_end" where
  "finished V q v s =
     (case encode (show_float V) (unat (result_limit q)) [] v 0 of
        Inl e \<Rightarrow> failed V q 0 (encode_exn e) (backtrace V (encode_exn e)) s
      | Inr json \<Rightarrow>
          if \<not> result_malloc V (as_bytes json) then Exited 125
          else Finished ((blank_result s)\<lparr>r_json := Some (as_bytes json)\<rparr>))"

section \<open>Execution\<close>

text \<open>
  The program from the top: \<open>answers\<close> are the host's answers still to be used, \<open>past\<close> what the native
  methods have answered. Each unit of fuel is a native call, each of which counts an instruction, so
  \<open>replay_fuel\<close> shows one unit more than the limit to be enough for every run.
\<close>

fun replay :: "mruby \<Rightarrow> native_request \<Rightarrow> string list \<Rightarrow> pairs \<Rightarrow> nat \<Rightarrow> (int \<times> tree option) list \<Rightarrow>
    answer list \<Rightarrow> meters \<Rightarrow> native_step" where
  "replay V q cat globs 0 answers past s = End (Exited 124)"
| "replay V q cat globs (Suc n) answers past s =
     (case program V q past of (ticks, event) \<Rightarrow>
      let s = fold tick_step ticks s in
      case stopped s of
        Some c \<Rightarrow> End (Exited c)
      | None \<Rightarrow>
        (case event of
           Leave (Inl (x, tr)) \<Rightarrow> End (failed V q 0 x tr s)
         | Leave (Inr v) \<Rightarrow> End (finished V q v s)
         | Invoke call \<Rightarrow>
             let s = tick_step Instruction s in
             case stopped s of
               Some c \<Rightarrow> End (Exited c)
             | None \<Rightarrow>
               (case react (show_float V) q cat globs call of
                  Local a \<Rightarrow> replay V q cat globs n answers (past @ [a]) s
                | Ask what path json \<Rightarrow>
                    (case answers of
                       [] \<Rightarrow> Callback what path (as_bytes json)
                     | a # answers \<Rightarrow>
                         replay V q cat globs n answers (past @ [exchange_answer a]) s))))"

definition decode_catalog :: "tree \<Rightarrow> exn + string list" where
  "decode_catalog t =
     (case decode (strings t) (nodes t) 0 False of
        Inl e \<Rightarrow> Inl (decode_exn e)
      | Inr (RArray vs, _) \<Rightarrow> Inr (concat (map (\<lambda>v. case v of RString s \<Rightarrow> [s] | _ \<Rightarrow> []) vs))
      | Inr _ \<Rightarrow> Inl (decode_exn InvalidNode))"

definition raise_end :: "mruby \<Rightarrow> native_request \<Rightarrow> int \<Rightarrow> exn \<Rightarrow> meters \<Rightarrow> native_step" where
  "raise_end V q status x s = End (failed V q status x (backtrace V x) s)"

text \<open>The part of \<open>run\<close> after the set-up: parse, compile, admit, execute.\<close>

definition run_source :: "mruby \<Rightarrow> native_request \<Rightarrow> string list \<Rightarrow> pairs \<Rightarrow> (int \<times> tree option) list \<Rightarrow>
    meters \<Rightarrow> native_step" where
  "run_source V q cat globs answers s =
     (case parsed V q of (ops, p) \<Rightarrow>
      let s = fold tick_step (map Memory ops) s in
      case stopped s of
        Some c \<Rightarrow> End (Exited c)
      | None \<Rightarrow>
        (case p of
           ParserNull \<Rightarrow> raise_end V q 0 (raised E_SYNTAX_ERROR ''Unable to parse Ruby source'') s
         | ParseErrors line column message \<Rightarrow> End (Finished ((blank_result s)
             \<lparr>r_line := line, r_column := column, error_buffer := c_buffer 2048 message, r_status := 1\<rparr>))
         | CompileFailed \<Rightarrow> raise_end V q 0 (raised E_SYNTAX_ERROR ''Ruby compilation failed'') s
         | Compiled r \<Rightarrow>
             (case admit r 0 of
                Inl e \<Rightarrow> raise_end V q 3 (admit_exn e) s
              | Inr _ \<Rightarrow>
                  if n_validate_only q \<noteq> 0 then End (Finished (blank_result s))
                  else replay V q cat globs (unat (instruction_limit q) + 1) answers [] s)))"

definition ruby_execute :: "mruby \<Rightarrow> native" where
  "ruby_execute V q answers =
     (case boot V q of (ops, opened) \<Rightarrow>
      let s = fold tick_step (map Memory ops) (fresh_meters q) in
      case stopped s of
        Some c \<Rightarrow> End (Exited c)
      | None \<Rightarrow>
        if \<not> opened then End (Finished ((blank_result s)
          \<lparr>r_status := 2, error_buffer := c_buffer 2048 ''mruby initialization failed''\<rparr>))
        else let s = fold tick_step (map Memory (set_up V q)) s in
          case stopped s of
            Some c \<Rightarrow> End (Exited c)
          | None \<Rightarrow>
            (case decode_record (n_globals q) of
               Inl x \<Rightarrow> raise_end V q 0 x s
             | Inr globs \<Rightarrow>
                 (case decode_catalog (n_catalog q) of
                    Inl x \<Rightarrow> raise_end V q 0 x s
                  | Inr cat \<Rightarrow> run_source V q cat globs answers s)))"

section \<open>The meters of an execution\<close>

definition within :: "native_request \<Rightarrow> meters \<Rightarrow> bool" where
  "within q s \<longleftrightarrow> in_count (fst s) \<and> accounted (snd s) \<and> hook_limit (fst s) = instruction_limit q
     \<and> ceiling (snd s) = memory_limit q \<and> hook_exit (fst s) \<in> {None, Some 124}
     \<and> heap_exit (snd s) \<in> {None, Some 125}"

lemma fresh_within: "instruction_limit q < - 1 \<Longrightarrow> within q (fresh_meters q)"
  by (simp add: within_def fresh_meters_def fresh_heap_accounted)
    (simp add: in_count_def fresh_machine_def fresh_heap_def)

lemma heap_step_exit: "heap_exit h \<in> {None, Some 125} \<Longrightarrow> heap_exit (heap_step op h) \<in> {None, Some 125}"
  by (cases op) (auto simp: allocate_def Let_def split: option.splits)

lemma tick_step_within:
  "within q s \<Longrightarrow> within q (tick_step t s) \<and> executed (fst s) \<le> executed (fst (tick_step t s))"
proof (induction t s rule: tick_step.induct)
  case (1 m h)
  then show ?case
    using machine_step_count [of m "()"]
    by (auto simp: within_def machine_step_def instruction_hook_def Let_def)
next
  case (2 op m h)
  then show ?case
    using heap_step_accounted [of h op] heap_step_exit [of h op] by (auto simp: within_def)
qed

lemma ticks_within:
  "within q s \<Longrightarrow> within q (fold tick_step ts s) \<and> executed (fst s) \<le> executed (fst (fold tick_step ts s))"
proof (induction ts arbitrary: s)
  case (Cons t ts)
  from tick_step_within [OF Cons.prems, of t] Cons.IH [of "tick_step t s"] show ?case by fastforce
qed simp

lemma within_exit: "within q s \<Longrightarrow> stopped s = Some c \<Longrightarrow> c = 124 \<or> c = 125"
  by (cases s) (auto simp: within_def split: option.splits)

lemma within_running:
  assumes "within q s" "stopped s = None"
  shows "executed (fst s) = unat (counted (fst s))" "counted (fst s) \<le> instruction_limit q"
    "executed (fst s) \<le> unat (instruction_limit q)" "peak (snd s) \<le> memory_limit q"
  using assms
  by (cases s; auto simp: within_def in_count_def accounted_def word_le_nat_alt split: option.splits)+

text \<open>The instruction of a native call is one more.\<close>

lemma call_counts:
  assumes "within q s" "stopped s = None" "stopped (tick_step Instruction s) = None"
  shows "executed (fst (tick_step Instruction s)) = Suc (executed (fst s))"
  using assms
  by (cases s) (auto simp: machine_step_def Let_def instruction_hook_def split: option.splits if_splits)

text \<open>
  More fuel than \<open>ruby_execute\<close> gives makes no difference: what ends a program is its own end or a
  limit, never the fuel.
\<close>

lemma replay_fuel:
  assumes "within q s" "unat (instruction_limit q) < n + executed (fst s)" "stopped s = None"
  shows "replay V q cat globs (n + k) answers past s = replay V q cat globs n answers past s"
  using assms
proof (induction n arbitrary: answers past s)
  case 0
  then show ?case using within_running(3) [OF "0.prems"(1,3)] by simp
next
  case (Suc n)
  obtain ticks event where p: "program V q past = (ticks, event)" by force
  let ?s = "fold tick_step ticks s"
  let ?s' = "tick_step Instruction ?s"
  have w: "within q ?s" "executed (fst s) \<le> executed (fst ?s)"
    using ticks_within [OF Suc.prems(1)] by auto
  have "replay V q cat globs (n + k) as (past @ [a]) ?s' = replay V q cat globs n as (past @ [a]) ?s'"
    if "stopped ?s = None" "stopped ?s' = None" for as a
  proof (rule Suc.IH [OF _ _ that(2)])
    show "within q ?s'" using tick_step_within [OF w(1)] by blast
    show "unat (instruction_limit q) < n + executed (fst ?s')"
      using call_counts [OF w(1) that] w(2) Suc.prems(2) by simp
  qed
  then show ?case
    by (simp add: p Let_def split: option.split event.split reaction.split list.split sum.split)
qed

declare replay.simps [simp del] stopped.simps [simp del]

section \<open>What an execution comes to\<close>

text \<open>The program is run only if its source has been parsed, compiled and admitted.\<close>

definition accepted :: "mruby \<Rightarrow> native_request \<Rightarrow> bool" where
  "accepted V q \<longleftrightarrow> n_validate_only q = 0 \<and>
     (case snd (parsed V q) of Compiled r \<Rightarrow> admit r 0 = Inr () | _ \<Rightarrow> False)"

text \<open>The ways \<open>ruby_execute\<close> can stop, one rule for each place where it does.\<close>

inductive outcome :: "mruby \<Rightarrow> native_request \<Rightarrow> native_step \<Rightarrow> bool" for V q where
  Starved: "outcome V q (End (Exited 124))"
| Stopped: "within q s \<Longrightarrow> stopped s = Some c \<Longrightarrow> outcome V q (End (Exited c))"
| Unopened: "within q s \<Longrightarrow> stopped s = None \<Longrightarrow> outcome V q (End (Finished ((blank_result s)
    \<lparr>r_status := 2, error_buffer := c_buffer 2048 ''mruby initialization failed''\<rparr>)))"
| Refused: "within q s \<Longrightarrow> status \<in> {0, 3} \<Longrightarrow> x_class x \<noteq> Error_class \<Longrightarrow>
    outcome V q (End (failed V q status x tr s))"
| Unparsed: "within q s \<Longrightarrow> stopped s = None \<Longrightarrow> outcome V q (End (Finished ((blank_result s)
    \<lparr>r_line := line, r_column := column, error_buffer := c_buffer 2048 message, r_status := 1\<rparr>)))"
| Validated: "within q s \<Longrightarrow> stopped s = None \<Longrightarrow> n_validate_only q \<noteq> 0 \<Longrightarrow>
    outcome V q (End (Finished (blank_result s)))"
| Failing: "within q s \<Longrightarrow> accepted V q \<Longrightarrow> program V q past = (ticks, Leave (Inl (x, tr))) \<Longrightarrow>
    outcome V q (End (failed V q 0 x tr s))"
| Returning: "within q s \<Longrightarrow> stopped s = None \<Longrightarrow> accepted V q \<Longrightarrow>
    program V q past = (ticks, Leave (Inr v)) \<Longrightarrow> outcome V q (End (finished V q v s))"
| Asking: "accepted V q \<Longrightarrow> decode_catalog (n_catalog q) = Inr cat \<Longrightarrow>
    react (show_float V) q cat globs call = Ask what path json \<Longrightarrow>
    outcome V q (Callback what path (as_bytes json))"

inductive_cases outcome_EndE: "outcome V q (End e)"
inductive_cases outcome_CallbackE: "outcome V q (Callback what path args)"

lemma replay_outcome:
  assumes "within q s" "accepted V q" "decode_catalog (n_catalog q) = Inr cat"
  shows "outcome V q (replay V q cat globs n answers past s)"
  using assms(1)
proof (induction n arbitrary: answers past s)
  case 0
  then show ?case by (simp add: replay.simps Starved)
next
  case (Suc n)
  obtain ticks event where p: "program V q past = (ticks, event)" by force
  let ?s = "fold tick_step ticks s"
  let ?s' = "tick_step Instruction ?s"
  have w: "within q ?s" "within q ?s'"
    using ticks_within tick_step_within Suc.prems by blast+
  note unfold = p Let_def replay.simps
  show ?case
  proof (cases "stopped ?s")
    case run: None
    show ?thesis
    proof (cases event)
      case (Leave l)
      with p run Failing [OF w(1) assms(2), of past ticks]
        Returning [OF w(1) run assms(2), of past ticks]
      show ?thesis by (cases l) (auto simp: unfold)
    next
      case c: (Invoke call)
      show ?thesis
      proof (cases "stopped ?s'")
        case None
        then show ?thesis
          using run c Suc.IH [OF w(2)] Asking [OF assms(2,3)]
          by (auto simp: unfold split: reaction.split list.split)
      qed (use run c w(2) in \<open>auto simp: unfold intro: Stopped\<close>)
    qed
  qed (use w(1) in \<open>auto simp: unfold intro: Stopped\<close>)
qed

lemma raise_outcome:
  "within q s \<Longrightarrow> status \<in> {0, 3} \<Longrightarrow> x_class x \<noteq> Error_class \<Longrightarrow> outcome V q (raise_end V q status x s)"
  unfolding raise_end_def by (rule Refused)

lemma raised_class [simp]: "x_class (raised c message) = c"
  by (simp add: raised_def)

lemma native_class [simp]:
  "x_class (encode_exn e) \<noteq> Error_class" "x_class (decode_exn d) \<noteq> Error_class"
  "x_class (admit_exn a) \<noteq> Error_class"
  by (cases e, simp_all) (cases d, simp_all, cases a, simp_all)

lemma run_source_outcome:
  assumes "within q s" "decode_catalog (n_catalog q) = Inr cat"
  shows "outcome V q (run_source V q cat globs answers s)"
proof -
  obtain ops p where p: "parsed V q = (ops, p)" by force
  define s' where "s' = fold tick_step (map Memory ops) s"
  have w: "within q s'" using ticks_within [OF assms(1)] by (simp add: s'_def)
  note unfold = run_source_def p Let_def s'_def [symmetric]
  show ?thesis
  proof (cases "stopped s'")
    case run: None
    show ?thesis
    proof (cases p)
      case (Compiled r)
      with p have "accepted V q" if "admit r 0 = Inr ()" "n_validate_only q = 0"
        using that by (simp add: accepted_def)
      with Compiled run replay_outcome [OF w _ assms(2)] Validated [OF w run] raise_outcome [OF w]
      show ?thesis by (auto simp: unfold split: sum.split)
    qed (use run raise_outcome [OF w] Unparsed [OF w run] in \<open>simp_all add: unfold\<close>)
  qed (use Stopped [OF w] in \<open>simp add: unfold\<close>)
qed

lemma decode_record_class: "decode_record t = Inl x \<Longrightarrow> x_class x \<noteq> Error_class"
  by (auto simp: decode_record_def record_data_def split: sum.splits option.splits prod.splits)

lemma decode_catalog_class: "decode_catalog t = Inl x \<Longrightarrow> x_class x \<noteq> Error_class"
  by (auto simp: decode_catalog_def split: sum.splits prod.splits ruby.splits)

lemma execute_outcome:
  assumes "instruction_limit q < - 1"
  shows "outcome V q (ruby_execute V q answers)"
proof -
  obtain ops opened where b: "boot V q = (ops, opened)" by force
  define s where "s = fold tick_step (map Memory ops) (fresh_meters q)"
  define s' where "s' = fold tick_step (map Memory (set_up V q)) s"
  have w: "within q s" "within q s'"
    using ticks_within fresh_within [OF assms] by (auto simp: s_def s'_def)
  note unfold = ruby_execute_def b Let_def s_def [symmetric] s'_def [symmetric]
  show ?thesis
  proof (cases "stopped s")
    case run: None
    show ?thesis
    proof (cases opened)
      case True
      with run run_source_outcome [OF w(2)] Stopped [OF w(2)] raise_outcome [OF w(2)]
      show ?thesis
        by (auto simp: unfold dest: decode_record_class decode_catalog_class
            split: option.split sum.split)
    next
      case False
      with run Unopened [OF w(1)] show ?thesis by (simp add: unfold)
    qed
  qed (use Stopped [OF w(1)] in \<open>simp add: unfold\<close>)
qed

section \<open>What a native call asks of the host\<close>

fun lawful :: "nat \<Rightarrow> string list \<Rightarrow> callback \<Rightarrow> bool" where
  "lawful limit cat (what, path, args) \<longleftrightarrow>
     (what = ''call'' \<and> path \<in> set cat \<or> what = ''unknown'' \<and> path \<notin> set cat
      \<or> (what = ''log'' \<or> what = ''json'') \<and> path = [])
     \<and> CHR 0x00 \<notin> set path \<and> length args \<le> limit"

lemma encode_bounded: "encode F limit [] v 0 = Inr t \<Longrightarrow> length t \<le> limit"
  by (auto simp: encode_ok(1))

lemma exchange_ask_Ask:
  assumes "exchange_ask F q what path args = Ask what' path' json"
  shows "what' = what" "path' = path" "CHR 0x00 \<notin> set path" "length json \<le> unat (result_limit q)"
  using assms encode_bounded [of F "unat (result_limit q)" args json]
  by (auto simp: exchange_ask_def split: sum.splits if_splits)

lemma react_lawful:
  assumes "react F q cat globs call = Ask what path json"
  shows "lawful (unat (result_limit q)) cat (what, path, as_bytes json)"
  using assms
proof (cases "(F, q, cat, globs, call)" rule: react.cases)
  case (2 F q cat globs prefix name args)
  with assms show ?thesis
    using app_dispatch_sound [of cat prefix name "length args"]
    by (cases "app_dispatch cat prefix name (length args)")
      (auto simp: as_bytes_def dest: exchange_ask_Ask)
next
  case (3 F q cat globs p args)
  with assms show ?thesis
    by (auto simp: app_call_def as_bytes_def list_ex_iff split: if_splits dest: exchange_ask_Ask)
next
  case (6 F q cat globs args)
  with assms show ?thesis by (auto simp: as_bytes_def dest: exchange_ask_Ask)
next
  case (8 F q cat globs s)
  with assms show ?thesis by (auto simp: as_bytes_def dest: exchange_ask_Ask)
qed (auto split: if_splits sum.splits)

lemma execute_callback:
  assumes "ruby_execute V q answers = Callback what path args"
    and "decode_catalog (n_catalog q) = Inr cat" "instruction_limit q < - 1"
  shows "accepted V q \<and> lawful (unat (result_limit q)) cat (what, path, args)"
proof -
  have "outcome V q (Callback what path args)"
    using execute_outcome [OF assms(3), of V answers] assms(1) by simp
  then show ?thesis
    by (rule outcome_CallbackE) (use assms(2) react_lawful in auto)
qed

section \<open>How an execution ends\<close>

fun sound_end :: "native_request \<Rightarrow> native_end \<Rightarrow> bool" where
  "sound_end q (Exited c) \<longleftrightarrow> c = 124 \<or> c = 125"
| "sound_end q (Finished r) \<longleftrightarrow>
     peak_memory r \<le> memory_limit q \<and> r_instructions r \<le> instruction_limit q
     \<and> r_status r \<in> {0, 1, 2, 3}
     \<and> (case r_json r of
          None \<Rightarrow> r_status r = 0 \<longrightarrow> n_validate_only q \<noteq> 0
        | Some bs \<Rightarrow> r_status r = 0 \<and> n_validate_only q = 0 \<and> length bs \<le> unat (result_limit q))
     \<and> length (error_buffer r) \<le> 2048 \<and> length (error_type r) \<le> 64"

lemma c_buffer_length: "0 < n \<Longrightarrow> length (c_buffer n s) \<le> n"
  by (simp add: c_buffer_def)

lemma error_details_same [simp]:
  "peak_memory (error_details q x tr r) = peak_memory r"
  "r_instructions (error_details q x tr r) = r_instructions r"
  "r_status (error_details q x tr r) = r_status r"
  "r_json (error_details q x tr r) = r_json r"
  by (auto simp: error_details_def Let_def split: option.split)

lemma error_details_buffers:
  assumes "length (error_buffer r) \<le> 2048" "length (error_type r) \<le> 64"
  shows "length (error_buffer (error_details q x tr r)) \<le> 2048"
    "length (error_type (error_details q x tr r)) \<le> 64"
  using assms c_buffer_length [of 2048] c_buffer_length [of 64]
  by (auto simp: error_details_def Let_def split: option.split)

lemma blank_result_simps [simp]:
  "peak_memory (blank_result s) = peak (snd s)" "r_instructions (blank_result s) = counted (fst s)"
  "r_status (blank_result s) = 0" "r_json (blank_result s) = None"
  "error_buffer (blank_result s) = [CHR 0x00]" "error_type (blank_result s) = [CHR 0x00]"
  by (simp_all add: blank_result_def)

lemma failed_sound:
  assumes "within q s" "status \<in> {0, 2, 3}"
  shows "sound_end q (failed V q status x tr s)"
proof -
  define s' where "s' = fold tick_step (map Memory (presentation V q x)) s"
  have w: "within q s'" using ticks_within [OF assms(1)] by (simp add: s'_def)
  show ?thesis
  proof (cases "stopped s'")
    case None
    with within_running [OF w] assms(2) show ?thesis
      by (auto simp: failed_def Let_def error_details_buffers c_buffer_length simp flip: s'_def)
  next
    case (Some c)
    with within_exit [OF w] show ?thesis by (simp add: failed_def Let_def flip: s'_def)
  qed
qed

lemma finished_sound:
  assumes "within q s" "stopped s = None" "n_validate_only q = 0"
  shows "sound_end q (finished V q v s)"
proof (cases "encode (show_float V) (unat (result_limit q)) [] v 0")
  case (Inl e)
  with failed_sound [OF assms(1), of 0] show ?thesis by (simp add: finished_def)
next
  case (Inr json)
  then have "length json \<le> unat (result_limit q)"
    by (rule encode_bounded)
  with Inr assms(3) within_running [OF assms(1,2)] show ?thesis
    by (simp add: finished_def as_bytes_def)
qed

lemma execute_sound:
  assumes "ruby_execute V q answers = End e" "instruction_limit q < - 1"
  shows "sound_end q e"
proof -
  have "outcome V q (End e)" using execute_outcome [OF assms(2), of V answers] assms(1) by simp
  then show ?thesis
  proof cases
    case (Stopped s c)
    with within_exit show ?thesis by auto
  next
    case (Refused s status x tr)
    with failed_sound [of q s status] show ?thesis by auto
  next
    case (Failing s past ticks x tr)
    with failed_sound [of q s 0] show ?thesis by simp
  next
    case (Returning s past ticks v)
    with finished_sound show ?thesis by (simp add: accepted_def)
  qed (auto simp: within_running c_buffer_length)
qed

text \<open>As many callbacks as instructions, and one turn more.\<close>

lemma replay_ends: "n \<le> length answers \<Longrightarrow> \<exists>e. replay V q cat globs n answers past s = End e"
proof (induction V q cat globs n answers past s rule: replay.induct)
  case (1 V q cat globs answers past s)
  then show ?case by (simp add: replay.simps)
next
  case (2 V q cat globs n answers past s)
  obtain ticks event where p: "program V q past = (ticks, event)" by force
  let ?s = "fold tick_step ticks s"
  let ?s' = "tick_step Instruction ?s"
  note unfold = p Let_def replay.simps
  show ?case
  proof (cases "stopped ?s")
    case run: None
    show ?thesis
    proof (cases event)
      case (Leave l)
      with run show ?thesis by (cases l) (auto simp: unfold)
    next
      case c: (Invoke call)
      show ?thesis
      proof (cases "stopped ?s'")
        case run': None
        note IH = "2.IH" [OF p [symmetric] refl run c refl run']
        show ?thesis
        proof (cases "react (show_float V) q cat globs call")
          case (Local a)
          with IH(1) [OF Local] "2.prems" run c run' show ?thesis by (simp add: unfold)
        next
          case r: (Ask what path json)
          obtain a as where "answers = a # as" using "2.prems" by (cases answers) simp_all
          with IH(2) [OF r this] "2.prems" run c run' r show ?thesis by (simp add: unfold)
        qed
      qed (use run c in \<open>auto simp: unfold\<close>)
    qed
  qed (auto simp: unfold)
qed

lemma execute_ends_within: "ends_within (ruby_execute V) q (unat (instruction_limit q) + 1)"
  unfolding ends_within_def
proof (intro allI impI)
  fix answers :: "(int \<times> tree option) list"
  assume "unat (instruction_limit q) + 1 \<le> length answers"
  then have "\<exists>e. replay V q cat globs (unat (instruction_limit q) + 1) answers [] s = End e" for cat globs s
    by (rule replay_ends)
  then show "\<exists>e. ruby_execute V q answers = End e"
    by (auto simp: ruby_execute_def run_source_def raise_end_def Let_def simp del: replay.simps
        split: prod.split option.split parse.split sum.split)
qed

section \<open>The contract of an executor\<close>

text \<open>
  What the Rust side may expect of an executor \<open>N\<close>, where \<open>runs\<close> says that a request's program is
  executed at all: only lawful callbacks, and only then; ends within the limits; and an end after
  at most as many callbacks as the instruction limit, and one.
\<close>

locale lawful_executor =
  fixes N :: native and runs :: "native_request \<Rightarrow> bool"
  assumes executes: "runs q \<Longrightarrow> n_validate_only q = 0"
    and callback: "\<lbrakk>N q answers = Callback what path args; decode_catalog (n_catalog q) = Inr cat;
      instruction_limit q < - 1\<rbrakk> \<Longrightarrow> runs q \<and> lawful (unat (result_limit q)) cat (what, path, args)"
    and sound: "N q answers = End e \<Longrightarrow> instruction_limit q < - 1 \<Longrightarrow> sound_end q e"
    and ends: "ends_within N q (unat (instruction_limit q) + 1)"

interpretation rx: lawful_executor "ruby_execute V" "accepted V" for V
proof unfold_locales
  show "accepted V q \<Longrightarrow> n_validate_only q = 0" for q by (simp add: accepted_def)
qed (rule execute_callback execute_sound execute_ends_within; assumption)+

section \<open>Host values in the guest\<close>

text \<open>The Ruby value of a JSON value that came from the host, and the hash of an object.\<close>

definition reflected :: "json \<Rightarrow> rvalue" where
  "reflected v = of_ruby (reflect True v)"

definition reflected_pairs :: "fields \<Rightarrow> pairs" where
  "reflected_pairs kvs = map (\<lambda>(k, v). (VString k, reflected v)) kvs"

lemma reflected_simps [simp]:
  "reflected Null = VNil" "reflected (Bool b) = (if b then VTrue else VFalse)"
  "reflected (Number (PosInt n)) = VInt n" "reflected (Number (NegInt i)) = VInt i"
  "reflected (Number (Float f)) = VFloat f" "reflected (String s) = VString s"
  "reflected (Array vs) = VArray (map reflected vs)"
  "reflected (Object kvs) = VRecord (Some (reflected_pairs kvs))"
  by (auto simp: reflected_def reflected_pairs_def)

lemma map_of_reflected:
  "map_of (reflected_pairs kvs) (VString k) = map_option reflected (map_of kvs k)"
  by (induction kvs) (auto simp: reflected_pairs_def)

lemma hash_get_reflected [simp]:
  "hash_get (reflected_pairs kvs) k = reflected (member (Object kvs) k)"
  by (auto simp: hash_get_def map_of_reflected split: option.split)

lemma hash_key_reflected [simp]: "hash_key (reflected_pairs kvs) k \<longleftrightarrow> k \<in> fst ` set kvs"
  by (auto simp: hash_key_def map_of_reflected map_of_eq_None_iff)

lemma decode_record_reflected:
  assumes "tree_new v = Inr t" "json_wf v"
  shows "decode_record t = record_data (case v of Object kvs \<Rightarrow> Some (reflected_pairs kvs) | _ \<Rightarrow> None)"
proof -
  have d: "decode_record t = record_data (case reflected v of VRecord data \<Rightarrow> data | _ \<Rightarrow> None)"
    using tree_new_decode [OF assms, of True] by (simp add: decode_record_def reflected_def)
  show ?thesis
  proof (cases v)
    case (Number n)
    with d show ?thesis by (cases n) simp_all
  qed (use d in simp_all)
qed

lemma decode_catalog_strings:
  assumes "tree_new (Array (map String cat)) = Inr t"
  shows "decode_catalog t = Inr cat"
proof -
  have "json_wf (Array (map String cat))" by (simp add: list_all_iff)
  then have "decode (strings t) (nodes t) 0 False = Inr (RArray (map RString cat), [])"
    using tree_new_decode [OF assms, of False] by (simp add: comp_def)
  moreover have "concat (map (\<lambda>v. case v of RString s \<Rightarrow> [s] | _ \<Rightarrow> []) (map RString cat)) = cat"
    by (induction cat) simp_all
  ultimately show ?thesis by (simp add: decode_catalog_def)
qed

text \<open>Compact JSON, written down for JSON values, as a reference for what \<open>encode\<close> prints.\<close>

fun json_text :: "(f64 \<Rightarrow> string) \<Rightarrow> json \<Rightarrow> string" where
  "json_text F Null = ''null''"
| "json_text F (Bool b) = (if b then ''true'' else ''false'')"
| "json_text F (Number (PosInt n)) = decimal_nat (unat n)"
| "json_text F (Number (NegInt i)) = decimal i"
| "json_text F (Number (Float f)) = F f @ float_suffix (F f)"
| "json_text F (String s) = quoted s"
| "json_text F (Array vs) = ''['' @ join '','' (map (json_text F) vs) @ '']''"
| "json_text F (Object kvs) =
     ''{'' @ join '','' (map (\<lambda>(k, v). quoted k @ '':'' @ json_text F v) kvs) @ ''}''"

fun finite_json :: "json \<Rightarrow> bool" where
  "finite_json (Number (Float f)) = finite_float f"
| "finite_json (Array vs) = list_all finite_json vs"
| "finite_json (Object kvs) = list_all (\<lambda>(_, v). finite_json v) kvs"
| "finite_json _ = True"

lemma sint_small:
  assumes "n \<le> (9223372036854775807 :: u64)"
  shows "sint n = int (unat n)"
proof -
  have "uint n < 2 ^ 63" using assms by (simp add: word_le_def)
  moreover have "- (2 ^ 63) \<le> uint n" by (rule order_trans [OF _ unsigned_greater_eq]) simp
  ultimately have "signed_take_bit 63 (uint n) = uint n"
    by (intro signed_take_bit_int_eq_self) simp_all
  then show ?thesis by (simp add: sint_uint)
qed

lemma decimal_unsigned: "n \<le> 9223372036854775807 \<Longrightarrow> decimal n = decimal_nat (unat n)"
  by (simp add: decimal_def sint_small del: decimal_nat.simps)

lemma render_items_join:
  "render_items F first vs =
    (if first \<or> vs = [] then [] else '','') @ join '','' (map (render F) vs)"
proof (induction vs arbitrary: first)
  case (Cons v vs)
  then show ?case by (cases vs) (simp_all del: render.simps)
qed simp

lemma render_pairs_join:
  "render_pairs F first kvs = (if first \<or> kvs = [] then [] else '','') @
    join '','' (map (\<lambda>(k, v). quoted (key_of k) @ '':'' @ render F v) kvs)"
proof (induction kvs arbitrary: first)
  case (Cons kv kvs)
  obtain k v where "kv = (k, v)" by force
  with Cons show ?case by (cases kvs) (auto simp del: render.simps)
qed simp

lemma render_reflected: "crossable depth v \<Longrightarrow> render F (reflected v) = json_text F v"
proof (induction depth v rule: crossable.induct)
  case (1 depth vs)
  then have e: "map (render F) (map reflected vs) = map (json_text F) vs"
    by (auto simp: list_all_iff)
  show ?case by (simp add: render_items_join e del: map_map)
next
  case (2 depth kvs)
  then have "map (\<lambda>(k, v). quoted (key_of k) @ '':'' @ render F v) (reflected_pairs kvs)
      = map (\<lambda>(k, v). quoted k @ '':'' @ json_text F v) kvs"
    by (auto simp: list_all_iff reflected_pairs_def)
  then show ?case by (simp add: render_pairs_join)
next
  case (3 depth n)
  then show ?case by (simp add: decimal_unsigned del: decimal_nat.simps)
qed simp_all

lemma encodable_pairs_reflected:
  "encodable_pairs depth seen (reflected_pairs kvs) \<longleftrightarrow>
     distinct (map fst kvs) \<and> fst ` set kvs \<inter> set seen = {}
     \<and> list_all (\<lambda>(_, v). encodable depth (reflected v)) kvs"
proof (induction kvs arbitrary: seen)
  case (Cons kv kvs)
  obtain k v where "kv = (k, v)" by force
  with Cons [of "k # seen"] show ?case by (simp add: reflected_pairs_def) blast
qed (simp add: reflected_pairs_def)

lemma encodable_reflected:
  "crossable depth v \<Longrightarrow> json_wf v \<Longrightarrow> encodable depth (reflected v) \<longleftrightarrow> finite_json v"
proof (induction depth v rule: crossable.induct)
  case (1 depth vs)
  then show ?case by (auto simp: list_all_iff)
next
  case (2 depth kvs)
  have e: "encodable (Suc depth) (reflected v) = finite_json v" if "(k, v) \<in> set kvs" for k v
    using "2.IH" [OF that refl] "2.prems" that by (auto simp: list_all_iff)
  then have "list_all (\<lambda>(_, v). encodable (Suc depth) (reflected v)) kvs
      \<longleftrightarrow> list_all (\<lambda>(_, v). finite_json v) kvs"
    by (auto simp: list_all_iff)
  with "2.prems" show ?case
    by (simp add: encodable_pairs_reflected ordered_def strict_sorted_iff)
qed auto

end
