(* ===== verification/Callbacks.thy ===== *)
theory Callbacks
  imports Executor Supervisor
begin

text \<open>
  What a run of \<open>src/guest.rs\<close> amounts to when its executor is the C layer of \<open>native/guest.c\<close>: which
  frames it writes, what it hands to Ruby, within which limits and how it ends, whatever the
  interpreter does.
\<close>

section \<open>Well-formed values at the boundary\<close>

definition typed :: "world \<Rightarrow> bool" where
  "typed w \<longleftrightarrow> list_all json_wf (sent w)
     \<and> (case reply w of None \<Rightarrow> True | Some t \<Rightarrow> \<not> isl (decode_record t))"

text \<open>What serde_json owes: the values it parses keep the order of its maps.\<close>

definition parses_wf :: "serde \<Rightarrow> bool" where
  "parses_wf S \<longleftrightarrow> (\<forall>bs v. from_slice S bs = Inr v \<longrightarrow> json_wf v)"

lemma parsed_wf: "parses_wf S \<Longrightarrow> from_slice S bs = Inr v \<Longrightarrow> json_wf v"
  by (auto simp: parses_wf_def)

lemma read_frame_parsed: "read_frame S bs = (Inr v, rest) \<Longrightarrow> \<exists>body. from_slice S body = Inr v"
  by (auto simp: read_frame_def Let_def split: prod.splits sum.splits if_splits)

lemma member_boolean_object: "is_boolean (member v k) \<Longrightarrow> \<exists>kvs. v = Object kvs"
  by (cases v) simp_all

lemma event_wf:
  "json_wf v \<Longrightarrow> json_wf (log_event w v)" "json_wf v \<Longrightarrow> json_wf (call_event w p v)"
  by (auto simp: log_event_def call_event_def int_value_def intro!: object_wf)

definition object_wf_value :: "json \<Rightarrow> bool" where
  "object_wf_value v \<longleftrightarrow> json_wf v \<and> (\<exists>kvs. v = Object kvs)"

lemma built_objects:
  "object_wf_value (refusal m)" "json_wf v \<Longrightarrow> object_wf_value (success v)"
  "object_wf_value (unknown_reply p ps)"
  by (auto simp: object_wf_value_def refusal_def success_def unknown_reply_def intro!: object_wf)
    (auto simp: object_def)

text \<open>What a callback leaves behind: well-formed frames, and an answer that is an object.\<close>

fun answer_ok :: "world \<Rightarrow> json option \<times> world \<Rightarrow> bool" where
  "answer_ok w (a, w') \<longleftrightarrow> list_all json_wf (sent w') \<and> reply w' = reply w
     \<and> (case a of None \<Rightarrow> True | Some v \<Rightarrow> object_wf_value v)"

lemma emit_ok:
  assumes "json_wf v" "list_all json_wf (sent w)" "emit S v w = (b, w')"
  shows "list_all json_wf (sent w') \<and> reply w' = reply w"
  using assms by (auto simp: emit_def split: prod.splits sum.splits)

lemma host_log_ok:
  assumes "json_wf v" "list_all json_wf (sent w)"
  shows "answer_ok w (host_log S v n w)"
proof -
  let ?w = "w\<lparr>logs := saturating_add (logs w) n\<rparr>"
  obtain b w' where e: "emit S (log_event ?w v) ?w = (b, w')" by force
  with emit_ok [OF event_wf(1) _ e] assms have "list_all json_wf (sent w')" "reply w' = reply w"
    by simp_all
  with e assms built_objects show ?thesis by (cases b) (simp_all add: host_log_def Let_def)
qed

lemma host_dispatch_ok:
  assumes "parses_wf S"
    and "json_wf v" "list_all json_wf (sent w)"
  shows "answer_ok w (host_dispatch S p v w)"
proof -
  let ?w = "w\<lparr>h_calls := h_calls w + 1, h_sequence := h_sequence w + 1\<rparr>"
  obtain b w' where e: "emit S (call_event ?w p v) ?w = (b, w')" by force
  obtain res rest where rd: "read_frame S (stdin w') = (res, rest)" by force
  from emit_ok [OF event_wf(2) _ e] assms have w': "list_all json_wf (sent w')" "reply w' = reply w"
    by simp_all
  have ok: "object_wf_value r" if r: "res = Inr r" "reply_matches w' r" for r
  proof -
    obtain body where "from_slice S body = Inr r" using read_frame_parsed rd r(1) by blast
    with assms(1) have "json_wf r" by (rule parsed_wf)
    moreover have "is_boolean (member r ''ok'')" using r(2) by (simp add: reply_matches_def)
    ultimately show ?thesis using member_boolean_object by (simp add: object_wf_value_def)
  qed
  show ?thesis
  proof (cases "b \<and> \<not> isl res")
    case True
    then obtain r where "res = Inr r" by (cases res) simp_all
    with True e rd w' ok [of r] show ?thesis
      by (cases "reply_matches w' r") (simp_all add: host_dispatch_def Let_def)
  next
    case False
    with e rd w' show ?thesis
      by (cases b; cases res) (simp_all add: host_dispatch_def Let_def)
  qed
qed

lemma answer_typed:
  assumes wf: "parses_wf S"
    and "list_all json_wf (sent w)"
  shows "answer_ok w (answer S what path args w)"
proof -
  have "object_wf_value (json_reply S v)" for v
    using parsed_wf [OF wf] built_objects by (auto simp: json_reply_def split: option.split sum.split)
  then show ?thesis
    using assms parsed_wf [OF wf] host_log_ok host_dispatch_ok [OF wf] built_objects
    by (cases "from_slice S args") (simp_all add: answer_def)
qed

lemma host_step_typed:
  assumes wf: "parses_wf S" and "typed w"
  shows "typed (host_step S c w)"
proof -
  obtain what path args where c: "c = (what, path, args)" by (cases c) auto
  obtain a w' where a: "answer S what path args w = (a, w')" by force
  have ok: "answer_ok w (a, w')"
    using answer_typed [OF wf, of w what path args] a assms(2) by (simp add: typed_def)
  have "\<not> isl (decode_record t)" if "a = Some v" "tree_new v = Inr t" for v t
    using ok that decode_record_reflected [of v t]
    by (auto simp: object_wf_value_def record_data_def)
  with a ok assms(2) show ?thesis
    by (auto simp: c host_call_def typed_def split: option.split sum.split)
qed

lemma host_calls_typed:
  assumes "parses_wf S" "typed w"
  shows "typed (host_calls S cs w)"
  using assms(2) unfolding host_calls_def
  by (induction cs arbitrary: w) (simp_all add: host_step_typed [OF assms(1)] del: host_step.simps)

section \<open>The guest's side of the protocol\<close>

text \<open>Call frames as the supervisor wants them: the next number, within budget, in the catalog.\<close>

fun calls_in_order :: "request \<Rightarrow> nat \<Rightarrow> json list \<Rightarrow> bool" where
  "calls_in_order req n [] = True"
| "calls_in_order req n (c # cs) \<longleftrightarrow> call_allowed req (Suc n) c \<and> calls_in_order req (Suc n) cs"

lemma calls_in_order_snoc [simp]:
  "calls_in_order req n (cs @ [c]) \<longleftrightarrow>
     calls_in_order req n cs \<and> call_allowed req (Suc (n + length cs)) c"
  by (induction cs arbitrary: n) auto

text \<open>
  What serde_json owes: a value it parsed from an argument text within the result limit prints to a
  call frame within the frame limit.
\<close>

definition roomy :: "serde \<Rightarrow> request \<Rightarrow> bool" where
  "roomy S req \<longleftrightarrow> (\<forall>args v w path. from_slice S args = Inr v \<longrightarrow>
     length args \<le> unat (result_bytes (req_limits req)) \<longrightarrow> execution w = execution_id req \<longrightarrow>
     path \<in> set (catalog req) \<longrightarrow> frameable S (call_event w path v))"

definition on_course :: "serde \<Rightarrow> bytes \<Rightarrow> request \<Rightarrow> world \<Rightarrow> bool" where
  "on_course S bs req w \<longleftrightarrow> metered w \<and> on_wire S bs w
     \<and> execution w = execution_id req \<and> call_limit w = calls (req_limits req)
     \<and> list_all (identified req) (sent w) \<and> list_all (frameable S) (sent w)
     \<and> list_all (\<lambda>v. is_call v \<or> member v ''kind'' = String ''log'') (sent w)
     \<and> length (filter is_call (sent w)) = unat (h_calls w)
     \<and> calls_in_order req 0 (filter is_call (sent w))"

lemma on_course_reply [simp]: "on_course S bs req (w\<lparr>reply := r\<rparr>) = on_course S bs req w"
  by (simp add: on_course_def)

lemma identified_event [simp]:
  "identified req (log_event w v) \<longleftrightarrow> execution w = execution_id req"
  "identified req (call_event w p v) \<longleftrightarrow> execution w = execution_id req"
  by (simp_all add: identified_def log_event_def call_event_def json_simps)

lemma host_dispatch_sent:
  assumes "on_wire S bs w"
    and "frameable S (call_event (w\<lparr>h_calls := h_calls w + 1, h_sequence := h_sequence w + 1\<rparr>) p v)"
  shows "sent (snd (host_dispatch S p v w)) =
    sent w @ [call_event (w\<lparr>h_calls := h_calls w + 1, h_sequence := h_sequence w + 1\<rparr>) p v]"
  using assms
  by (auto simp: host_dispatch_def Let_def emit_def on_wire_def write_frame_unbounded
      split: prod.split sum.split)

lemma host_log_frames:
  assumes "on_wire S bs w" "list_all (frameable S) (sent w)"
  shows "list_all (frameable S) (sent (snd (host_log S v n w)))"
  using assms
  by (auto simp: host_log_def Let_def emit_def on_wire_def write_frame_unbounded
      split: prod.splits sum.splits if_splits)

lemma call_event_allowed:
  assumes "\<not> validate_only req" "p \<in> set (catalog req)" "unat (h_sequence w) = n"
    and "n \<le> unat (calls (req_limits req))"
  shows "call_allowed req n (call_event w p v)"
  using assms by (auto simp: call_allowed_def call_event_def json_simps int_value_def)

lemma host_step_on_course:
  assumes "on_course S bs req w" "roomy S req" "\<not> validate_only req"
    and c: "lawful (unat (result_bytes (req_limits req))) (catalog req) c"
  shows "on_course S bs req (host_step S c w)"
proof (cases rule: host_step_cases [of S c w])
  case (quiet r)
  with assms(1) show ?thesis by simp
next
  case (log v r)
  let ?w = "snd (host_log S v (length (snd (snd c))) w)"
  have "on_course S bs req ?w"
    using assms(1) host_log_metered [of w S v "length (snd (snd c))"]
      host_log_on_wire [of S bs w v "length (snd (snd c))"]
      host_log_same [of S v "length (snd (snd c))" w] host_log_sent [of S v "length (snd (snd c))" w]
      host_log_frames [of S bs w v "length (snd (snd c))"]
    by (auto simp: on_course_def configured_def)
  with log show ?thesis by simp
next
  case (call v r)
  let ?w1 = "w\<lparr>h_calls := h_calls w + 1, h_sequence := h_sequence w + 1\<rparr>"
  let ?w = "snd (host_dispatch S (fst (snd c)) v w)"
  obtain what path args where cc: "c = (what, path, args)" by (cases c) auto
  have path: "path \<in> set (catalog req)" "length args \<le> unat (result_bytes (req_limits req))"
    using c call(3) by (auto simp: cc)
  then have frame: "frameable S (call_event ?w1 path v)"
    using assms(1,2) call(4) by (auto simp: roomy_def on_course_def cc)
  then have sent: "sent ?w = sent w @ [call_event ?w1 path v]"
    using host_dispatch_sent [of S bs w path v] assms(1) by (simp add: on_course_def cc)
  have n: "unat (h_calls w + 1) = Suc (unat (h_calls w))" "h_calls w + 1 \<le> call_limit w"
    using calls_step [OF call(1)] by simp_all
  have "call_allowed req (Suc (unat (h_calls w))) (call_event ?w1 path v)"
    using assms(1,3) path n by (intro call_event_allowed) (auto simp: on_course_def metered_def word_le_nat_alt)
  then have "on_course S bs req ?w"
    using assms(1) host_dispatch_metered [of w S path v] host_dispatch_on_wire [of S bs w path v]
      host_dispatch_same [of S path v w] call(1) sent n frame
    by (auto simp: on_course_def configured_def cc)
  with call show ?thesis by simp
qed

lemma host_calls_on_course:
  assumes "on_course S bs req w" "roomy S req" "\<not> validate_only req"
    and "list_all (lawful (unat (result_bytes (req_limits req))) (catalog req)) cs"
  shows "on_course S bs req (host_calls S cs w)"
  using assms(1,4) unfolding host_calls_def
  by (induction cs arbitrary: w) (simp_all add: host_step_on_course [OF _ assms(2,3)] del: host_step.simps lawful.simps)

section \<open>The callbacks of a run\<close>

lemma request_ceilings:
  assumes "validate req = Inr ()"
  shows "instructions (req_limits req) < - 1"
proof -
  have "instructions (req_limits req) \<le> 100000000"
    using assms by (auto simp: validate_Inr within_ceilings_def)
  moreover have "(100000000 :: u64) < - 1"
    by (simp add: word_less_nat_alt unsigned_minus_1_eq_mask mask_eq_exp_minus_1)
  ultimately show ?thesis by (rule le_less_trans)
qed

lemma native_request_simps [simp]:
  "instruction_limit (native_request_of req g c) = instructions (req_limits req)"
  "memory_limit (native_request_of req g c) = memory_bytes (req_limits req)"
  "result_limit (native_request_of req g c) = result_bytes (req_limits req)"
  "n_catalog (native_request_of req g c) = c" "n_globals (native_request_of req g c) = g"
  "n_validate_only (native_request_of req g c) = 0 \<longleftrightarrow> \<not> validate_only req"
  by (simp_all add: native_request_of_def)

text \<open>Whether anything of the program is run at all, for an executor that runs some requests.\<close>

definition program_runs :: "(native_request \<Rightarrow> bool) \<Rightarrow> request \<Rightarrow> bool" where
  "program_runs runs req \<longleftrightarrow> (\<exists>globs cat. tree_new (globals req) = Inr globs
     \<and> tree_new (Array (map String (catalog req))) = Inr cat \<and> runs (native_request_of req globs cat))"

lemma guest_run_not_admitted:
  "validate req \<noteq> Inr () \<Longrightarrow> snd (guest_run S N fuel cpu req input k) = start_world req input k"
  by (auto simp: guest_run_def Let_def split: sum.split)

text \<open>The usage an event reports.\<close>

definition used :: "json \<Rightarrow> string \<Rightarrow> nat" where
  "used v k = (case as_u64 (member (member v ''usage'') k) of Some n \<Rightarrow> unat n | None \<Rightarrow> 0)"

lemma used_completed:
  "used (completed_event req r w cpu x) ''peak_memory_bytes'' = unat (peak_memory r)"
  "used (completed_event req r w cpu x) ''instructions'' = unat (r_instructions r)"
  "used (completed_event req r w cpu x) ''calls'' = unat (h_calls w)"
  by (simp_all add: used_def completed_event_def json_simps int_value_def)

context lawful_executor begin

lemma run_callbacks:
  assumes "validate req = Inr ()"
  shows "\<exists>cs. snd (guest_run S N fuel cpu req input k) = host_calls S cs (start_world req input k)
    \<and> list_all (\<lambda>c. program_runs runs req \<and>
        lawful (unat (result_bytes (req_limits req))) (catalog req) c) cs"
proof (rule guest_run_calls_all)
  fix globs cat answers what path args
  assume t: "tree_new (globals req) = Inr globs" "tree_new (Array (map String (catalog req))) = Inr cat"
    and c: "N (native_request_of req globs cat) answers = Callback what path args"
  have "runs (native_request_of req globs cat)
      \<and> lawful (unat (result_bytes (req_limits req))) (catalog req) (what, path, args)"
    using callback [OF c, of "catalog req"] decode_catalog_strings [OF t(2)]
      request_ceilings [OF assms] by simp
  with t show "program_runs runs req \<and>
      lawful (unat (result_bytes (req_limits req))) (catalog req) (what, path, args)"
    by (auto simp: program_runs_def)
qed

lemma program_runs_executes: "program_runs runs req \<Longrightarrow> \<not> validate_only req"
  by (auto simp: program_runs_def dest: executes)

lemma run_on_course:
  assumes "validate req = Inr ()" "room k = None" "roomy S req"
  shows "on_course S (written k) req (snd (guest_run S N fuel cpu req input k))"
proof -
  let ?w = "start_world req input k"
  have start: "on_course S (written k) req ?w"
    using start_metered [OF assms(1), of input k] assms(2)
    by (auto simp: on_course_def on_wire_def) (simp_all add: start_world_def)
  obtain cs where run: "snd (guest_run S N fuel cpu req input k) = host_calls S cs ?w"
    and cs: "list_all (\<lambda>c. program_runs runs req \<and>
      lawful (unat (result_bytes (req_limits req))) (catalog req) c) cs"
    using run_callbacks [OF assms(1)] by blast
  have "on_course S (written k) req (host_calls S cs ?w)"
  proof (cases cs)
    case Nil
    with start show ?thesis by (simp add: host_calls_def)
  next
    case (Cons c cs')
    with cs have "\<not> validate_only req" by (auto dest: program_runs_executes)
    then show ?thesis
      using host_calls_on_course [OF start assms(3)] cs by (simp add: list_all_iff del: lawful.simps)
  qed
  then show ?thesis by (simp add: run)
qed

lemma run_inert:
  assumes "\<not> program_runs runs req"
  shows "snd (guest_run S N fuel cpu req input k) = start_world req input k"
proof (cases "validate req = Inr ()")
  case True
  from run_callbacks [OF True, of S fuel cpu input k] obtain cs where
    "snd (guest_run S N fuel cpu req input k) = host_calls S cs (start_world req input k)"
    "list_all (\<lambda>c. program_runs runs req \<and>
      lawful (unat (result_bytes (req_limits req))) (catalog req) c) cs"
    by blast
  with assms show ?thesis by (cases cs) (auto simp: host_calls_def)
qed (rule guest_run_not_admitted)

lemma run_within_limits:
  assumes "guest_run S N fuel cpu req input k = (Some out, w)"
  shows "case out of
      Event v \<Rightarrow> used v ''peak_memory_bytes'' \<le> unat (memory_bytes (req_limits req))
        \<and> used v ''instructions'' \<le> unat (instructions (req_limits req))
        \<and> used v ''calls'' \<le> unat (calls (req_limits req))
    | ProcessExit c \<Rightarrow> fst (exit_report (ExitCode c)) \<in> {''instruction_limit'', ''memory_limit''}
    | RunError e \<Rightarrow> True"
proof (cases "\<exists>e. out = RunError e")
  case False
  obtain globs cat answers e where valid: "validate req = Inr ()"
    and x: "N (native_request_of req globs cat) answers = End e"
    and out: "case out of
        Event v \<Rightarrow> (\<exists>r x. e = Finished r \<and> v = completed_event req r w cpu x \<and> result_value S r = Inr x)
      | ProcessExit c \<Rightarrow> e = Exited c | RunError t \<Rightarrow> False"
    using guest_run_end [OF assms] False by blast
  have e: "sound_end (native_request_of req globs cat) e"
    using sound [OF x] request_ceilings [OF valid] by simp
  obtain cs where "w = host_calls S cs (start_world req input k)"
    using guest_run_calls [of S N fuel cpu req input k] assms by auto
  then have "h_calls w \<le> calls (req_limits req)"
    using calls_budget.run_within [OF start_metered [OF valid], where S = S and cs = cs]
    by (simp add: host_calls_def start_world_def word_le_nat_alt)
  with e out show ?thesis
    by (cases out) (auto simp: used_completed word_le_nat_alt)
qed auto

lemma run_returns:
  assumes "validate req = Inr ()" "crossable 0 (globals req)"
    and "unat (instructions (req_limits req)) + 1 < fuel"
  shows "\<exists>out w. guest_run S N fuel cpu req input k = (Some out, w)
    \<and> (case out of RunError e \<Rightarrow> e = ''Result is not valid UTF-8 structured data''
        | ProcessExit _ \<Rightarrow> True | Event v \<Rightarrow> True)"
proof (rule admitted_run_returns [OF assms(1,2) _ assms(3)])
  show "\<forall>globs cat. ends_within N (native_request_of req globs cat)
      (unat (instructions (req_limits req)) + 1)"
    by (metis ends native_request_simps(1))
qed

end

text \<open>The error of an execution, and where a type of its own comes from.\<close>

lemma error_details_type:
  "error_type (error_details q x tr r) =
     (case x_code x of None \<Rightarrow> error_type r
      | Some c \<Rightarrow> if x_class x = Error_class then c_buffer 64 c else error_type r)"
  by (auto simp: error_details_def Let_def split: option.split)

lemma failed_type:
  assumes "failed V q status x tr s = Finished r" "c_string (error_type r) \<noteq> []"
  shows "\<exists>c. x_class x = Error_class \<and> x_code x = Some c \<and> error_type r = c_buffer 64 c"
  using assms
  by (auto simp: failed_def Let_def error_details_type c_string_def split: option.splits if_splits)

lemma execute_error_type:
  assumes "ruby_execute V q answers = End (Finished r)" "instruction_limit q < - 1"
    and "c_string (error_type r) \<noteq> []"
  shows "\<exists>past x c. (\<exists>tr. snd (program V q past) = Leave (Inl (x, tr))) \<and> x_class x = Error_class
    \<and> x_code x = Some c \<and> error_type r = c_buffer 64 c"
proof -
  have "outcome V q (End (Finished r))"
    using execute_outcome [OF assms(2), of V answers] assms(1) by simp
  then show ?thesis
  proof cases
    case (Refused s status x tr)
    with failed_type [of V q status x tr s r] assms(3) show ?thesis by auto
  next
    case (Failing s past ticks x tr)
    moreover obtain c where "x_class x = Error_class" "x_code x = Some c" "error_type r = c_buffer 64 c"
      using failed_type [of V q 0 x tr s r] assms(3) Failing(1) by auto
    moreover have "snd (program V q past) = Leave (Inl (x, tr))" using Failing by simp
    ultimately show ?thesis by blast
  next
    case (Returning s past ticks v)
    show ?thesis
    proof (cases "encode (show_float V) (unat (result_limit q)) [] v 0")
      case (Inl e)
      with Returning failed_type [of V q 0 "encode_exn e" "backtrace V (encode_exn e)" s r] assms(3)
      show ?thesis by (simp add: finished_def)
    next
      case (Inr json)
      with Returning assms(3) show ?thesis by (simp add: finished_def c_string_def split: if_splits)
    qed
  qed (use assms(3) in \<open>auto simp: c_string_def\<close>)
qed

lemma c_string_buffer: "0 < n \<Longrightarrow> c_string (c_buffer n s) = take (n - 1) (c_string s)"
proof -
  have "takeWhile (\<lambda>c. c \<noteq> CHR 0x00) (take m (c_string s) @ [CHR 0x00]) = take m (c_string s)" for m
  proof -
    have "\<forall>c \<in> set (take m (c_string s)). c \<noteq> CHR 0x00"
      by (metis c_string_def in_set_takeD set_takeWhileD)
    then show ?thesis by (simp add: takeWhile_append2 [where ys = "[CHR 0x00]"])
  qed
  then show "c_string (c_buffer n s) = take (n - 1) (c_string s)"
    unfolding c_buffer_def by (subst c_string_def) simp
qed

section \<open>Samples\<close>

text \<open>An interpreter whose program makes one call and returns, or raises, what comes of it.\<close>

definition sample_mruby :: mruby where
  "sample_mruby =
     \<lparr>boot = (\<lambda>_. ([], True)), set_up = (\<lambda>_. []),
      parsed = (\<lambda>_. ([], Compiled (Irep [] [] []))),
      program = (\<lambda>_ past. case past of
          [] \<Rightarrow> ([Instruction], Invoke (Call ''records.list'' []))
        | Value v # _ \<Rightarrow> ([], Leave (Inr v))
        | Path _ # _ \<Rightarrow> ([], Leave (Inr VNil))
        | Raised x # _ \<Rightarrow> ([], Leave (Inl (x, Some [Some ''sample.rb:3:in call''])))),
      show_float = (\<lambda>_. ''0.5''), backtrace = (\<lambda>_. None), presentation = (\<lambda>_ _. []),
      result_malloc = (\<lambda>_. True)\<rparr>"

lemma sample_globals_cross: "crossable 0 (globals sample_request)"
  by (simp add: sample_request_def empty_object_def object_def)

text \<open>The same with a source that does not parse.\<close>

definition broken_mruby :: mruby where
  "broken_mruby = sample_mruby\<lparr>parsed := (\<lambda>_. ([], ParseErrors 3 1 ''unexpected end''))\<rparr>"

definition broken_result :: native_result where
  "broken_result =
     \<lparr>r_json = None, error_buffer = ''unexpected end'' @ [CHR 0x00], error_type = [CHR 0x00], r_line = 3,
      r_column = 1, r_status = 1, peak_memory = 0, r_instructions = 0\<rparr>"

lemma broken_executes:
  assumes "decode_record (n_globals q) = Inr globs" "decode_catalog (n_catalog q) = Inr cat"
  shows "ruby_execute broken_mruby q answers = End (Finished broken_result)"
  using assms
  by (simp add: ruby_execute_def broken_mruby_def sample_mruby_def run_source_def fresh_meters_def
      fresh_machine_def fresh_heap_def stopped.simps blank_result_def broken_result_def c_buffer_def
      c_string_def)

definition broken_event :: "bytes \<Rightarrow> sink \<Rightarrow> json" where
  "broken_event input k =
     completed_event sample_request broken_result (start_world sample_request input k) None Null"

lemma broken_run:
  "guest_run S (ruby_execute broken_mruby) 1 None sample_request input k
     = (Some (Event (broken_event input k)), start_world sample_request input k)"
proof -
  obtain globs where g: "tree_new (globals sample_request) = Inr globs"
    using sample_globals_cross unfolding tree_new_def by (metis add_total(1))
  obtain cat where c: "tree_new (Array (map String (catalog sample_request))) = Inr cat"
    using catalog_crosses by blast
  have "globals sample_request = Object []"
    by (simp add: sample_request_def empty_object_def object_def)
  then have "decode_record globs = Inr []"
    using decode_record_reflected [OF g] by (simp add: ordered_def record_data_def reflected_pairs_def)
  then have "ruby_execute broken_mruby (native_request_of sample_request globs cat) [] =
      End (Finished broken_result)"
    using broken_executes [of "native_request_of sample_request globs cat"] decode_catalog_strings [OF c]
    by simp
  moreover have "CHR 0x00 \<notin> set (filename sample_request)"
    by (simp add: sample_request_def default_filename_def)
  ultimately show ?thesis
    using g c sample_request_valid
    by (simp add: guest_run_def Let_def result_value_def broken_event_def) (simp add: broken_result_def)
qed

lemma sample_instructions: "unat (instructions (req_limits sample_request)) = 10000000"
  by (simp add: sample_request_def default_limits_def)

section \<open>Properties\<close>

text \<open>
  C13: what crosses the boundary is well-formed. Every frame the guest writes is a value whose objects
  have their keys in order and once each, and every reply it hands to the native side is decoded to
  a record there: the decoder never meets an invalid node, a missing one or one nested too deep.
\<close>
theorem boundary_is_typed:
  assumes "parses_wf S" "guest_run S N fuel cpu req input k = (out, w)"
  shows "list_all json_wf (sent w) \<and> (case reply w of None \<Rightarrow> True | Some t \<Rightarrow> \<not> isl (decode_record t))
    \<and> (case out of Some (Event v) \<Rightarrow> json_wf v | _ \<Rightarrow> True)"
proof -
  obtain cs where "w = host_calls S cs (start_world req input k)"
    using guest_run_calls [of S N fuel cpu req input k] assms(2) by auto
  then have "typed w"
    using host_calls_typed [OF assms(1), of "start_world req input k" cs]
    by (simp add: typed_def start_world_def)
  moreover have "json_wf v" if "out = Some (Event v)" for v
  proof -
    obtain r x where v: "v = completed_event req r w cpu x" and x: "result_value S r = Inr x"
      using guest_run_event [of S N fuel cpu req input k v w] assms(2) \<open>out = Some (Event v)\<close> by blast
    have "json_wf x"
      using x parsed_wf [OF assms(1)] by (auto simp: result_value_def split: option.splits sum.splits)
    then show ?thesis
      by (auto simp: v completed_event_def error_value_def int_value_def intro!: object_wf split: option.split)
  qed
  ultimately show ?thesis by (auto simp: typed_def split: option.split run_outcome.split)
qed

theorem boundary_is_typed_witness:
  "let (out, w) = guest_run (sample_codec Null) sample_native 2 None sample_request []
      \<lparr>written = [], room = None, fault = frame_limit_error\<rparr> in
    list_all json_wf (sent w) \<and> (case reply w of None \<Rightarrow> True | Some t \<Rightarrow> \<not> isl (decode_record t))"
proof -
  obtain out w where g: "guest_run (sample_codec Null) sample_native 2 None sample_request []
      \<lparr>written = [], room = None, fault = frame_limit_error\<rparr> = (out, w)" by force
  have "parses_wf (sample_codec Null)" by (simp add: parses_wf_def sample_codec_def)
  from boundary_is_typed [OF this g] show ?thesis by (simp add: g)
qed



text \<open>
  C8: nothing of a program runs before it is admitted. If the source does not parse or compile, if
  any of its code is refused, or if the request is only to be validated, the run writes no frame,
  reads nothing and stores no reply: the guest's state is the one it started with.
\<close>
theorem unadmitted_program_is_inert:
  assumes "\<not> program_runs (accepted V) req"
  shows "snd (guest_run S (ruby_execute V) fuel cpu req input k) = start_world req input k"
  using assms by (rule rx.run_inert)

theorem unadmitted_program_is_inert_witness:
  "snd (guest_run (sample_codec Null) (ruby_execute sample_mruby) 9 None
      (sample_request\<lparr>validate_only := True\<rparr>) [1] \<lparr>written = [], room = None, fault = frame_limit_error\<rparr>)
    = start_world (sample_request\<lparr>validate_only := True\<rparr>) [1]
        \<lparr>written = [], room = None, fault = frame_limit_error\<rparr>"
  by (rule unadmitted_program_is_inert) (auto dest: rx.program_runs_executes)

text \<open>
  C5: an execution ends within its limits. The usage a terminal event reports is at most what the
  request allows, in memory, instructions and calls; and a guest process that ends inside the
  executor ends with an exit code that the supervisor reports as one of the two budgets.
\<close>
theorem execution_ends_within_limits:
  assumes "guest_run S (ruby_execute V) fuel cpu req input k = (Some out, w)"
  shows "case out of
      Event v \<Rightarrow> used v ''peak_memory_bytes'' \<le> unat (memory_bytes (req_limits req))
        \<and> used v ''instructions'' \<le> unat (instructions (req_limits req))
        \<and> used v ''calls'' \<le> unat (calls (req_limits req))
    | ProcessExit c \<Rightarrow> fst (exit_report (ExitCode c)) \<in> {''instruction_limit'', ''memory_limit''}
    | RunError e \<Rightarrow> True"
  using assms by (rule rx.run_within_limits)

theorem execution_ends_within_limits_witness:
  "\<exists>out w. guest_run (sample_codec sample_reply) (ruby_execute sample_mruby) 10000002 None sample_request
      [0, 0, 0, 1, 116] \<lparr>written = [], room = None, fault = frame_limit_error\<rparr> = (Some out, w)
    \<and> (case out of ProcessExit c \<Rightarrow> fst (exit_report (ExitCode c)) \<in> {''instruction_limit'', ''memory_limit''}
       | _ \<Rightarrow> True)"
proof -
  have "unat (instructions (req_limits sample_request)) + 1 < 10000002"
    by (simp add: sample_instructions)
  then obtain out w where g: "guest_run (sample_codec sample_reply) (ruby_execute sample_mruby) 10000002
      None sample_request [0, 0, 0, 1, 116] \<lparr>written = [], room = None, fault = frame_limit_error\<rparr>
      = (Some out, w)"
    using rx.run_returns [OF sample_request_valid sample_globals_cross] by blast
  from execution_ends_within_limits [OF g] g show ?thesis by (auto split: run_outcome.splits)
qed



text \<open>
  A program is stopped by its own end or by a limit, never by the bound of the model. Given more
  fuel than one unit above the instruction limit, the executor behaves the same.
\<close>
theorem instruction_limit_is_enough:
  assumes "instruction_limit q < - 1"
  shows "replay V q cat globs (unat (instruction_limit q) + 1 + spare) answers past (fresh_meters q)
    = replay V q cat globs (unat (instruction_limit q) + 1) answers past (fresh_meters q)"
proof (rule replay_fuel [OF fresh_within [OF assms]])
  show "stopped (fresh_meters q) = None"
    by (simp add: fresh_meters_def fresh_machine_def fresh_heap_def stopped.simps)
qed (simp add: fresh_meters_def)

theorem instruction_limit_is_enough_witness:
  "replay sample_mruby (native_request_of sample_request empty_tree empty_tree) [''records.list''] []
      (unat (instructions (req_limits sample_request)) + 1 + 7) [] []
      (fresh_meters (native_request_of sample_request empty_tree empty_tree))
    = replay sample_mruby (native_request_of sample_request empty_tree empty_tree) [''records.list''] []
      (unat (instructions (req_limits sample_request)) + 1) [] []
      (fresh_meters (native_request_of sample_request empty_tree empty_tree))"
  using instruction_limit_is_enough [of "native_request_of sample_request empty_tree empty_tree"
      sample_mruby "[''records.list'']" "[]" 7 "[]" "[]"]
    request_ceilings [OF sample_request_valid]
  by (simp only: native_request_simps)

text \<open>
  What the host answers is what Ruby sees. A reply whose \<open>ok\<close> is true gives its \<open>value\<close>, and any
  other raises the guest's own error class with the reply's \<open>message\<close> and \<open>code\<close>, where these are
  strings; the value has the shape of the JSON value, objects as records.
\<close>
theorem reply_becomes_answer:
  assumes "tree_new response = Inr t" "json_wf response" "is_boolean (member response ''ok'')"
  shows "exchange_answer (0, Some t) =
    (if member response ''ok'' = Bool True then Value (reflected (member response ''value''))
     else Raised \<lparr>x_class = Error_class,
       x_message = Some (case as_str (member response ''message'') of
         None \<Rightarrow> ''Capability call failed'' | Some s \<Rightarrow> s),
       x_code = as_str (member response ''code'')\<rparr>)"
proof -
  obtain kvs where r: "response = Object kvs" using member_boolean_object [OF assms(3)] by blast
  have d: "decode_record t = Inr (reflected_pairs kvs)"
    using decode_record_reflected [OF assms(1,2)] by (simp add: r record_data_def)
  have str: "(case reflected v of VString s \<Rightarrow> f s | _ \<Rightarrow> z) = (case as_str v of None \<Rightarrow> z | Some s \<Rightarrow> f s)"
    for v f and z :: "'a"
  proof (cases v)
    case (Number n)
    then show ?thesis by (cases n) simp_all
  qed simp_all
  from assms(3) obtain b where "member response ''ok'' = Bool b"
    by (cases "member response ''ok''") simp_all
  then show ?thesis
    by (auto simp: exchange_answer_def d envelope_answer_def str r split: option.split)
qed

theorem reply_becomes_answer_witness:
  "\<exists>t. tree_new sample_reply = Inr t \<and> exchange_answer (0, Some t) = Value VNil"
proof -
  obtain t where t: "tree_new sample_reply = Inr t" using sample_reply_crosses by blast
  have "json_wf sample_reply"
    by (auto simp: sample_reply_def int_value_def intro!: object_wf)
  moreover have "member sample_reply ''ok'' = Bool True" "member sample_reply ''value'' = Null"
    by (simp_all add: sample_reply_def json_simps)
  ultimately show ?thesis using reply_becomes_answer [OF t] t by simp
qed

text \<open>What Ruby makes of the host's reply.\<close>

definition reply_answer :: "json \<Rightarrow> answer" where
  "reply_answer response =
     (if member response ''ok'' = Bool True then Value (reflected (member response ''value''))
      else Raised \<lparr>x_class = Error_class,
        x_message = Some (case as_str (member response ''message'') of
          None \<Rightarrow> ''Capability call failed'' | Some s \<Rightarrow> s),
        x_code = as_str (member response ''code'')\<rparr>)"

text \<open>
  C18: a capability call goes all the way there and back. When Ruby calls a path of the catalog with
  arguments that can be encoded, what goes on the wire is the call frame with that path and the value
  of the encoded arguments, and when the host's next frame is the reply to it, Ruby sees exactly
  the reply's value, or an exception with its message and code.
\<close>
theorem capability_call_round_trip:
  assumes "path \<in> set cat" "CHR 0x00 \<notin> set path" "utf8 path"
    and "encodable 0 (VArray args)" "length (render F (VArray args)) \<le> unat (result_limit q)"
    and "from_slice S (as_bytes (render F (VArray args))) = Inr value" "h_calls w < call_limit w"
    and "room (stdout w) = None" "stdin w = frame S response @ rest"
    and "frameable S response" "codec_ok S response" "crossable 0 response" "json_wf response"
    and "reply_matches (w\<lparr>h_sequence := h_sequence w + 1\<rparr>) response"
    and "frameable S (call_event (w\<lparr>h_sequence := h_sequence w + 1\<rparr>) path value)"
  shows "\<exists>json w'. react F q cat globs (Call path args) = Ask ''call'' path json
    \<and> host_call S ''call'' path (as_bytes json) w = (0, w')
    \<and> sent w' = sent w @ [call_event (w\<lparr>h_sequence := h_sequence w + 1\<rparr>) path value]
    \<and> stdin w' = rest \<and> exchange_answer (0, reply w') = reply_answer response"
proof -
  let ?json = "render F (VArray args)"
  have "encode F (unat (result_limit q)) [] (VArray args) 0 = Inr ?json"
    using assms(4,5) encode_ok(1) [of "[]" "unat (result_limit q)" F "VArray args" 0 ?json] by simp
  then have r: "react F q cat globs (Call path args) = Ask ''call'' path ?json"
    using assms(1,2) by (auto simp: app_call_def list_ex_iff exchange_ask_def simp del: encode.simps)
  obtain t where t: "tree_new response = Inr t"
    using assms(12) unfolding tree_new_def by (metis add_total(1))
  have "is_boolean (member response ''ok'')" using assms(14) by (simp add: reply_matches_def)
  from reply_becomes_answer [OF t assms(13) this]
  have "exchange_answer (0, Some t) = reply_answer response" by (simp add: reply_answer_def)
  with r show ?thesis
    using host_call_answered [OF assms(3,6-11) t assms(14,15)] by auto
qed

theorem capability_call_round_trip_witness:
  "\<exists>json w'. react (\<lambda>_. []) (native_request_of sample_request empty_tree empty_tree) [''records.list''] []
      (Call ''records.list'' [VInt 7]) = Ask ''call'' ''records.list'' json
    \<and> host_call (sample_codec sample_reply) ''call'' ''records.list'' (as_bytes json) sample_world = (0, w')
    \<and> stdin w' = [9] \<and> exchange_answer (0, reply w') = Value VNil"
proof -
  have q: "result_limit (native_request_of sample_request empty_tree empty_tree) = 1048576"
    by (simp add: sample_request_def default_limits_def)
  have p: "from_slice (sample_codec sample_reply) bs = Inr sample_reply" for bs
    by (simp add: sample_codec_def)
  have wf: "json_wf sample_reply" by (auto simp: sample_reply_def int_value_def intro!: object_wf)
  have cross: "crossable 0 sample_reply" by code_simp
  have a: "reply_answer sample_reply = Value VNil"
    by (simp add: reply_answer_def sample_reply_def json_simps)
  show ?thesis
    using capability_call_round_trip [of "''records.list''" "[''records.list'']" "[VInt 7]" "\<lambda>_. []"
        "native_request_of sample_request empty_tree empty_tree" "sample_codec sample_reply"
        sample_reply sample_world sample_reply "[9]" "[]"]
      sample_path_utf8 sample_reply_matches q p wf cross a
    by (simp add: decimal_def del: crossable.simps react.simps) blast
qed




text \<open>
  C23: a failure is presented as what it is. The error of a terminal event has a message that is text,
  and its type is one of the engine's three, unless the program was left with a failed
  capability call: only that class of exception gives its code, cut to the buffer, as the type.
\<close>
theorem failure_is_presented:
  assumes "guest_run S (ruby_execute V) fuel cpu req input k = (Some (Event v), w)"
    and "member v ''error'' \<noteq> Null"
  shows "\<exists>t m. member (member v ''error'') ''type'' = String t
    \<and> member (member v ''error'') ''message'' = String m \<and> utf8 m
    \<and> (t \<in> {''syntax_error'', ''profile_error'', ''ruby_error''}
       \<or> (\<exists>q past x tr c. snd (program V q past) = Leave (Inl (x, tr)) \<and> x_class x = Error_class
            \<and> x_code x = Some c \<and> t = take 63 (c_string c)))"
proof -
  obtain globs cat answers r y where valid: "validate req = Inr ()"
    and x: "ruby_execute V (native_request_of req globs cat) answers = End (Finished r)"
    and v: "v = completed_event req r w cpu y"
    using guest_run_end [OF assms(1)] by auto
  have "r_status r \<noteq> 0"
    using assms(2) by (auto simp: v completed_event_def error_value_def json_simps)
  then have m: "member (member v ''error'') ''type'' = String (error_kind_of r)"
    "member (member v ''error'') ''message'' = String (to_string_lossy (c_string (error_buffer r)))"
    by (simp_all add: v completed_event_def error_value_def json_simps)
  have "error_kind_of r \<in> {''syntax_error'', ''profile_error'', ''ruby_error''}
      \<or> (\<exists>q past x tr c. snd (program V q past) = Leave (Inl (x, tr)) \<and> x_class x = Error_class
            \<and> x_code x = Some c \<and> error_kind_of r = take 63 (c_string c))"
  proof (cases "c_string (error_type r) = []")
    case False
    with execute_error_type [OF x] request_ceilings [OF valid] obtain past x c tr where
      "snd (program V (native_request_of req globs cat) past) = Leave (Inl (x, tr))"
      "x_class x = Error_class" "x_code x = Some c" "error_type r = c_buffer 64 c"
      by auto
    then show ?thesis by (auto simp: error_kind_of_def c_string_buffer)
  qed (simp add: error_kind_of_def)
  with m lossy_is_utf8 show ?thesis by blast
qed

theorem failure_is_presented_witness:
  "\<exists>v w t. guest_run (sample_codec Null) (ruby_execute broken_mruby) 1 None sample_request []
      \<lparr>written = [], room = None, fault = frame_limit_error\<rparr> = (Some (Event v), w)
    \<and> member (member v ''error'') ''type'' = String t
    \<and> member (member v ''error'') ''line'' = int_value 3"
proof -
  let ?k = "\<lparr>written = [], room = None, fault = frame_limit_error\<rparr>"
  have e: "member (broken_event [] ?k) ''error'' = error_value sample_request broken_result"
    "error_value sample_request broken_result \<noteq> Null"
    "member (error_value sample_request broken_result) ''line'' = int_value 3"
    by (simp_all add: broken_event_def completed_event_def json_simps error_value_def broken_result_def)
      (simp add: object_def)
  with failure_is_presented [OF broken_run [of "sample_codec Null" "[]" ?k]]
    broken_run [of "sample_codec Null" "[]" ?k] show ?thesis by auto
qed

end
