(* ===== verification/Build.thy ===== *)
theory Build
  imports GuestRun
begin

text \<open>
  The programs around the engine: \<open>build.rs\<close>, which compiles mruby and the C layer from a pinned
  source, and the two fuzz targets. The commands the build script runs are not part of the
  repository; what they answer is the record \<open>build_env\<close>. A failed \<open>assert!\<close>, \<open>expect\<close> or
  \<open>unwrap\<close> is a panic, which fails the build.
\<close>

section \<open>Text of a command\<close>

text \<open>\<open>str::trim\<close> takes off characters of Unicode White_Space; these are their UTF-8 encodings.\<close>

definition whitespace :: "string list" where
  "whitespace =
     [[CHR 0x09], [CHR 0x0A], [CHR 0x0B], [CHR 0x0C], [CHR 0x0D], [CHR 0x20],
      [CHR 0xC2, CHR 0x85], [CHR 0xC2, CHR 0xA0], [CHR 0xE1, CHR 0x9A, CHR 0x80],
      [CHR 0xE2, CHR 0x80, CHR 0x80], [CHR 0xE2, CHR 0x80, CHR 0x81], [CHR 0xE2, CHR 0x80, CHR 0x82],
      [CHR 0xE2, CHR 0x80, CHR 0x83], [CHR 0xE2, CHR 0x80, CHR 0x84], [CHR 0xE2, CHR 0x80, CHR 0x85],
      [CHR 0xE2, CHR 0x80, CHR 0x86], [CHR 0xE2, CHR 0x80, CHR 0x87], [CHR 0xE2, CHR 0x80, CHR 0x88],
      [CHR 0xE2, CHR 0x80, CHR 0x89], [CHR 0xE2, CHR 0x80, CHR 0x8A], [CHR 0xE2, CHR 0x80, CHR 0xA8],
      [CHR 0xE2, CHR 0x80, CHR 0xA9], [CHR 0xE2, CHR 0x80, CHR 0xAF], [CHR 0xE2, CHR 0x81, CHR 0x9F],
      [CHR 0xE3, CHR 0x80, CHR 0x80]]"

fun strip_first :: "string list \<Rightarrow> string \<Rightarrow> string option" where
  "strip_first [] s = None"
| "strip_first (p # ps) s =
     (if p \<noteq> [] \<and> starts_with s p then Some (drop (length p) s) else strip_first ps s)"

lemma strip_first_shorter: "strip_first ps s = Some r \<Longrightarrow> length r < length s"
proof (induction ps s rule: strip_first.induct)
  case (2 p ps s)
  then show ?case by (cases s) (auto simp: starts_with_def split: if_splits)
qed simp

function trim_start :: "string list \<Rightarrow> string \<Rightarrow> string" where
  "trim_start ps s = (case strip_first ps s of None \<Rightarrow> s | Some r \<Rightarrow> trim_start ps r)"
  by pat_completeness auto
termination
  by (relation "measure (\<lambda>(ps, s). length s)") (auto dest: strip_first_shorter)

declare trim_start.simps [simp del]

definition trim :: "string \<Rightarrow> string" where
  "trim s = rev (trim_start (map rev whitespace) (rev (trim_start whitespace s)))"

section \<open>The build script\<close>

type_synonym command_output = "io_error + bool \<times> string"

record build_env =
  manifest_dir :: "string option"
  git_head :: command_output
  git_dirty :: command_output
  rake :: "io_error + bool"
  cc_compiles :: bool

text \<open>What the script does to the world, in order.\<close>

datatype build_step =
    Spawn string "string list" string "(string \<times> string) list"
  | CompileShim string "string list" "(string \<times> string option) list" string
  | Println string

datatype build_end = Built | Panicked string

definition path_join :: "string \<Rightarrow> string \<Rightarrow> string" where
  "path_join root p = (if root \<noteq> [] \<and> last root = CHR ''/'' then root @ p else root @ ''/'' @ p)"

definition MRUBY_COMMIT :: string where
  "MRUBY_COMMIT = ''831da26b9021de0369d17b71b5667e2941a1a32d''"

definition mruby_source :: "string \<Rightarrow> string" where
  "mruby_source root = path_join root ''vendor/mruby''"

definition git_head_step :: "string \<Rightarrow> build_step" where
  "git_head_step root = Spawn ''git'' [''rev-parse'', ''HEAD''] (mruby_source root) []"

definition git_dirty_step :: "string \<Rightarrow> build_step" where
  "git_dirty_step root =
     Spawn ''git'' [''status'', ''--porcelain'', ''--untracked-files=no''] (mruby_source root) []"

definition rake_step :: "string \<Rightarrow> build_step" where
  "rake_step root = Spawn ''rake'' [] (mruby_source root)
     [(''MRUBY_CONFIG'', path_join root ''build_config.rb'')]"

definition compile_step :: "string \<Rightarrow> build_step" where
  "compile_step root = CompileShim ''native/guest.c''
     [path_join (mruby_source root) ''include'', path_join (mruby_source root) ''build/guest/include'']
     [(''MRB_NO_STDIO'', None), (''MRB_USE_DEBUG_HOOK'', None), (''MRB_INT64'', None),
      (''MRB_STACK_MAX'', Some ''65536'')]
     ''ruby_guest_shim''"

definition link_steps :: "string \<Rightarrow> build_step list" where
  "link_steps root = map Println
     [''cargo:rustc-link-search=native='' @ to_string_lossy (path_join (mruby_source root) ''build/guest/lib''),
      ''cargo:rustc-link-lib=static=mruby'', ''cargo:rustc-link-lib=m'',
      ''cargo:rerun-if-changed=native/guest.c'', ''cargo:rerun-if-changed=native/guest.h'',
      ''cargo:rerun-if-changed=build_config.rb'', ''cargo:rerun-if-changed=engine.lock.json'']"

text \<open>
  \<open>main\<close>, one case for each place where it may panic; what has been done so far is the first part of
  the result.
\<close>

definition build_main :: "build_env \<Rightarrow> build_step list \<times> build_end" where
  "build_main b =
     (case manifest_dir b of
        None \<Rightarrow> ([], Panicked ''called Option::unwrap() on a None value'')
      | Some root \<Rightarrow>
          let steps = [git_head_step root] in
          (case git_head b of
             Inl _ \<Rightarrow> (steps, Panicked ''provision vendor/mruby first'')
           | Inr (succeeded, revision) \<Rightarrow>
               if \<not> succeeded then (steps, Panicked ''assertion failed: revision.status.success()'')
               else if \<not> utf8 revision then (steps, Panicked ''called Result::unwrap() on an Err value'')
               else if trim revision \<noteq> MRUBY_COMMIT then (steps, Panicked ''mruby source pin mismatch'')
               else let steps = steps @ [git_dirty_step root] in
                 (case git_dirty b of
                    Inl _ \<Rightarrow> (steps, Panicked ''called Result::unwrap() on an Err value'')
                  | Inr (succeeded, dirty) \<Rightarrow>
                      if \<not> (succeeded \<and> dirty = []) then (steps, Panicked ''mruby source was modified'')
                      else let steps = steps @ [rake_step root] in
                        (case rake b of
                           Inl _ \<Rightarrow> (steps, Panicked ''rake is required'')
                         | Inr succeeded \<Rightarrow>
                             if \<not> succeeded then (steps, Panicked ''mruby build failed'')
                             else let steps = steps @ [compile_step root] in
                               if \<not> cc_compiles b then (steps, Panicked ''cc failed'')
                               else (steps @ link_steps root, Built)))))"

section \<open>The fuzz targets\<close>

text \<open>
  Each target makes one call and drops what it returns, which is the result here; \<open>parse\<close> is
  \<open>serde_json::from_slice::<Request>\<close>.
\<close>

definition fuzz_protocol_frame :: "serde \<Rightarrow> bytes \<Rightarrow> io_error + json" where
  "fuzz_protocol_frame S input = fst (read_frame S input)"

definition fuzz_request_admission :: "(bytes \<Rightarrow> json_error + request) \<Rightarrow> bytes \<Rightarrow>
    (request_error + unit) option" where
  "fuzz_request_admission parse input =
     (case parse input of
        Inr req \<Rightarrow> Some (validate req)
      | Inl _ \<Rightarrow> None)"

section \<open>Properties\<close>

definition pinned :: "build_env \<Rightarrow> bool" where
  "pinned b \<longleftrightarrow>
     (case git_head b of Inl _ \<Rightarrow> False | Inr (ok, r) \<Rightarrow> ok \<and> utf8 r \<and> trim r = MRUBY_COMMIT)"

definition unmodified :: "build_env \<Rightarrow> bool" where
  "unmodified b \<longleftrightarrow> (case git_dirty b of Inl _ \<Rightarrow> False | Inr (ok, d) \<Rightarrow> ok \<and> d = [])"

definition build_plan :: "string \<Rightarrow> build_step list" where
  "build_plan root =
     [git_head_step root, git_dirty_step root, rake_step root, compile_step root] @ link_steps root"

text \<open>How many of the steps are taken.\<close>

definition reached :: "build_env \<Rightarrow> nat" where
  "reached b =
     (if \<not> pinned b then 1 else if \<not> unmodified b then 2 else if rake b \<noteq> Inr True then 3
      else if \<not> cc_compiles b then 4 else 11)"

lemma build_main_reached:
  assumes "manifest_dir b = Some root"
  shows "fst (build_main b) = take (reached b) (build_plan root)"
    and "snd (build_main b) = Built \<longleftrightarrow> reached b = 11"
  using assms
  by (auto simp: build_main_def Let_def pinned_def unmodified_def build_plan_def link_steps_def
      reached_def split: sum.splits)

text \<open>
  C35: only the pinned source is built. The script runs its steps in one order and stops at the first
  that fails; nothing is built with rake unless the checked-out revision is the pinned commit and
  the tree is unmodified, nothing is compiled unless rake succeeded, and cargo is told to link
  exactly when everything did.
\<close>
theorem only_pinned_source_is_built:
  "case manifest_dir b of
     None \<Rightarrow> fst (build_main b) = [] \<and> snd (build_main b) \<noteq> Built
   | Some root \<Rightarrow>
       (\<exists>n. fst (build_main b) = take n (build_plan root))
       \<and> (rake_step root \<in> set (fst (build_main b)) \<longleftrightarrow> pinned b \<and> unmodified b)
       \<and> (compile_step root \<in> set (fst (build_main b)) \<longleftrightarrow> pinned b \<and> unmodified b \<and> rake b = Inr True)
       \<and> (snd (build_main b) = Built \<longleftrightarrow>
            pinned b \<and> unmodified b \<and> rake b = Inr True \<and> cc_compiles b)
       \<and> (snd (build_main b) = Built \<longleftrightarrow> fst (build_main b) = build_plan root)"
proof (cases "manifest_dir b")
  case None
  then show ?thesis by (simp add: build_main_def)
next
  case (Some root)
  have "rake_step root \<in> set (take (reached b) (build_plan root)) \<longleftrightarrow> reached b > 2"
    "compile_step root \<in> set (take (reached b) (build_plan root)) \<longleftrightarrow> reached b > 3"
    "reached b = 11 \<longleftrightarrow> take (reached b) (build_plan root) = build_plan root"
    by (auto simp: reached_def build_plan_def link_steps_def git_head_step_def git_dirty_step_def
        rake_step_def compile_step_def)
  then show ?thesis
    unfolding Some option.case build_main_reached [OF Some]
    by (intro conjI exI [of _ "reached b"] refl) (auto simp: reached_def split: if_splits)
qed

text \<open>For instance a checkout of the pinned commit, whose name git prints with a line feed.\<close>

definition sample_build :: build_env where
  "sample_build =
     \<lparr>manifest_dir = Some ''/engine'', git_head = Inr (True, MRUBY_COMMIT @ [CHR 0x0A]),
      git_dirty = Inr (True, []), rake = Inr True, cc_compiles = True\<rparr>"

lemma sample_build_succeeds: "snd (build_main sample_build) = Built"
  by code_simp

end
