(* ===== verification/Spec2Isabelle.thy ===== *)
theory Spec2Isabelle
  imports Runner Callbacks Build
begin

text \<open>
  A verification development for the shared Ruby engine: a Rust program (\<open>src/src\<close>) that runs one
  untrusted Ruby program in a disposable guest process, with a small C layer (\<open>src/native\<close>) around
  the mruby interpreter.

  \<^bold>\<open>The program.\<close> The engine is one executable (\<open>main.rs\<close>). Started without arguments it is the
  supervisor: it reads one request frame, starts itself again with \<open>--guest\<close>, and forwards frames
  between the host and that guest until a terminal frame has been delivered (\<open>supervisor.rs\<close>, on
  the nonblocking pipes of \<open>transport.rs\<close>). The guest admits the request a second time
  (\<open>protocol.rs\<close>), puts itself under an operating-system policy (\<open>isolation.rs\<close>), and runs the
  program (\<open>guest.rs\<close>, \<open>guest.c\<close>); the program's capability calls come back through
  \<open>ruby_host_call\<close>, which writes a call frame and waits for the reply.

  \<^bold>\<open>The theories, in the order of their imports.\<close>

  \<^item> \<open>Prelude\<close>: machine words, results and \<open>and_then\<close> (Rust's \<open>?\<close>), I/O errors, the big-endian header.
  \<^item> \<open>Json\<close>: \<open>serde_json::Value\<close>, its accessors, objects in key order, and \<open>serde\<close>, the crate's
    printer and parser as a parameter record.
  \<^item> \<open>Protocol\<close>, \<open>Framing\<close> (\<open>protocol.rs\<close>): \<open>Request\<close> and \<open>Limits\<close> with their serde attributes,
    \<open>validate\<close>, \<open>read_frame\<close> and \<open>write_frame\<close> over a byte list and a \<open>sink\<close> that may fail.
  \<^item> \<open>Transport\<close> (\<open>transport.rs\<close>): \<open>receive\<close>, \<open>enqueue\<close> and \<open>send\<close> over the answers of single system
    calls; the interfaces \<open>frame_writer\<close> and \<open>frame_reader\<close> that the supervisor relies on.
  \<^item> \<open>Supervisor\<close>, \<open>Supervision\<close> (\<open>supervisor.rs\<close>): the record \<open>sup\<close> holds the locals of \<open>run\<close>; one turn
    of its loop is \<open>iterate\<close>, seven stages in the order of the source; the outside world of a turn
    is a value of \<open>env\<close>, so a run is over a list of them. \<open>converse\<close> is the conversation the
    supervisor promises, an automaton over what is queued for either side.
  \<^item> \<open>ValueTree\<close> (\<open>guest.rs\<close>, \<open>guest.c\<close>): \<open>Tree::new\<close> and the C decoder that reads its nodes back.
  \<^item> \<open>EditDistance\<close> (\<open>guest.rs\<close>): the one-row table, against edit scripts.
  \<^item> \<open>Budget\<close>: the locales \<open>bounded\<close> and \<open>budget\<close>, interpreted for calls, log bytes, native memory and
    instructions.
  \<^item> \<open>GuestHost\<close>, \<open>GuestRun\<close> (\<open>guest.rs\<close>): \<open>ruby_host_call\<close> on the record \<open>world\<close> (the \<open>Host\<close> with its
    two pipe ends), and \<open>run\<close> with the native request, the native result and the terminal event.
  \<^item> \<open>Isolation\<close> (\<open>isolation.rs\<close>): \<open>enter\<close> and its parts as programs over a kernel that answers each
    call, with the trace of calls; the seccomp filter and an interpreter for it; the probe.
  \<^item> \<open>Runner\<close> (\<open>main.rs\<close>): the modes as processes, what they write and their exit code.
  \<^item> \<open>Native\<close> (\<open>guest.c\<close>): allocator, instruction hook, encoder, capability paths, admission.
  \<^item> \<open>Executor\<close> (\<open>guest.c\<close>): \<open>ruby_execute\<close> with the set-up and admission in \<open>run\<close>, every native method
    (\<open>react\<close>), the exchange with the host and the presentation of errors, as a \<open>native\<close> of \<open>GuestRun\<close>.
    The record \<open>mruby\<close> is the interpreter: what it allocates, what its compiler returns, and the program
    as a strategy over the answers of the native methods. \<open>outcome\<close> lists the ways an execution stops;
    the locale \<open>lawful_executor\<close> is what the Rust side relies on, interpreted by \<open>ruby_execute\<close>.
  \<^item> \<open>Callbacks\<close>: a run with that executor: its frames, its replies, its limits, its end.
  \<^item> \<open>Build\<close> (\<open>build.rs\<close>, \<open>fuzz_targets\<close>): the build script as its steps over the answers of the commands
    it runs, and the calls the fuzz targets make.
  \<^item> \<open>Samples\<close>: concrete requests and codecs for the witnesses.
  \<^item> This theory: properties that span the two processes.

  \<^bold>\<open>What is shown.\<close> Of the supervisor, for every host, guest and schedule: forwarded calls are numbered,
  within budget and in the catalog, one at a time; both byte streams are whole frames; at most one
  terminal frame, and last; bounded buffers; the watchdog ends the run, a queued terminal frame
  is delivered to a host that reads, and the guest's exit is reported. Of the transport: it
  refines the blocking frame functions for every fragmentation. Of the guest: budgets, the check of
  replies, values crossing unchanged, frames only on standard output. Of the containment: complete and
  ordered before any guest code, and the filter an allow list. Of the C layer: exact memory and
  instruction accounting, an encoder that never truncates and prints JSON, admission of nested code,
  replies that become values or exceptions, records that read like objects. Of a run with the C layer,
  for every program: it ends, within its limits; it does nothing before it is admitted; it keeps the
  protocol; every value at the boundary is well-formed; a failure is presented as what it is. Across:
  the supervisor takes every frame of such a run, and an honest call passes every check on its way
  there and back. Of the build: only the pinned, unmodified source. Three theorems state behaviour that
  contradicts what the sources intend (\<open>report_follows_partial_frame\<close>, \<open>truncated_body_closes_guest\<close>,
  \<open>failed_write_hides_exit\<close>).

  \<^bold>\<open>Bounds.\<close> The loop, the wait for the first request and the guest's callbacks may go on for ever in
  the code. Here the first two run over lists of turns and the third with fuel; an exhausted list or
  fuel is a result of its own (\<open>Next\<close>, \<open>None\<close>), and the theorems that something ends name how much
  is enough: a turn after the deadline, one turn per byte still to be delivered, one unit of fuel
  more than the callbacks the executor makes. \<open>replay\<close>, the program seen from the C layer, has one unit
  of fuel for each native call; as each of them counts an instruction, one more than the instruction
  limit is enough (\<open>instruction_limit_is_enough\<close>).

  \<^bold>\<open>Not modelled.\<close> serde_json, libc, mruby and the commands of the build are parameters; what a theorem
  needs of one (that a value printed is parsed back, that parsed objects are in key order) is a
  hypothesis of it. Of mruby the development uses that a native method is entered by an instruction
  of its own, that a hash looks strings up by their bytes, and that a raise in a native method is
  handed to the program as an exception. The registration of the native methods and the removal of
  reflective ones in \<open>run\<close> are calls into mruby without a counterpart, and so is its instruction
  decoder. The texts of serde's errors, diagnostics on standard error and panics of the engine are
  left out, and so are the tests and the PHP client.
\<close>

section \<open>One capability call across the two processes\<close>

text \<open>
  \<open>in_step\<close> relates the two sides between calls: they agree on the execution and on the number of
  calls so far, nothing is unanswered, and nothing is under way.
\<close>

definition in_step :: "request \<Rightarrow> world \<Rightarrow> sup \<Rightarrow> bool" where
  "in_step req w s \<longleftrightarrow> execution w = execution_id req \<and> call_limit w = calls (req_limits req)
     \<and> h_sequence w = h_calls w \<and> sequence s = h_sequence w \<and> pending_sequence s = None
     \<and> \<not> completed s \<and> \<not> pending (to_host s) \<and> \<not> pending (to_guest s)"

text \<open>What the loop's sends amount to once the other side has taken everything.\<close>

definition delivered_host :: "sup \<Rightarrow> sup" where
  "delivered_host s = s\<lparr>to_host := (to_host s)\<lparr>woffset := length (wbytes (to_host s))\<rparr>,
     host_wire := host_wire s @ backlog (to_host s)\<rparr>"

definition delivered_guest :: "sup \<Rightarrow> sup" where
  "delivered_guest s = s\<lparr>to_guest := (to_guest s)\<lparr>woffset := length (wbytes (to_guest s))\<rparr>,
     guest_wire := guest_wire s @ backlog (to_guest s)\<rparr>"

text \<open>A reply the host owes the guest for its next call.\<close>

definition answers_call :: "request \<Rightarrow> u64 \<Rightarrow> json \<Rightarrow> bool" where
  "answers_call req n response \<longleftrightarrow> identified req response
     \<and> member response ''kind'' = String ''reply'' \<and> as_u64 (member response ''sequence'') = Some n
     \<and> is_boolean (member response ''ok'')"

lemma guest_call_accepted:
  assumes "in_step req w s" "\<not> validate_only req" "path \<in> set (catalog req)"
    and "h_calls w < call_limit w" "event = call_event (w\<lparr>h_sequence := h_sequence w + 1\<rparr>) path value"
    and "frameable S event"
  shows "guest_event S req event s = Next (s\<lparr>sequence := h_sequence w + 1,
    pending_sequence := Some (h_sequence w + 1),
    to_host := \<lparr>wbytes = frame S event, woffset = 0\<rparr>, history := history s @ [ToHost event]\<rparr>)"
proof -
  have e: "member event ''protocol'' = String PROTOCOL"
    "member event ''execution_id'' = String (execution_id req)" "member event ''kind'' = String ''call''"
    "member event ''sequence'' = int_value (h_sequence w + 1)" "member event ''path'' = String path"
    using assms(1,5) by (simp_all add: call_event_def json_simps in_step_def)
  have "h_sequence w + 1 \<le> calls (req_limits req)"
    using assms(1,4) calls_step(2) by (simp add: in_step_def)
  then show ?thesis
    using assms(1-3,6) e
    by (auto simp: guest_event_def guest_call_def identified_def in_step_def Let_def int_value_def
        host_enqueue_def enqueue_cases list_ex_iff)
qed

lemma reply_accepted:
  assumes "answers_call req n response" "pending_sequence s = Some n" "\<not> pending (to_guest s)"
    and "frameable S response"
  shows "host_reply S req response s = Next (s\<lparr>pending_sequence := None,
    to_guest := \<lparr>wbytes = frame S response, woffset = 0\<rparr>, history := history s @ [ToGuest response]\<rparr>)"
  using assms by (auto simp: answers_call_def host_reply_def guest_enqueue_def enqueue_cases)

text \<open>
  A script of calls with the replies they get. \<open>exchange\<close> runs both sides on it: the guest makes the
  call with the replies waiting on its standard input, the supervisor is handed the event the
  guest wrote, delivers it, is handed the host's reply and delivers that.
\<close>

fun exchange :: "serde \<Rightarrow> request \<Rightarrow> (string \<times> bytes \<times> json) list \<Rightarrow> world \<Rightarrow> sup \<Rightarrow> (world \<times> sup) option" where
  "exchange S req [] w s = Some (w, s)"
| "exchange S req ((path, args, response) # cs) w s =
     (case host_call S ''call'' path args w of (status, w') \<Rightarrow>
        if status \<noteq> 0 then None
        else (case guest_event S req (last (sent w')) s of
            Next s1 \<Rightarrow>
              (case host_reply S req response (delivered_host s1) of
                 Next s2 \<Rightarrow> exchange S req cs w' (delivered_guest s2)
               | _ \<Rightarrow> None)
          | _ \<Rightarrow> None))"

definition call_frame :: "request \<Rightarrow> u64 \<Rightarrow> string \<Rightarrow> json \<Rightarrow> json" where
  "call_frame req n path v = object
     [(''protocol'', String PROTOCOL), (''execution_id'', String (execution_id req)),
      (''kind'', String ''call''), (''sequence'', int_value n), (''path'', String path), (''args'', v)]"

fun well_answered :: "serde \<Rightarrow> request \<Rightarrow> u64 \<Rightarrow> (string \<times> bytes \<times> json) list \<Rightarrow> bool" where
  "well_answered S req n [] = True"
| "well_answered S req n ((path, args, response) # cs) =
     (path \<in> set (catalog req) \<and> utf8 path
      \<and> (case from_slice S args of Inl _ \<Rightarrow> False | Inr v \<Rightarrow> frameable S (call_frame req (n + 1) path v))
      \<and> answers_call req (n + 1) response \<and> frameable S response \<and> codec_ok S response
      \<and> crossable 0 response \<and> well_answered S req (n + 1) cs)"

lemma exchange_one:
  assumes "in_step req w s" "\<not> validate_only req" "h_calls w < call_limit w"
    and "room (stdout w) = None" "stdin w = frame S response @ rest"
    and "well_answered S req (h_calls w) [(path, args, response)]"
  obtains w' s' where "exchange S req ((path, args, response) # cs) w s = exchange S req cs w' s'"
    "in_step req w' s'" "h_calls w' = h_calls w + 1" "call_limit w' = call_limit w"
    "room (stdout w') = None" "stdin w' = rest"
    "to_guest_values (history s') = to_guest_values (history s) @ [response]"
proof -
  from assms(6) obtain v where a: "path \<in> set (catalog req)" "utf8 path" "from_slice S args = Inr v"
    "frameable S (call_frame req (h_calls w + 1) path v)" "answers_call req (h_calls w + 1) response"
    "frameable S response" "codec_ok S response" "crossable 0 response"
    by (auto split: sum.splits)
  from a(8) obtain t where t: "tree_new response = Inr t"
    unfolding tree_new_def by (metis add_total(1))
  define event where "event = call_event (w\<lparr>h_sequence := h_sequence w + 1\<rparr>) path v"
  have seq: "h_sequence w = h_calls w" "execution w = execution_id req"
    using assms(1) by (simp_all add: in_step_def)
  then have f: "frameable S event"
    using a(4) by (simp add: event_def call_event_def call_frame_def)
  have m: "reply_matches (w\<lparr>h_sequence := h_sequence w + 1\<rparr>) response"
    using a(5) seq by (simp add: reply_matches_def answers_call_def identified_def)
  define w' where "w' = w\<lparr>h_calls := h_calls w + 1, h_sequence := h_sequence w + 1,
    stdout := (stdout w)\<lparr>written := written (stdout w) @ frame S event\<rparr>,
    sent := sent w @ [event], stdin := rest, reply := Some t\<rparr>"
  have call: "host_call S ''call'' path args w = (0, w')"
    unfolding w'_def event_def
    using host_call_answered [OF a(2,3) assms(3-5) a(6,7) t m] f by (simp add: event_def)
  define s1 where "s1 = s\<lparr>sequence := h_sequence w + 1, pending_sequence := Some (h_sequence w + 1),
    to_host := \<lparr>wbytes = frame S event, woffset = 0\<rparr>, history := history s @ [ToHost event]\<rparr>"
  have ev: "guest_event S req event s = Next s1"
    unfolding s1_def
    by (rule guest_call_accepted [OF assms(1,2) a(1) assms(3) event_def f])
  define s2 where "s2 = (delivered_host s1)\<lparr>pending_sequence := None,
    to_guest := \<lparr>wbytes = frame S response, woffset = 0\<rparr>,
    history := history (delivered_host s1) @ [ToGuest response]\<rparr>"
  have rp: "host_reply S req response (delivered_host s1) = Next s2"
    unfolding s2_def using a(5,6) seq assms(1)
    by (intro reply_accepted) (simp_all add: delivered_host_def s1_def in_step_def)
  show thesis
  proof (rule that [of w' "delivered_guest s2"])
    show "exchange S req ((path, args, response) # cs) w s = exchange S req cs w' (delivered_guest s2)"
      using call ev rp by (simp add: w'_def)
    show "in_step req w' (delivered_guest s2)"
      using assms(1)
      by (simp add: in_step_def w'_def s2_def s1_def delivered_host_def delivered_guest_def pending_def)
  qed (simp_all add: w'_def s2_def s1_def delivered_host_def delivered_guest_def assms(4))
qed

section \<open>A whole run before the supervisor\<close>

text \<open>
  \<open>listens\<close> hands the supervisor a guest's events one after the other, each when the one before has
  been delivered and, if it was a call, answered.
\<close>

definition idle_again :: "sup \<Rightarrow> sup" where
  "idle_again s = (delivered_host s)\<lparr>pending_sequence := None\<rparr>"

fun listens :: "serde \<Rightarrow> request \<Rightarrow> json list \<Rightarrow> sup \<Rightarrow> sup option" where
  "listens S req [] s = Some s"
| "listens S req (v # vs) s =
     (case guest_event S req v s of
        Next s' \<Rightarrow> listens S req vs (idle_again s')
      | _ \<Rightarrow> None)"

definition listening :: "nat \<Rightarrow> sup \<Rightarrow> bool" where
  "listening n s \<longleftrightarrow> sequence s = of_nat n \<and> pending_sequence s = None \<and> \<not> pending (to_host s)"

lemma idle_again_simps [simp]:
  "sequence (idle_again s) = sequence s" "pending_sequence (idle_again s) = None"
  "\<not> pending (to_host (idle_again s))" "completed (idle_again s) = completed s"
  by (simp_all add: idle_again_def delivered_host_def pending_def)

lemma listens_append:
  "listens S req (vs @ us) s = Option.bind (listens S req vs s) (listens S req us)"
  by (induction S req vs s rule: listens.induct) (auto split: flow.split)

lemma log_accepted:
  assumes "identified req v" "member v ''kind'' = String ''log''" "frameable S v" "listening n s"
  shows "\<exists>s'. guest_event S req v s = Next s' \<and> listening n (idle_again s')"
  using assms by (auto simp: guest_event_def host_enqueue_def enqueue_cases listening_def)

lemma call_accepted:
  assumes "identified req v" "is_call v" "frameable S v" "listening n s" "call_allowed req (Suc n) v"
  shows "\<exists>s'. guest_event S req v s = Next s' \<and> listening (Suc n) (idle_again s')"
proof -
  have "Suc n \<le> unat (calls (req_limits req))" using assms(5) by (simp add: call_allowed_def)
  then have "of_nat (Suc n) \<le> calls (req_limits req)"
    using unat_u64_less [of "calls (req_limits req)"]
    by (simp add: word_le_nat_alt unat_of_nat take_bit_eq_mod del: of_nat_Suc)
  with assms show ?thesis
    by (auto simp: guest_event_def guest_call_def host_enqueue_def enqueue_cases listening_def
        call_allowed_def is_call_def Let_def list_ex_iff add.commute)
qed

lemma listens_all:
  assumes "list_all (identified req) vs" "list_all (frameable S) vs"
    and "list_all (\<lambda>v. is_call v \<or> member v ''kind'' = String ''log'') vs"
    and "calls_in_order req n (filter is_call vs)" "listening n s"
  shows "\<exists>s'. listens S req vs s = Some s' \<and> listening (n + length (filter is_call vs)) s'"
  using assms
proof (induction vs arbitrary: n s)
  case (Cons v vs)
  show ?case
  proof (cases "is_call v")
    case True
    with Cons.prems obtain s' where "guest_event S req v s = Next s'" "listening (Suc n) (idle_again s')"
      using call_accepted [of req v S n s] by auto
    with Cons.IH [of "Suc n" "idle_again s'"] Cons.prems True show ?thesis by simp
  next
    case False
    with Cons.prems obtain s' where "guest_event S req v s = Next s'" "listening n (idle_again s')"
      using log_accepted [of req v S n s] by auto
    with Cons.IH [of n "idle_again s'"] Cons.prems False show ?thesis by simp
  qed
qed simp

text \<open>
  \<open>hear\<close> does the same from the bytes of the pipe: each event is first put together by the incremental
  reader, from what the kernel has ready at each poll.
\<close>

fun hear :: "serde \<Rightarrow> request \<Rightarrow> nat list list \<Rightarrow> bytes \<Rightarrow> reader \<Rightarrow> sup \<Rightarrow> (sup \<times> bytes) option" where
  "hear S req [] stream r s = Some (s, stream)"
| "hear S req (ks # kss) stream r s =
     (case pull (receive S) consumed ks stream r of
        (Inr (Some v), rest, r') \<Rightarrow>
          (case guest_event S req v s of
             Next s' \<Rightarrow> hear S req kss rest r' (idle_again s')
           | _ \<Rightarrow> None)
      | _ \<Rightarrow> None)"

text \<open>Polls that have bytes ready at least as often as the frame has bytes.\<close>

definition enough :: "serde \<Rightarrow> json \<Rightarrow> nat list \<Rightarrow> bool" where
  "enough S v ks \<longleftrightarrow> length (frame S v) \<le> length (filter ((<) 0) ks)"

lemma hear_frames:
  assumes "list_all (frameable S) vs" "list_all (codec_ok S) vs" "list_all2 (enough S) vs kss"
  shows "hear S req kss (concat (map (frame S) vs) @ rest) empty_reader s =
    map_option (\<lambda>s. (s, rest)) (listens S req vs s)"
  using assms(3,1,2)
proof (induction vs kss arbitrary: s rule: list_all2_induct)
  case (Cons v vs ks kss)
  have "pull (receive S) consumed ks (frame S v @ concat (map (frame S) vs) @ rest) empty_reader
      = (Inr (Some v), concat (map (frame S) vs) @ rest, empty_reader)"
    using Cons.prems Cons.hyps(1) length_frame_ge [of S v]
      pull_frame [of S v empty_reader "frame S v @ concat (map (frame S) vs) @ rest"
        "concat (map (frame S) vs) @ rest" ks]
    by (cases "frame S v = []") (simp_all add: empty_reader_def enough_def)
  with Cons.IH Cons.prems show ?case by (simp split: flow.split)
qed simp

section \<open>Properties across components\<close>

text \<open>
  C11: an honest guest and an honest host are never cut off. However many calls the budget allows,
  each to a path of the catalog and each answered by the host, every call event the guest writes
  passes the supervisor's checks, every reply is forwarded, and the guest accepts it: both sides
  end in step, with as many calls counted as were made, and no byte left over.
\<close>
theorem honest_calls_go_through:
  assumes "in_step req w s" "\<not> validate_only req"
    and "unat (h_calls w) + length cs \<le> unat (call_limit w)"
    and "room (stdout w) = None" "stdin w = concat (map (\<lambda>(_, _, r). frame S r) cs) @ rest"
    and "well_answered S req (h_calls w) cs"
  shows "\<exists>w' s'. exchange S req cs w s = Some (w', s') \<and> in_step req w' s'
    \<and> unat (h_calls w') = unat (h_calls w) + length cs \<and> stdin w' = rest
    \<and> to_guest_values (history s') = to_guest_values (history s) @ map (\<lambda>(_, _, r). r) cs"
  using assms
proof (induction cs arbitrary: w s)
  case (Cons c cs)
  obtain path args response where c: "c = (path, args, response)" by (cases c) auto
  have less: "h_calls w < call_limit w"
    using Cons.prems(3) by (simp add: word_less_nat_alt)
  have one: "well_answered S req (h_calls w) [(path, args, response)]"
    "well_answered S req (h_calls w + 1) cs"
    using Cons.prems(6) by (simp_all add: c)
  obtain w' s' where e: "exchange S req ((path, args, response) # cs) w s = exchange S req cs w' s'"
    "in_step req w' s'" "h_calls w' = h_calls w + 1" "call_limit w' = call_limit w"
    "room (stdout w') = None" "stdin w' = concat (map (\<lambda>(_, _, r). frame S r) cs) @ rest"
    "to_guest_values (history s') = to_guest_values (history s) @ [response]"
    by (rule exchange_one [OF Cons.prems(1,2) less Cons.prems(4) _ one(1),
          of "concat (map (\<lambda>(_, _, r). frame S r) cs) @ rest" cs])
      (use Cons.prems(5) in \<open>simp_all add: c\<close>)
  have n: "unat (h_calls w') = Suc (unat (h_calls w))"
    unfolding e(3) by (rule calls_step(1) [OF less])
  with Cons.IH [OF e(2) Cons.prems(2) _ e(5,6)] Cons.prems(3) one(2) e(1,3,4,7)
  show ?case by (auto simp: c)
qed simp

theorem honest_calls_go_through_witness:
  "\<exists>w' s'. exchange (sample_codec sample_reply) sample_request [(''records.list'', [116], sample_reply)]
      sample_world init_sup = Some (w', s')
    \<and> unat (h_calls w') = 1 \<and> stdin w' = [9] \<and> to_guest_values (history s') = [sample_reply]"
proof -
  have p: "from_slice (sample_codec sample_reply) [116] = Inr sample_reply"
    by (simp add: sample_codec_def)
  have crosses: "crossable 0 sample_reply"
    by code_simp
  have a: "answers_call sample_request 1 sample_reply"
    by (simp add: answers_call_def identified_def sample_reply_def json_simps sample_request_def
        int_value_def)
  have "well_answered (sample_codec sample_reply) sample_request 0
      [(''records.list'', [116], sample_reply)]"
    using p crosses a sample_path_utf8 by (simp add: sample_request_def)
  moreover have "in_step sample_request sample_world init_sup"
    by (simp add: in_step_def init_sup_def pending_def empty_writer_def)
      (simp add: sample_world_def start_world_def sample_request_def default_limits_def)
  moreover have "\<not> validate_only sample_request" "to_guest_values (history init_sup) = []"
    by (simp_all add: sample_request_def init_sup_def)
  ultimately show ?thesis
    using honest_calls_go_through [of sample_request sample_world init_sup
        "[(''records.list'', [116], sample_reply)]" "sample_codec sample_reply" "[9]"]
    by (auto simp del: exchange.simps well_answered.simps)
qed

text \<open>
  The guest's last word is always taken. The terminal event of a run, and the diagnostic a guest
  process writes instead of one, pass the supervisor's checks whenever it is listening: the
  execution is marked completed and exactly that frame is queued for the host.
\<close>
theorem terminal_frame_accepted:
  assumes "guest_run S N fuel cpu req input k = (Some (Event v), w)
      \<or> v = failure (execution_id req) ''engine_error'' message"
    and "\<not> pending (to_host s)" "frameable S v"
  shows "guest_event S req v s = Next (s\<lparr>completed := True,
    to_host := \<lparr>wbytes = frame S v, woffset = 0\<rparr>, history := history s @ [ToHost v]\<rparr>)"
proof -
  have "identified req v \<and> member v ''kind'' = String ''completed''"
    using assms(1)
  proof
    assume "guest_run S N fuel cpu req input k = (Some (Event v), w)"
    from guest_run_event [OF this] show ?thesis
      by (auto simp: completed_event_def identified_def json_simps)
  qed (simp add: failure_def identified_def json_simps)
  with assms(2,3) show ?thesis
    by (simp add: guest_event_def host_enqueue_def enqueue_cases)
qed

theorem terminal_frame_accepted_witness:
  "guest_event (sample_codec Null) sample_request (failure ''run'' ''engine_error'' ''m'') init_sup
     = Next (init_sup\<lparr>completed := True, to_host := \<lparr>wbytes = [0, 0, 0, 1, 116], woffset = 0\<rparr>,
         history := [ToHost (failure ''run'' ''engine_error'' ''m'')]\<rparr>)"
  using terminal_frame_accepted [of "sample_codec Null" sample_native 2 None sample_request "[]" _
      "failure ''run'' ''engine_error'' ''m''" _ "''m''" init_sup]
  by (simp add: init_sup_def pending_def empty_writer_def sample_request_def)




end
